(* ===== verification/Prelude.thy ===== *)
theory Prelude
  imports Main "HOL-Library.Word"
begin

text \<open>
  Shared vocabulary of the KGPU development: the machine types of the C sources, the outcome of
  code that may dereference a bad pointer or call \<open>abort()\<close>, the constants and the arithmetic
  and address macros of \<^verbatim>\<open>kgpu.h\<close>, \<^verbatim>\<open>kkgpu.h\<close>, \<^verbatim>\<open>kgpuConfiguration.h\<close> and \<^verbatim>\<open>dataType.h\<close>, and
  the generic lemmas on words and lists that the component theories use.
\<close>

unbundle bit_operations_syntax

section \<open>Machine types and outcomes\<close>

text \<open>
  KGPU is built for x86\_64 only: \<open>unsigned long\<close>, \<open>size_t\<close> and pointers have 64 bits,
  \<open>unsigned int\<close> and \<open>u32\<close> have 32. A null pointer is the word 0.
\<close>

type_synonym ulong = "64 word"
type_synonym u32 = "32 word"

text \<open>
  What stops the C code: a read or write through a null pointer, outside an array or of a freed
  object, a second \<open>free\<close> of one object, a division by zero, and an explicit \<open>abort()\<close>. A function that may stop
  returns \<open>fault + 'a\<close>.
\<close>

datatype fault = NullDeref | OutOfBounds | UseAfterFree | DoubleFree | Aborted | DivByZero

named_theorems kgpu_consts \<open>values of the configuration constants\<close>

definition andThen :: "fault + 'a \<Rightarrow> ('a \<Rightarrow> fault + 'b) \<Rightarrow> fault + 'b" where
  "andThen m f = (case m of Inl e \<Rightarrow> Inl e | Inr x \<Rightarrow> f x)"

lemma andThen_simps [simp]: "andThen (Inl e) f = Inl e" "andThen (Inr x) f = f x"
  by (simp_all add: andThen_def)

lemma andThen_eq_Inr: "andThen m f = Inr y \<longleftrightarrow> (\<exists>x. m = Inr x \<and> f x = Inr y)"
  by (cases m) auto

lemma andThen_assoc: "andThen (andThen m f) g = andThen m (\<lambda>x. andThen (f x) g)"
  by (cases m) auto

text \<open>
  Code that may also run for ever: \<open>None\<close> for a loop that does not end, otherwise the outcome.
\<close>

type_synonym 'a run = "(fault + 'a) option"

definition bindO :: "'a run \<Rightarrow> ('a \<Rightarrow> 'b run) \<Rightarrow> 'b run" where
  "bindO m f = (case m of None \<Rightarrow> None | Some (Inl e) \<Rightarrow> Some (Inl e) | Some (Inr x) \<Rightarrow> f x)"

definition fault_of :: "'a run \<Rightarrow> fault option" where
  "fault_of m = (case m of Some (Inl e) \<Rightarrow> Some e | _ \<Rightarrow> None)"

lemma bindO_simps [simp]:
  "bindO None f = None" "bindO (Some (Inl e)) f = Some (Inl e)" "bindO (Some (Inr x)) f = f x"
  by (simp_all add: bindO_def)

definition read_arr :: "'a list \<Rightarrow> nat \<Rightarrow> fault + 'a" where
  "read_arr xs i = (if i < length xs then Inr (xs ! i) else Inl OutOfBounds)"

definition write_arr :: "'a list \<Rightarrow> nat \<Rightarrow> 'a \<Rightarrow> fault + 'a list" where
  "write_arr xs i v = (if i < length xs then Inr (xs[i := v]) else Inl OutOfBounds)"

section \<open>Configuration constants and macros\<close>

definition PAGE_SHIFT :: nat where "PAGE_SHIFT = 12"

definition PAGE_SIZE :: ulong where "PAGE_SIZE = 4096"

definition KGPU_BUF_UNIT_SIZE :: ulong where "KGPU_BUF_UNIT_SIZE = 1024 * 1024"

definition KGPU_BUF_NR_FRAMES_PER_UNIT :: ulong where
  "KGPU_BUF_NR_FRAMES_PER_UNIT = KGPU_BUF_UNIT_SIZE div PAGE_SIZE"

definition KGPU_BUF_SIZE :: ulong where "KGPU_BUF_SIZE = 128 * 128 * 128"

definition KGPU_MMAP_SIZE :: ulong where "KGPU_MMAP_SIZE = KGPU_BUF_SIZE"

definition KGPU_SERVICE_NAME_SIZE :: nat where "KGPU_SERVICE_NAME_SIZE = 32"

definition KGPU_OK :: int where "KGPU_OK = 0"

definition KGPU_NO_RESPONSE :: int where "KGPU_NO_RESPONSE = 1"

definition KGPU_NO_SERVICE :: int where "KGPU_NO_SERVICE = 2"

definition KGPU_TERMINATED :: int where "KGPU_TERMINATED = 3"

text \<open>The error numbers the module returns (Linux, x86\_64); the code returns them negated.\<close>

definition EAGAIN :: int where "EAGAIN = 11"

definition ENOMEM :: int where "ENOMEM = 12"

definition EFAULT :: int where "EFAULT = 14"

definition EBUSY :: int where "EBUSY = 16"

definition EINVAL :: int where "EINVAL = 22"

definition ENOTTY :: int where "ENOTTY = 25"

definition ERESTARTSYS :: int where "ERESTARTSYS = 512"

lemmas errno_defs = EAGAIN_def ENOMEM_def EFAULT_def EBUSY_def EINVAL_def ENOTTY_def ERESTARTSYS_def

text \<open>The kernel's \<open>DIV_ROUND_UP\<close>, on \<open>unsigned long\<close>: the addition wraps.\<close>

definition div_round_up :: "ulong \<Rightarrow> ulong \<Rightarrow> ulong" where
  "div_round_up x d = (x + d - 1) div d"

definition round_mask :: "ulong \<Rightarrow> ulong" where
  "round_mask y = y - 1"

definition round_up :: "ulong \<Rightarrow> ulong \<Rightarrow> ulong" where
  "round_up x y = ((x - 1) OR round_mask y) + 1"

definition round_down :: "ulong \<Rightarrow> ulong \<Rightarrow> ulong" where
  "round_down x y = x AND NOT (round_mask y)"

definition ADDR_WITHIN :: "ulong \<Rightarrow> ulong \<Rightarrow> ulong \<Rightarrow> bool" where
  "ADDR_WITHIN p base sz \<longleftrightarrow> base \<le> p \<and> p < base + sz"

definition ADDR_REBASE :: "ulong \<Rightarrow> ulong \<Rightarrow> ulong \<Rightarrow> ulong" where
  "ADDR_REBASE dst_base src_base p = dst_base + (p - src_base)"

text \<open>\<open>struct kgpu_gpu_mem_info\<close>: a buffer, by its address and size.\<close>

record kgpu_gpu_mem_info =
  mi_uva :: ulong
  mi_size :: ulong

text \<open>What the kernel and the helper exchange over the device file.\<close>

record kgpu_ku_request =
  ku_id :: int
  ku_service_name :: string
  ku_in :: ulong
  ku_out :: ulong
  ku_data :: ulong
  ku_insize :: ulong
  ku_outsize :: ulong
  ku_datasize :: ulong

record kgpu_ku_response =
  resp_id :: int
  resp_errcode :: int

lemma const_values [kgpu_consts]:
  "PAGE_SIZE = 4096" "KGPU_BUF_UNIT_SIZE = 1048576" "KGPU_BUF_NR_FRAMES_PER_UNIT = 256"
  "KGPU_BUF_SIZE = 2097152" "KGPU_MMAP_SIZE = 2097152" "PAGE_SHIFT = 12"
  by (simp_all add: PAGE_SIZE_def KGPU_BUF_UNIT_SIZE_def KGPU_BUF_NR_FRAMES_PER_UNIT_def
      KGPU_BUF_SIZE_def KGPU_MMAP_SIZE_def PAGE_SHIFT_def)

section \<open>Words\<close>

lemma unat_add_small:
  fixes x y :: "'a::len word"
  shows "unat x + unat y < 2 ^ LENGTH('a) \<Longrightarrow> unat (x + y) = unat x + unat y"
  by (simp add: unat_add_lem)

lemma unat_mult_small:
  fixes x y :: "'a::len word"
  shows "unat x * unat y < 2 ^ LENGTH('a) \<Longrightarrow> unat (x * y) = unat x * unat y"
  by (simp add: unat_mult_lem)

lemma unat_of_nat_small:
  "n < 2 ^ LENGTH('a) \<Longrightarrow> unat (of_nat n :: 'a::len word) = n"
  by (simp add: unat_of_nat)

lemma u32_bound: "unat (x :: u32) < 2 ^ 32"
  by (rule order.strict_trans2[OF unsigned_less]) simp

lemma ulong_bound: "unat (x :: ulong) < 2 ^ 64"
  by (rule order.strict_trans2[OF unsigned_less]) simp

lemma unat_ucast_u32 [simp]: "unat (ucast (x :: u32) :: ulong) = unat x"
proof -
  have "unat x < 2 ^ 64" using u32_bound[of x] by simp
  then show ?thesis by (simp add: unsigned_ucast_eq take_bit_nat_eq_self)
qed

lemma unat_ucast_trunc [simp]: "unat (ucast (x :: ulong) :: u32) = unat x mod 2 ^ 32"
  by (simp add: unsigned_ucast_eq take_bit_eq_mod)

lemma sint_small:
  fixes y :: u32
  assumes "unat y < 2 ^ 31"
  shows "sint y = uint y"
proof -
  have "int (unat y) < int (2 ^ 31)" using assms by (simp only: of_nat_less_iff)
  then have "uint y < 2 ^ 31" by (simp only: uint_nat of_nat_power of_nat_numeral)
  moreover have "- (2 ^ 31) \<le> uint y" by (rule order_trans[of _ 0]) simp_all
  ultimately have "signed_take_bit 31 (uint y) = uint y"
    by (intro signed_take_bit_int_eq_self)
  then show ?thesis by (simp add: sint_uint)
qed
lemma scast_small: "unat (y :: u32) < 2 ^ 31 \<Longrightarrow> (scast y :: ulong) = ucast y"
  by (metis of_int_uint scast_eq sint_small)
lemma unat_word_of_int_small: "0 \<le> n \<Longrightarrow> n < 2 ^ 32 \<Longrightarrow> unat (word_of_int n :: u32) = nat n"
  by (simp add: unat_eq_nat_uint uint_word_of_int)

lemma unat_div_round_up:
  assumes "unat x + unat d < 2 ^ 64" and "0 < unat d"
  shows "unat (div_round_up x d) = (unat x + unat d - 1) div unat d"
proof -
  have "unat (x + d) = unat x + unat d"
    using assms(1) by (intro unat_add_small) simp
  moreover have "1 \<le> unat (x + d)"
    using calculation assms(2) by simp
  ultimately have "unat (x + d - 1) = unat x + unat d - 1"
    by (simp add: unat_sub word_le_nat_alt)
  then show ?thesis
    by (simp add: div_round_up_def unat_div)
qed

end
