(* ===== verification/Bitmap_Blocks.thy ===== *)
theory Bitmap_Blocks
  imports Prelude
begin

text \<open>
  The bookkeeping that both memory managers of the kernel module use: a bitmap with one bit per unit
  and an array \<open>alloc_sz\<close> that holds, at the first unit of every allocated block, its number of
  units. The bitmap functions come from the Linux kernel (\<^verbatim>\<open>linux/bitmap.h\<close>), so they are a parameter of
  the model, the record \<open>bitmap_ops\<close>; the locale \<open>bitmap_lib\<close> states what the kernel documents of
  them. \<open>ref_bitmap\<close> is an executable implementation that satisfies the documentation.
\<close>

section \<open>The bitmap functions of the kernel\<close>

record bitmap_ops =
  bm_find :: "bool list \<Rightarrow> nat \<Rightarrow> nat \<Rightarrow> nat \<Rightarrow> nat \<Rightarrow> nat"
  bm_set :: "bool list \<Rightarrow> nat \<Rightarrow> nat \<Rightarrow> bool list"
  bm_clear :: "bool list \<Rightarrow> nat \<Rightarrow> nat \<Rightarrow> bool list"
  bm_zero :: "bool list \<Rightarrow> nat \<Rightarrow> bool list"

text \<open>The units \<open>[i, i + m)\<close> lie below \<open>size\<close> and are clear.\<close>

definition free_area :: "bool list \<Rightarrow> nat \<Rightarrow> nat \<Rightarrow> nat \<Rightarrow> bool" where
  "free_area bits sz i m \<longleftrightarrow> i + m \<le> sz \<and> (\<forall>j. i \<le> j \<and> j < i + m \<longrightarrow> \<not> bits ! j)"

section \<open>Blocks\<close>

definition blocks_of :: "nat \<Rightarrow> u32 list \<Rightarrow> nat \<rightharpoonup> nat" where
  "blocks_of n sz i = (if i < n \<and> sz ! i \<noteq> 0 then Some (unat (sz ! i)) else None)"

definition covered :: "(nat \<rightharpoonup> nat) \<Rightarrow> nat \<Rightarrow> bool" where
  "covered B j \<longleftrightarrow> (\<exists>i m. B i = Some m \<and> i \<le> j \<and> j < i + m)"

definition disjoint_blocks :: "(nat \<rightharpoonup> nat) \<Rightarrow> bool" where
  "disjoint_blocks B \<longleftrightarrow> (\<forall>i m j k. B i = Some m \<longrightarrow> B j = Some k \<longrightarrow> i \<noteq> j \<longrightarrow>
     {i ..< i + m} \<inter> {j ..< j + k} = {})"

text \<open>The representation invariant of an allocator with \<open>n\<close> units.\<close>

definition block_inv :: "nat \<Rightarrow> bool list \<Rightarrow> u32 list \<Rightarrow> bool" where
  "block_inv n bits sz \<longleftrightarrow> n \<le> length bits \<and> n \<le> length sz \<and>
     (\<forall>i m. blocks_of n sz i = Some m \<longrightarrow> i + m \<le> n) \<and>
     disjoint_blocks (blocks_of n sz) \<and>
     (\<forall>j < n. bits ! j \<longleftrightarrow> covered (blocks_of n sz) j)"

text \<open>
  The abstract allocator: a finite map from the first unit of a block to its length. A block may be
  added where no unit of it is covered; freeing removes the block that starts at the given unit.
\<close>

definition spec_alloc :: "nat \<Rightarrow> (nat \<rightharpoonup> nat) \<Rightarrow> nat \<Rightarrow> nat \<Rightarrow> (nat \<rightharpoonup> nat) \<Rightarrow> bool" where
  "spec_alloc n B i m B' \<longleftrightarrow> 0 < m \<and> i + m \<le> n \<and> (\<forall>j. i \<le> j \<and> j < i + m \<longrightarrow> \<not> covered B j) \<and>
     B' = B(i \<mapsto> m)"

definition has_room :: "nat \<Rightarrow> (nat \<rightharpoonup> nat) \<Rightarrow> nat \<Rightarrow> bool" where
  "has_room n B m \<longleftrightarrow> (\<exists>i. i + m \<le> n \<and> (\<forall>j. i \<le> j \<and> j < i + m \<longrightarrow> \<not> covered B j))"

lemma spec_alloc_undo:
  assumes "spec_alloc n B i m B'" and "\<And>j k. B j = Some k \<Longrightarrow> 0 < k"
  shows "B'(i := None) = B"
proof -
  have "B i = None"
  proof (rule ccontr)
    assume "B i \<noteq> None"
    then obtain k where "B i = Some k" by blast
    then have "covered B i" using assms(2) unfolding covered_def by (intro exI[of _ i] exI[of _ k]) simp
    then show False using assms(1) by (auto simp: spec_alloc_def)
  qed
  then show ?thesis using assms(1) by (auto simp: spec_alloc_def)
qed

lemma has_room_empty: "m \<le> n \<Longrightarrow> has_room n Map.empty m"
  by (auto simp: has_room_def covered_def intro: exI[of _ 0])

lemma blocks_of_update:
  assumes "i < n" "n \<le> length sz"
  shows "blocks_of n (sz[i := v]) = (blocks_of n sz)(i := if v = 0 then None else Some (unat v))"
  using assms by (auto simp: blocks_of_def fun_eq_iff nth_list_update)

lemma blocks_of_pos: "blocks_of n sz i = Some m \<Longrightarrow> 0 < m \<and> i < n"
  by (auto simp: blocks_of_def unat_gt_0 split: if_splits)

lemma covered_add:
  "B i = None \<Longrightarrow> covered (B(i \<mapsto> m)) j \<longleftrightarrow> covered B j \<or> (i \<le> j \<and> j < i + m)"
  unfolding covered_def by (auto split: if_splits)

lemma covered_remove:
  assumes "disjoint_blocks B" and "B i = Some m"
  shows "covered (B(i := None)) j \<longleftrightarrow> covered B j \<and> \<not> (i \<le> j \<and> j < i + m)"
proof
  assume "covered (B(i := None)) j"
  then obtain i' m' where b: "B i' = Some m'" "i' \<noteq> i" "i' \<le> j" "j < i' + m'"
    by (auto simp: covered_def split: if_splits)
  then have "{i' ..< i' + m'} \<inter> {i ..< i + m} = {}"
    using assms unfolding disjoint_blocks_def by blast
  moreover have "j \<in> {i' ..< i' + m'}" using b by simp
  ultimately have "j \<notin> {i ..< i + m}" by blast
  with b show "covered B j \<and> \<not> (i \<le> j \<and> j < i + m)"
    by (auto simp: covered_def)
next
  assume "covered B j \<and> \<not> (i \<le> j \<and> j < i + m)"
  then show "covered (B(i := None)) j"
    using assms(2) unfolding covered_def by (metis fun_upd_apply option.inject)
qed

lemma disjoint_blocks_add:
  assumes "disjoint_blocks B" and "\<forall>j. i \<le> j \<and> j < i + m \<longrightarrow> \<not> covered B j"
  shows "disjoint_blocks (B(i \<mapsto> m))"
proof -
  have "{i ..< i + m} \<inter> {j ..< j + k} = {}" if "B j = Some k" for j k
  proof (rule equals0I)
    fix x assume "x \<in> {i ..< i + m} \<inter> {j ..< j + k}"
    with that have "i \<le> x \<and> x < i + m" "covered B x" by (auto simp: covered_def)
    with assms(2) show False by blast
  qed
  then show ?thesis
    using assms(1) unfolding disjoint_blocks_def by (auto split: if_splits)
qed

lemma disjoint_blocks_remove: "disjoint_blocks B \<Longrightarrow> disjoint_blocks (B(i := None))"
  unfolding disjoint_blocks_def by (auto split: if_splits)

locale bitmap_lib =
  fixes bm :: bitmap_ops
  assumes find_sound: "sz \<le> length bits \<Longrightarrow> 0 < m \<Longrightarrow> bm_find bm bits sz st m 0 < sz \<Longrightarrow>
      free_area bits sz (bm_find bm bits sz st m 0) m \<and> st \<le> bm_find bm bits sz st m 0"
    and find_complete: "sz \<le> length bits \<Longrightarrow> 0 < m \<Longrightarrow> st \<le> i \<Longrightarrow> free_area bits sz i m \<Longrightarrow>
      bm_find bm bits sz st m 0 < sz"
    and set_length: "i + m \<le> length bits \<Longrightarrow> length (bm_set bm bits i m) = length bits"
    and set_nth: "i + m \<le> length bits \<Longrightarrow> j < length bits \<Longrightarrow>
      bm_set bm bits i m ! j \<longleftrightarrow> (i \<le> j \<and> j < i + m) \<or> bits ! j"
    and clear_length: "i + m \<le> length bits \<Longrightarrow> length (bm_clear bm bits i m) = length bits"
    and clear_nth: "i + m \<le> length bits \<Longrightarrow> j < length bits \<Longrightarrow>
      bm_clear bm bits i m ! j \<longleftrightarrow> \<not> (i \<le> j \<and> j < i + m) \<and> bits ! j"
    and zero_length: "m \<le> length bits \<Longrightarrow> length (bm_zero bm bits m) = length bits"
    and zero_nth: "m \<le> length bits \<Longrightarrow> j < m \<Longrightarrow> \<not> bm_zero bm bits m ! j"
begin

lemma find_fits_iff:
  assumes "block_inv n bits sz" and "0 < m"
  shows "bm_find bm bits n 0 m 0 < n \<longleftrightarrow> has_room n (blocks_of n sz) m"
proof -
  have "bm_find bm bits n 0 m 0 < n \<longleftrightarrow> (\<exists>i. free_area bits n i m)"
    using find_sound[of n bits m 0] find_complete[of n bits m 0] assms
    unfolding block_inv_def by blast
  also have "\<dots> \<longleftrightarrow> has_room n (blocks_of n sz) m"
    using assms(1) by (auto simp: has_room_def free_area_def block_inv_def)
  finally show ?thesis .
qed

lemma alloc_block:
  assumes inv: "block_inv n bits sz" and m: "0 < m" "m < 2 ^ 32"
    and i: "i = bm_find bm bits n 0 m 0" "i < n"
  shows "block_inv n (bm_set bm bits i m) (sz[i := of_nat m])"
    and "spec_alloc n (blocks_of n sz) i m (blocks_of n (sz[i := of_nat m]))"
proof -
  let ?B = "blocks_of n sz"
  have len: "n \<le> length bits" "n \<le> length sz" using inv by (auto simp: block_inv_def)
  have free: "i + m \<le> n" "\<And>j. i \<le> j \<Longrightarrow> j < i + m \<Longrightarrow> \<not> bits ! j"
    using find_sound[OF len(1) m(1), of 0] i by (auto simp: free_area_def)
  have clear: "\<forall>j. i \<le> j \<and> j < i + m \<longrightarrow> \<not> covered ?B j"
    using free inv by (auto simp: block_inv_def)
  have none: "?B i = None"
  proof (rule ccontr)
    assume "?B i \<noteq> None"
    then have "covered ?B i" using blocks_of_pos by (fastforce simp: covered_def)
    with clear m(1) show False by simp
  qed
  have u: "unat (of_nat m :: u32) = m" "(of_nat m :: u32) \<noteq> 0"
    using m by (auto simp: unat_of_nat_small word_unat_eq_iff)
  have B': "blocks_of n (sz[i := of_nat m]) = ?B(i \<mapsto> m)"
    using blocks_of_update[OF i(2) len(2)] u by simp
  show "spec_alloc n ?B i m (blocks_of n (sz[i := of_nat m]))"
    using m free(1) clear B' by (simp add: spec_alloc_def)
  have "disjoint_blocks (?B(i \<mapsto> m))"
    using inv clear by (simp add: block_inv_def disjoint_blocks_add)
  then show "block_inv n (bm_set bm bits i m) (sz[i := of_nat m])"
    using inv len free(1) none
    by (auto simp: block_inv_def B' set_length set_nth covered_add split: if_splits)
qed

lemma free_block:
  assumes inv: "block_inv n bits sz" and b: "blocks_of n sz i = Some m"
  shows "block_inv n (bm_clear bm bits i m) (sz[i := 0])"
    and "blocks_of n (sz[i := 0]) = (blocks_of n sz)(i := None)"
proof -
  have len: "n \<le> length bits" "n \<le> length sz" using inv by (auto simp: block_inv_def)
  have i: "i < n" "i + m \<le> n" using b inv blocks_of_pos by (auto simp: block_inv_def)
  show B': "blocks_of n (sz[i := 0]) = (blocks_of n sz)(i := None)"
    using blocks_of_update[OF i(1) len(2)] by simp
  have d: "disjoint_blocks (blocks_of n sz)" using inv by (simp add: block_inv_def)
  show "block_inv n (bm_clear bm bits i m) (sz[i := 0])"
    using inv len i d disjoint_blocks_remove[OF d]
    by (auto simp: block_inv_def B' clear_length clear_nth covered_remove[OF d b] split: if_splits)
qed

end

section \<open>An executable bitmap\<close>

fun clear_run :: "bool list \<Rightarrow> nat \<Rightarrow> nat \<Rightarrow> bool" where
  "clear_run bits i 0 = True"
| "clear_run bits i (Suc m) = (\<not> bits ! i \<and> clear_run bits (Suc i) m)"

function first_fit :: "bool list \<Rightarrow> nat \<Rightarrow> nat \<Rightarrow> nat \<Rightarrow> nat" where
  "first_fit bits sz i m =
     (if i + m \<le> sz \<and> i < sz
      then (if clear_run bits i m \<and> \<not> bits ! i then i else first_fit bits sz (Suc i) m)
      else sz + m)"
  by pat_completeness auto
termination
  by (relation "measure (\<lambda>(bits, sz, i, m). sz - i)") auto

declare first_fit.simps [simp del]

definition ref_bitmap :: bitmap_ops where
  "ref_bitmap = \<lparr>
     bm_find = (\<lambda>bits sz st m align. first_fit bits sz st m),
     bm_set = (\<lambda>bits i m. map (\<lambda>j. (i \<le> j \<and> j < i + m) \<or> bits ! j) [0 ..< length bits]),
     bm_clear = (\<lambda>bits i m. map (\<lambda>j. \<not> (i \<le> j \<and> j < i + m) \<and> bits ! j) [0 ..< length bits]),
     bm_zero = (\<lambda>bits m. map (\<lambda>j. m \<le> j \<and> bits ! j) [0 ..< length bits])\<rparr>"

lemma clear_run_iff: "clear_run bits i m \<longleftrightarrow> (\<forall>j. i \<le> j \<and> j < i + m \<longrightarrow> \<not> bits ! j)"
proof (induction m arbitrary: i)
  case (Suc m)
  show ?case
    unfolding clear_run.simps Suc
    by (metis Suc_leI add_Suc_right add_Suc_shift le_add1 le_neq_implies_less less_Suc_eq_le
        less_or_eq_imp_le order_less_le_trans)
qed auto


lemma first_fit_sound:
  "0 < m \<Longrightarrow> first_fit bits sz i m < sz \<Longrightarrow>
   free_area bits sz (first_fit bits sz i m) m \<and> i \<le> first_fit bits sz i m"
proof (induction bits sz i m rule: first_fit.induct)
  case (1 bits sz i m)
  show ?case
  proof (cases "i + m \<le> sz \<and> i < sz \<and> clear_run bits i m")
    case True
    then have "first_fit bits sz i m = i"
      using "1.prems" by (subst first_fit.simps) (auto simp: clear_run_iff)
    then show ?thesis using True by (simp add: free_area_def clear_run_iff)
  next
    case False
    then have run: "i + m \<le> sz \<and> i < sz" "first_fit bits sz i m = first_fit bits sz (Suc i) m"
      using "1.prems" first_fit.simps[of bits sz i m] by (auto split: if_splits)
    have "free_area bits sz (first_fit bits sz (Suc i) m) m \<and> Suc i \<le> first_fit bits sz (Suc i) m"
      by (rule "1.IH") (use False run "1.prems" in auto)
    then show ?thesis using run by simp
  qed
qed

lemma first_fit_complete:
  "0 < m \<Longrightarrow> i \<le> k \<Longrightarrow> free_area bits sz k m \<Longrightarrow> first_fit bits sz i m < sz"
proof (induction bits sz i m rule: first_fit.induct)
  case (1 bits sz i m)
  have b: "i + m \<le> sz" "i < sz" using "1.prems" by (auto simp: free_area_def)
  show ?case
  proof (cases "clear_run bits i m \<and> \<not> bits ! i")
    case True
    then show ?thesis using b by (simp add: first_fit.simps)
  next
    case False
    then have "i \<noteq> k" using "1.prems" by (auto simp: free_area_def clear_run_iff)
    then have "first_fit bits sz (Suc i) m < sz" using "1.IH" b False "1.prems" by auto
    then show ?thesis using b False by (subst first_fit.simps) auto
  qed
qed

interpretation ref_bm: bitmap_lib ref_bitmap
  by unfold_locales (auto simp: ref_bitmap_def intro: first_fit_complete dest: first_fit_sound)


section \<open>The contract of a block allocator\<close>

text \<open>
  What the users of either allocator rely on: an allocation either takes a free run of units and
  reports its address, or changes nothing when there is none; a release forgets exactly the block that
  starts at the given address; neither can fault. A client is a sequence of calls.
\<close>

datatype mem_call = MemAlloc ulong | MemRelease ulong

fun run_calls :: "(ulong \<Rightarrow> 'p \<Rightarrow> fault + (ulong \<times> 'p)) \<Rightarrow> (ulong \<Rightarrow> 'p \<Rightarrow> fault + 'p) \<Rightarrow>
  mem_call list \<Rightarrow> 'p \<Rightarrow> fault + 'p" where
  "run_calls al fr [] s = Inr s"
| "run_calls al fr (MemAlloc n # cs) s = andThen (al n s) (\<lambda>r. run_calls al fr cs (snd r))"
| "run_calls al fr (MemRelease a # cs) s = andThen (fr a s) (run_calls al fr cs)"

locale block_allocator =
  fixes inv :: "'p \<Rightarrow> bool"
    and blocks :: "'p \<Rightarrow> nat \<rightharpoonup> nat"
    and size_of :: "'p \<Rightarrow> nat"
    and units :: "ulong \<Rightarrow> nat"
    and addr :: "'p \<Rightarrow> nat \<Rightarrow> ulong"
    and index :: "'p \<Rightarrow> ulong \<Rightarrow> nat"
    and al :: "ulong \<Rightarrow> 'p \<Rightarrow> fault + (ulong \<times> 'p)"
    and fr :: "ulong \<Rightarrow> 'p \<Rightarrow> fault + 'p"
  assumes inv_disjoint: "inv p \<Longrightarrow> disjoint_blocks (blocks p)"
    and inv_bounds: "inv p \<Longrightarrow> blocks p i = Some m \<Longrightarrow> 0 < m \<and> i + m \<le> size_of p"
    and size_bound: "size_of p < 2 ^ 32"
    and index_addr: "i < 2 ^ 32 \<Longrightarrow> index p (addr p i) = i"
    and al_law: "inv p \<Longrightarrow> 0 < units n \<Longrightarrow> \<exists>a p'. al n p = Inr (a, p') \<and> inv p' \<and>
      size_of p' = size_of p \<and> index p' = index p \<and>
      (if has_room (size_of p) (blocks p) (units n)
       then \<exists>i. a = addr p i \<and> spec_alloc (size_of p) (blocks p) i (units n) (blocks p')
       else a = 0 \<and> p' = p)"
    and fr_law: "inv p \<Longrightarrow> \<exists>p'. fr a p = Inr p' \<and> inv p' \<and> size_of p' = size_of p \<and>
      index p' = index p \<and> blocks p' = (blocks p)(index p a := None)"
begin

lemma alloc_then_release:
  assumes "inv p" and "0 < units n" and "al n p = Inr (a, p')" and "blocks p' \<noteq> blocks p"
  shows "\<exists>p''. fr a p' = Inr p'' \<and> inv p'' \<and> blocks p'' = blocks p"
proof -
  obtain i where i: "inv p'" "index p' = index p" "a = addr p i"
    "spec_alloc (size_of p) (blocks p) i (units n) (blocks p')"
    using al_law[OF assms(1,2)] assms(3,4) by (auto split: if_splits)
  have "i < 2 ^ 32" using i(4) size_bound[of p] by (auto simp: spec_alloc_def)
  then have ix: "index p' a = i" using i(2,3) index_addr by simp
  have "(blocks p')(i := None) = blocks p" using spec_alloc_undo[OF i(4)] inv_bounds[OF assms(1)] by blast
  then show ?thesis using fr_law[OF i(1), of a] ix by auto
qed

lemma alloc_no_overlap:
  assumes "inv p" and "0 < units n" and "al n p = Inr (a, p')" and "blocks p i = Some m"
  shows "blocks p' i = Some m \<and>
    (\<forall>j k. blocks p' j = Some k \<longrightarrow> j \<noteq> i \<longrightarrow> {i ..< i + m} \<inter> {j ..< j + k} = {})"
proof -
  have c: "covered (blocks p) i"
    using inv_bounds[OF assms(1,4)] assms(4) unfolding covered_def by (intro exI[of _ i] exI[of _ m]) simp
  have p': "inv p'" "blocks p' i = Some m"
    using al_law[OF assms(1,2)] assms(3,4) c by (auto simp: spec_alloc_def split: if_splits)
  then show ?thesis using inv_disjoint[OF p'(1)] by (auto simp: disjoint_blocks_def)
qed

lemma run_calls_safe:
  assumes "inv p" and "\<forall>n. MemAlloc n \<in> set cs \<longrightarrow> 0 < units n"
  shows "\<exists>p'. run_calls al fr cs p = Inr p' \<and> inv p' \<and> disjoint_blocks (blocks p')"
  using assms
proof (induction cs arbitrary: p)
  case Nil
  then show ?case using inv_disjoint by simp
next
  case (Cons c cs)
  show ?case
  proof (cases c)
    case (MemAlloc n)
    then obtain a p' where "al n p = Inr (a, p')" "inv p'" using al_law[of p n] Cons.prems by auto
    with MemAlloc Cons show ?thesis by auto
  next
    case (MemRelease a)
    then obtain p' where "fr a p = Inr p'" "inv p'" using fr_law[of p a] Cons.prems by auto
    with MemRelease Cons show ?thesis by auto
  qed
qed

end

end
