(* ===== verification/Mempool.thy ===== *)
theory Mempool
  imports Bitmap_Blocks
begin

text \<open>
  The GPU buffer pool of the kernel module (\<^verbatim>\<open>kgpu/src/kernelSpace/main.c\<close>): \<open>struct _kgpu_mempool\<close>,
  \<open>kgpu_vmalloc\<close>, \<open>kgpu_vfree\<close>, \<open>set_gpu_mempool\<close> and \<open>clear_gpu_mempool\<close>. Each runs under
  \<open>gmpool_lock\<close> and is one step here. Arrays are \<open>None\<close> while the pointer is \<open>NULL\<close>.
\<close>

section \<open>State and operations\<close>

type_synonym page = ulong

record kgpu_mempool =
  uva :: ulong
  kva :: ulong
  pages :: "page option list option"
  npages :: u32
  nunits :: u32
  bitmap :: "bool list option"
  alloc_sz :: "u32 list option"

definition empty_mempool :: kgpu_mempool where
  "empty_mempool = \<lparr>uva = 0, kva = 0, pages = None, npages = 0, nunits = 0, bitmap = None,
     alloc_sz = None\<rparr>"

text \<open>
  The bits a bitmap function reads through a pointer. With size 0 nothing is read, so the null
  pointer of a pool that was never set up does no harm.
\<close>

definition bits_at :: "bool list option \<Rightarrow> u32 \<Rightarrow> fault + bool list" where
  "bits_at p n = (case p of Some bits \<Rightarrow> Inr bits
     | None \<Rightarrow> if n = 0 then Inr [] else Inl NullDeref)"

definition array_at :: "'a list option \<Rightarrow> fault + 'a list" where
  "array_at p = (case p of None \<Rightarrow> Inl NullDeref | Some xs \<Rightarrow> Inr xs)"

definition req_units :: "ulong \<Rightarrow> u32" where
  "req_units nbytes = ucast (div_round_up nbytes KGPU_BUF_UNIT_SIZE)"

definition kgpu_vmalloc :: "bitmap_ops \<Rightarrow> ulong \<Rightarrow> kgpu_mempool \<Rightarrow> fault + (ulong \<times> kgpu_mempool)" where
  "kgpu_vmalloc bm nbytes gm =
     (let req_nunits = req_units nbytes in
      andThen (bits_at (bitmap gm) (nunits gm)) (\<lambda>bits.
      let idx = bm_find bm bits (unat (nunits gm)) 0 (unat req_nunits) 0 in
      if idx < unat (nunits gm) then
        andThen (array_at (alloc_sz gm)) (\<lambda>sz.
        andThen (write_arr sz idx req_nunits) (\<lambda>sz'.
        Inr (kva gm + of_nat idx * KGPU_BUF_UNIT_SIZE,
             gm\<lparr>bitmap := Some (bm_set bm bits idx (unat req_nunits)), alloc_sz := Some sz'\<rparr>)))
      else Inr (0, gm)))"

definition unit_index :: "kgpu_mempool \<Rightarrow> ulong \<Rightarrow> ulong" where
  "unit_index gm p = (p - kva gm) div KGPU_BUF_UNIT_SIZE"

definition kgpu_vfree :: "bitmap_ops \<Rightarrow> ulong \<Rightarrow> kgpu_mempool \<Rightarrow> fault + kgpu_mempool" where
  "kgpu_vfree bm p gm =
     (let idx = unit_index gm p in
      if ucast (nunits gm) \<le> idx then Inr gm
      else
        andThen (array_at (alloc_sz gm)) (\<lambda>sz.
        andThen (read_arr sz (unat idx)) (\<lambda>n.
        if n = 0 then Inr gm
        else if ucast n > ucast (nunits gm) - idx then Inr gm
        else
          andThen (array_at (bitmap gm)) (\<lambda>bits.
          Inr (gm\<lparr>bitmap := Some (bm_clear bm bits (unat idx) (unat n)),
                  alloc_sz := Some (sz[unat idx := 0])\<rparr>)))))"

text \<open>
  What \<open>set_gpu_mempool\<close> gets from the kernel: the arrays \<open>kmalloc\<close> returns for a number of
  elements (with whatever they contain; \<open>None\<close> when it fails), the page of a user address
  (\<open>kgpu_v2page\<close>, \<open>None\<close> for \<open>NULL\<close>) and the address \<open>vmap\<close> gives (0 when it fails).
\<close>

record pool_env =
  km_pages :: "nat \<Rightarrow> page option list option"
  km_bitmap :: "nat \<Rightarrow> bool list option"
  km_alloc_sz :: "nat \<Rightarrow> u32 list option"
  v2page :: "ulong \<Rightarrow> page option"
  vmap :: "page option list \<Rightarrow> nat \<Rightarrow> ulong"

definition bits_to_longs :: "nat \<Rightarrow> nat" where
  "bits_to_longs n = (n + 63) div 64"

text \<open>\<open>memset (p, 0, n)\<close> on an array of 32-bit words: \<open>n\<close> counts bytes, lowest address first.\<close>

definition zero_low_bytes :: "nat \<Rightarrow> u32 \<Rightarrow> u32" where
  "zero_low_bytes k x = x AND NOT (mask (8 * k))"

definition memset_u32 :: "nat \<Rightarrow> u32 list \<Rightarrow> u32 list" where
  "memset_u32 n xs = map (\<lambda>i. zero_low_bytes (min 4 (n - 4 * i)) (xs ! i)) [0 ..< length xs]"

definition or_kmalloc :: "'a list option \<Rightarrow> 'a list option \<Rightarrow> 'a list option" where
  "or_kmalloc old new = (case old of Some xs \<Rightarrow> Some xs | None \<Rightarrow> new)"

definition fill_pages :: "(ulong \<Rightarrow> page option) \<Rightarrow> ulong \<Rightarrow> nat \<Rightarrow> page option list \<Rightarrow>
  fault + page option list" where
  "fill_pages v2p base n ps =
     (if n \<le> length ps
      then Inr (map (\<lambda>i. v2p (base + of_nat i * PAGE_SIZE)) [0 ..< n] @ drop n ps)
      else Inl OutOfBounds)"

definition set_gpu_mempool :: "bitmap_ops \<Rightarrow> pool_env \<Rightarrow> ulong \<Rightarrow> ulong \<Rightarrow> kgpu_mempool \<Rightarrow>
  fault + (int \<times> kgpu_mempool)" where
  "set_gpu_mempool bm env gb_uva gb_size gm =
     (let np = ucast (gb_size div PAGE_SIZE) :: u32;
          gm1 = gm\<lparr>uva := gb_uva, npages := np,
                   pages := or_kmalloc (pages gm) (km_pages env (unat np))\<rparr> in
      case pages gm1 of
        None \<Rightarrow> Inr (- ENOMEM, gm1)
      | Some ps \<Rightarrow>
        andThen (fill_pages (v2page env) gb_uva (unat np) ps) (\<lambda>ps'.
        let nu = ucast (ucast np div KGPU_BUF_NR_FRAMES_PER_UNIT) :: u32;
            gm2 = gm1\<lparr>pages := Some ps', nunits := nu,
                      bitmap := or_kmalloc (bitmap gm) (km_bitmap env (64 * bits_to_longs (unat nu)))\<rparr> in
        case bitmap gm2 of
          None \<Rightarrow> Inr (- ENOMEM, gm2)
        | Some bits \<Rightarrow>
          if length bits < unat nu then Inl OutOfBounds else
          let gm3 = gm2\<lparr>bitmap := Some (bm_zero bm bits (unat nu)),
                        alloc_sz := or_kmalloc (alloc_sz gm) (km_alloc_sz env (unat nu))\<rparr> in
          case alloc_sz gm3 of
            None \<Rightarrow> Inr (- ENOMEM, gm3)
          | Some sz \<Rightarrow>
            if 4 * length sz < unat nu then Inl OutOfBounds else
            let gm4 = gm3\<lparr>alloc_sz := Some (memset_u32 (unat nu) sz),
                          kva := vmap env ps' (unat np)\<rparr> in
            Inr (if kva gm4 = 0 then - EFAULT else 0, gm4)))"

text \<open>
  \<open>clear_gpu_mempool\<close> releases the three arrays and the kernel mapping without resetting the
  pointers; the model returns the set of released objects beside the unchanged pool.
\<close>

datatype pool_object = PagesArray | BitmapArray | AllocSzArray | KernelMapping

definition clear_gpu_mempool :: "kgpu_mempool \<Rightarrow> pool_object list \<times> kgpu_mempool" where
  "clear_gpu_mempool gm =
     ((if pages gm \<noteq> None then [PagesArray] else []) @
      (if bitmap gm \<noteq> None then [BitmapArray] else []) @
      (if alloc_sz gm \<noteq> None then [AllocSzArray] else []) @ [KernelMapping], gm)"

section \<open>Invariant and abstraction\<close>

definition pool_blocks :: "kgpu_mempool \<Rightarrow> nat \<rightharpoonup> nat" where
  "pool_blocks gm = (case alloc_sz gm of None \<Rightarrow> Map.empty | Some sz \<Rightarrow> blocks_of (unat (nunits gm)) sz)"

definition pool_inv :: "kgpu_mempool \<Rightarrow> bool" where
  "pool_inv gm \<longleftrightarrow>
     (case (bitmap gm, alloc_sz gm) of
        (Some bits, Some sz) \<Rightarrow> block_inv (unat (nunits gm)) bits sz
      | _ \<Rightarrow> nunits gm = 0)"

definition unit_addr :: "kgpu_mempool \<Rightarrow> nat \<Rightarrow> ulong" where
  "unit_addr gm i = kva gm + of_nat i * KGPU_BUF_UNIT_SIZE"


lemma unit_index_addr:
  assumes "i < 2 ^ 32"
  shows "unat (unit_index gm (unit_addr gm i)) = i"
proof -
  have "unat (of_nat i * 1048576 :: ulong) = i * 1048576"
    using assms by (subst unat_mult_small) (simp_all add: unat_of_nat_small)
  then show ?thesis
    by (simp add: unit_index_def unit_addr_def kgpu_consts unat_div)
qed

lemma pool_inv_cases:
  assumes "pool_inv gm"
  obtains (ready) bits sz where "bitmap gm = Some bits" "alloc_sz gm = Some sz"
      "block_inv (unat (nunits gm)) bits sz"
    | (unset) "nunits gm = 0" "pool_blocks gm = Map.empty"
  using assms
  by (cases "bitmap gm"; cases "alloc_sz gm")
    (auto simp: pool_inv_def pool_blocks_def blocks_of_def fun_eq_iff)

lemma pool_blocks_ready: "alloc_sz gm = Some sz \<Longrightarrow> pool_blocks gm = blocks_of (unat (nunits gm)) sz"
  by (simp add: pool_blocks_def)

lemma blocks_of_u32: "blocks_of n sz i = Some m \<Longrightarrow> m < 2 ^ 32 \<and> sz ! i = of_nat m \<and> i < n"
  using unsigned_less[of "sz ! i"] by (auto simp: blocks_of_def split: if_splits)

lemma pool_inv_bounds:
  assumes "pool_inv gm" "pool_blocks gm i = Some m"
  shows "0 < m \<and> i + m \<le> unat (nunits gm)"
  using assms(1)
proof (cases rule: pool_inv_cases)
  case (ready bits sz)
  then show ?thesis using assms(2) blocks_of_pos by (auto simp: block_inv_def pool_blocks_ready)
qed (use assms(2) in simp)

lemma pool_inv_disjoint: "pool_inv gm \<Longrightarrow> disjoint_blocks (pool_blocks gm)"
  by (erule pool_inv_cases) (auto simp: block_inv_def pool_blocks_ready disjoint_blocks_def)

context bitmap_lib
begin

lemma vmalloc_law:
  assumes inv: "pool_inv gm" and u: "0 < unat (req_units n)"
  shows "\<exists>a gm'. kgpu_vmalloc bm n gm = Inr (a, gm') \<and> pool_inv gm' \<and>
    unat (nunits gm') = unat (nunits gm) \<and> kva gm' = kva gm \<and>
    (if has_room (unat (nunits gm)) (pool_blocks gm) (unat (req_units n))
     then \<exists>i. a = unit_addr gm i \<and>
       spec_alloc (unat (nunits gm)) (pool_blocks gm) i (unat (req_units n)) (pool_blocks gm')
     else a = 0 \<and> gm' = gm)"
  using inv
proof (cases rule: pool_inv_cases)
  case (ready bits sz)
  let ?n = "unat (nunits gm)" and ?m = "unat (req_units n)"
  let ?i = "bm_find bm bits ?n 0 ?m 0"
  have room: "?i < ?n \<longleftrightarrow> has_room ?n (pool_blocks gm) ?m"
    using find_fits_iff[OF ready(3) u] ready(2) by (simp add: pool_blocks_ready)
  show ?thesis
  proof (cases "?i < ?n")
    case True
    have m: "?m < 2 ^ 32" using unsigned_less[of "req_units n"] by simp
    note ab = alloc_block[OF ready(3) u m refl True]
    have len: "?i < length sz" using True ready(3) by (simp add: block_inv_def)
    let ?gm = "gm\<lparr>bitmap := Some (bm_set bm bits ?i ?m), alloc_sz := Some (sz[?i := req_units n])\<rparr>"
    have run: "kgpu_vmalloc bm n gm = Inr (unit_addr gm ?i, ?gm)"
      using ready True len
      by (simp add: kgpu_vmalloc_def Let_def bits_at_def array_at_def write_arr_def unit_addr_def)
    have "pool_inv ?gm"
      using ab(1) by (simp add: pool_inv_def)
    moreover have "spec_alloc ?n (pool_blocks gm) ?i ?m (pool_blocks ?gm)"
      using ab(2) ready(2) by (simp add: pool_blocks_def)
    ultimately show ?thesis using run room True by auto
  next
    case False
    then have "kgpu_vmalloc bm n gm = Inr (0, gm)"
      using ready by (simp add: kgpu_vmalloc_def Let_def bits_at_def)
    then show ?thesis using inv room False by simp
  qed
next
  case unset
  then have "kgpu_vmalloc bm n gm = Inr (0, gm)"
    by (auto simp: kgpu_vmalloc_def Let_def bits_at_def split: option.splits)
  then show ?thesis using inv u unset by (simp add: has_room_def)
qed

lemma vfree_law:
  assumes inv: "pool_inv gm"
  shows "\<exists>gm'. kgpu_vfree bm a gm = Inr gm' \<and> pool_inv gm' \<and> unat (nunits gm') = unat (nunits gm) \<and>
    kva gm' = kva gm \<and> pool_blocks gm' = (pool_blocks gm)(unat (unit_index gm a) := None) \<and>
    (pool_blocks gm (unat (unit_index gm a)) = None \<longrightarrow> gm' = gm)"
  using inv
proof (cases rule: pool_inv_cases)
  case (ready bits sz)
  let ?n = "unat (nunits gm)" and ?i = "unat (unit_index gm a)"
  have cmp: "ucast (nunits gm) \<le> unit_index gm a \<longleftrightarrow> ?n \<le> ?i"
    by (simp add: word_le_nat_alt)
  show ?thesis
  proof (cases "pool_blocks gm ?i")
    case None
    then have "?n \<le> ?i \<or> sz ! ?i = 0" and "?i < ?n \<longrightarrow> ?i < length sz"
      using ready by (auto simp: pool_blocks_ready blocks_of_def block_inv_def split: if_splits)
    then have "kgpu_vfree bm a gm = Inr gm"
      using ready cmp by (auto simp: kgpu_vfree_def Let_def array_at_def read_arr_def)
    then show ?thesis using inv None by (auto simp: fun_upd_idem)
  next
    case (Some m)
    have b: "blocks_of ?n sz ?i = Some m" using Some ready(2) by (simp add: pool_blocks_ready)
    have i: "?i < ?n" "?i + m \<le> ?n" "?i < length sz" "0 < m" "m < 2 ^ 32" "sz ! ?i = of_nat m"
      using b ready(3) blocks_of_pos[OF b] blocks_of_u32[OF b] by (auto simp: block_inv_def)
    have um: "unat (of_nat m :: u32) = m" "(of_nat m :: u32) \<noteq> 0"
      using i(4,5) by (auto simp: unat_of_nat_small word_unat_eq_iff)
    have fit: "\<not> ucast (of_nat m :: u32) > ucast (nunits gm) - unit_index gm a"
      using i um by (simp add: word_less_nat_alt unat_sub word_le_nat_alt)
    let ?gm = "gm\<lparr>bitmap := Some (bm_clear bm bits ?i m), alloc_sz := Some (sz[?i := 0])\<rparr>"
    have "kgpu_vfree bm a gm = Inr ?gm"
      using ready cmp i um fit by (simp add: kgpu_vfree_def Let_def array_at_def read_arr_def)
    moreover have "pool_inv ?gm" using free_block(1)[OF ready(3) b] by (simp add: pool_inv_def)
    moreover have "pool_blocks ?gm = (pool_blocks gm)(?i := None)"
      using free_block(2)[OF ready(3) b] ready(2) by (simp add: pool_blocks_def)
    ultimately show ?thesis using Some by auto
  qed
next
  case unset
  then have "kgpu_vfree bm a gm = Inr gm" by (simp add: kgpu_vfree_def Let_def)
  then show ?thesis using inv unset by auto
qed

end

sublocale bitmap_lib \<subseteq> gmpool: block_allocator pool_inv pool_blocks "\<lambda>gm. unat (nunits gm)"
  "\<lambda>n. unat (req_units n)" unit_addr "\<lambda>gm a. unat (unit_index gm a)" "kgpu_vmalloc bm" "kgpu_vfree bm"
proof unfold_locales
  fix p n
  assume "pool_inv p" "0 < unat (req_units n)"
  from vmalloc_law[OF this]
  obtain a gm' where "kgpu_vmalloc bm n p = Inr (a, gm')" "pool_inv gm'"
    "unat (nunits gm') = unat (nunits p)" "kva gm' = kva p"
    "if has_room (unat (nunits p)) (pool_blocks p) (unat (req_units n))
     then \<exists>i. a = unit_addr p i \<and>
       spec_alloc (unat (nunits p)) (pool_blocks p) i (unat (req_units n)) (pool_blocks gm')
     else a = 0 \<and> gm' = p" by blast
  then show "\<exists>a p'. kgpu_vmalloc bm n p = Inr (a, p') \<and> pool_inv p' \<and> unat (nunits p') = unat (nunits p) \<and>
      (\<lambda>a. unat (unit_index p' a)) = (\<lambda>a. unat (unit_index p a)) \<and>
      (if has_room (unat (nunits p)) (pool_blocks p) (unat (req_units n))
       then \<exists>i. a = unit_addr p i \<and>
         spec_alloc (unat (nunits p)) (pool_blocks p) i (unat (req_units n)) (pool_blocks p')
       else a = 0 \<and> p' = p)"
    by (intro exI[of _ a] exI[of _ gm']) (simp add: unit_index_def)
next
  fix p a
  assume "pool_inv p"
  from vfree_law[OF this, of a]
  show "\<exists>p'. kgpu_vfree bm a p = Inr p' \<and> pool_inv p' \<and> unat (nunits p') = unat (nunits p) \<and>
      (\<lambda>a. unat (unit_index p' a)) = (\<lambda>a. unat (unit_index p a)) \<and>
      pool_blocks p' = (pool_blocks p)(unat (unit_index p a) := None)"
    by (auto simp: unit_index_def)
next
  show "unat (nunits p) < 2 ^ 32" for p
    using unsigned_less[of "nunits p"] by simp
qed (auto simp: pool_inv_disjoint unit_index_addr dest: pool_inv_bounds)


lemma memset_u32_zero:
  assumes "set xs \<subseteq> {0}"
  shows "memset_u32 n xs = xs"
proof (rule nth_equalityI)
  fix i assume "i < length (memset_u32 n xs)"
  then have "i < length xs" by (simp add: memset_u32_def)
  moreover from this have "xs ! i = 0" using assms nth_mem by fastforce
  ultimately show "memset_u32 n xs ! i = xs ! i"
    by (simp add: memset_u32_def zero_low_bytes_def)
qed (simp add: memset_u32_def)

lemma block_inv_empty:
  assumes "n \<le> length bits" "n \<le> length sz" "set sz \<subseteq> {0}" "\<forall>j < n. \<not> bits ! j"
  shows "block_inv n bits sz" and "blocks_of n sz = Map.empty"
proof -
  have "i < n \<Longrightarrow> sz ! i = 0" for i using assms(2,3) nth_mem[of i sz] by fastforce
  then show B: "blocks_of n sz = Map.empty" by (auto simp: blocks_of_def fun_eq_iff)
  show "block_inv n bits sz"
    using assms(1,2,4) by (simp add: block_inv_def B disjoint_blocks_def covered_def)
qed

lemma pool_unit_count:
  assumes "unat sz < 2 ^ 44"
  shows "unat (ucast (ucast (ucast (sz div PAGE_SIZE) :: u32) div KGPU_BUF_NR_FRAMES_PER_UNIT :: ulong) :: u32)
    = unat sz div 2 ^ 20"
proof -
  have "unat sz div 4096 < 2 ^ 32" using assms by (simp add: div_less_iff_less_mult)
  then have a: "unat (ucast (sz div PAGE_SIZE) :: u32) = unat sz div 4096"
    by (simp add: kgpu_consts unat_div)
  have "unat sz div 4096 div 256 = unat sz div 2 ^ 20" by (simp add: div_mult2_eq[symmetric])
  moreover have "unat sz div 2 ^ 20 < 2 ^ 32" using assms by (simp add: div_less_iff_less_mult)
  ultimately show ?thesis using a by (simp add: kgpu_consts unat_div)
qed

context bitmap_lib
begin

lemma set_gpu_mempool_ready:
  assumes sz: "unat gb_size < 2 ^ 44" and fresh: "pages gm = None" "bitmap gm = None" "alloc_sz gm = None"
    and np: "np = unat gb_size div 4096" and nu: "nu = unat gb_size div 2 ^ 20"
    and km: "km_pages env np = Some ps" "length ps = np"
      "km_bitmap env (64 * bits_to_longs nu) = Some bits" "length bits = 64 * bits_to_longs nu"
      "km_alloc_sz env nu = Some sizes" "length sizes = nu" "set sizes \<subseteq> {0}"
    and vm: "\<And>qs n. vmap env qs n \<noteq> 0"
  shows "\<exists>gm'. set_gpu_mempool bm env gb_uva gb_size gm = Inr (0, gm') \<and> pool_inv gm' \<and>
    pool_blocks gm' = Map.empty \<and> unat (nunits gm') = nu \<and> unat (npages gm') = np \<and> uva gm' = gb_uva \<and>
    pages gm' = Some (map (\<lambda>i. v2page env (gb_uva + of_nat i * PAGE_SIZE)) [0 ..< np])"
proof -
  let ?np = "ucast (gb_size div PAGE_SIZE) :: u32"
  let ?nu = "ucast (ucast ?np div KGPU_BUF_NR_FRAMES_PER_UNIT :: ulong) :: u32"
  have unp: "unat ?np = np"
    using sz np by (simp add: kgpu_consts unat_div div_less_iff_less_mult)
  have unu: "unat ?nu = nu" using pool_unit_count[OF sz] nu by simp
  let ?ps = "map (\<lambda>i. v2page env (gb_uva + of_nat i * PAGE_SIZE)) [0 ..< np]"
  let ?gm = "gm\<lparr>uva := gb_uva, npages := ?np, pages := Some ?ps, nunits := ?nu,
    bitmap := Some (bm_zero bm bits nu), alloc_sz := Some sizes, kva := vmap env ?ps np\<rparr>"
  have len: "nu \<le> length bits" using km(4) by (simp add: bits_to_longs_def)
  have run: "set_gpu_mempool bm env gb_uva gb_size gm = Inr (0, ?gm)"
    using fresh km vm len unp unu memset_u32_zero[OF km(7)]
    by (simp add: set_gpu_mempool_def Let_def or_kmalloc_def fill_pages_def)
  have "block_inv nu (bm_zero bm bits nu) sizes" "blocks_of nu sizes = Map.empty"
    by (rule block_inv_empty[where bits = "bm_zero bm bits nu"];
        use km len zero_length zero_nth in auto)+
  then have "pool_inv ?gm \<and> pool_blocks ?gm = Map.empty"
    using unu by (simp add: pool_inv_def pool_blocks_def)
  then show ?thesis using run unp unu by auto
qed

lemmas vmalloc_roundtrip = gmpool.alloc_then_release

lemmas vmalloc_calls = gmpool.run_calls_safe

lemmas vmalloc_keeps = gmpool.alloc_no_overlap

end

section \<open>Sample pools\<close>

text \<open>A pool as the helper sets it up (2 MB: two units) and kernel allocators that succeed.\<close>

definition two_unit_pool :: kgpu_mempool where
  "two_unit_pool = \<lparr>uva = 0x100000, kva = 0xffff0000, pages = Some (replicate 512 None), npages = 512,
     nunits = 2, bitmap = Some (replicate 64 False), alloc_sz = Some [0, 0]\<rparr>"

definition sample_env :: "u32 list \<Rightarrow> pool_env" where
  "sample_env garbage = \<lparr>km_pages = (\<lambda>n. Some (replicate n None)),
     km_bitmap = (\<lambda>n. Some (replicate n True)), km_alloc_sz = (\<lambda>n. Some (take n garbage)),
     v2page = (\<lambda>v. Some v), vmap = (\<lambda>ps n. 0xffff0000)\<rparr>"

lemma two_unit_pool_inv: "pool_inv two_unit_pool"
  by (auto simp: pool_inv_def two_unit_pool_def block_inv_def blocks_of_def disjoint_blocks_def
      covered_def nth_Cons' split: if_splits)

section \<open>Properties\<close>

lemma unat_req_units:
  assumes "unat n \<le> (2 ^ 32 - 1) * 2 ^ 20"
  shows "unat (req_units n) = (unat n + (2 ^ 20 - 1)) div 2 ^ 20"
proof -
  have "unat n + unat KGPU_BUF_UNIT_SIZE < 2 ^ 64" using assms by (simp add: kgpu_consts)
  then have d: "unat (div_round_up n KGPU_BUF_UNIT_SIZE) = (unat n + (2 ^ 20 - 1)) div 2 ^ 20"
    by (subst unat_div_round_up) (auto simp: kgpu_consts)
  have "(unat n + (2 ^ 20 - 1)) div 2 ^ 20 < (2 :: nat) ^ 32"
    using assms by (simp add: div_less_iff_less_mult)
  then show ?thesis by (simp add: req_units_def d)
qed

text \<open>
  C8: On every pool that satisfies the representation invariant, \<open>kgpu_vmalloc\<close> of a size that needs
  at least one unit never faults and implements the abstract allocator: if a free run of enough units
  exists it adds exactly one block of that length on units no other block covers and returns the
  block's kernel address, otherwise it returns \<open>NULL\<close> and leaves the pool alone; the invariant is kept.
\<close>

theorem vmalloc_refines:
  assumes "bitmap_lib bm" and "pool_inv gm" and "req_units nbytes \<noteq> 0"
  shows "\<exists>p gm'. kgpu_vmalloc bm nbytes gm = Inr (p, gm') \<and> pool_inv gm' \<and>
    (if has_room (unat (nunits gm)) (pool_blocks gm) (unat (req_units nbytes))
     then \<exists>i. p = unit_addr gm i \<and> spec_alloc (unat (nunits gm)) (pool_blocks gm) i
       (unat (req_units nbytes)) (pool_blocks gm')
     else p = 0 \<and> gm' = gm)"
proof -
  have "0 < unat (req_units nbytes)" using assms(3) by (simp add: unat_gt_0)
  from bitmap_lib.vmalloc_law[OF assms(1,2) this] show ?thesis by blast
qed

theorem vmalloc_refines_witness:
  "\<exists>p gm'. kgpu_vmalloc ref_bitmap 2048 two_unit_pool = Inr (p, gm') \<and> pool_inv gm' \<and>
    (if has_room (unat (nunits two_unit_pool)) (pool_blocks two_unit_pool) (unat (req_units 2048))
     then \<exists>i. p = unit_addr two_unit_pool i \<and> spec_alloc (unat (nunits two_unit_pool))
       (pool_blocks two_unit_pool) i (unat (req_units 2048)) (pool_blocks gm')
     else p = 0 \<and> gm' = two_unit_pool)"
proof -
  have "req_units 2048 \<noteq> 0" by code_simp
  from vmalloc_refines[OF ref_bm.bitmap_lib_axioms two_unit_pool_inv this] show ?thesis .
qed

text \<open>
  \<open>kgpu_vfree\<close> of any pointer, valid or not, never faults on a pool that satisfies the invariant:
  it removes the block that starts at the unit the pointer lies in, keeps every other block and the
  invariant, and changes nothing when no block starts there (a foreign pointer, an interior pointer or
  a second free).
\<close>

theorem vfree_removes_block:
  assumes "bitmap_lib bm" and "pool_inv gm"
  shows "\<exists>gm'. kgpu_vfree bm p gm = Inr gm' \<and> pool_inv gm' \<and>
    pool_blocks gm' = (pool_blocks gm)(unat (unit_index gm p) := None) \<and>
    (pool_blocks gm (unat (unit_index gm p)) = None \<longrightarrow> gm' = gm)"
  using bitmap_lib.vfree_law[OF assms, of p] by (elim exE conjE) (intro exI conjI)

theorem vfree_removes_block_witness:
  "\<exists>gm'. kgpu_vfree ref_bitmap 5 two_unit_pool = Inr gm' \<and> pool_inv gm' \<and>
    pool_blocks gm' = (pool_blocks two_unit_pool)(unat (unit_index two_unit_pool 5) := None) \<and>
    (pool_blocks two_unit_pool (unat (unit_index two_unit_pool 5)) = None \<longrightarrow> gm' = two_unit_pool)"
  using vfree_removes_block[OF ref_bm.bitmap_lib_axioms two_unit_pool_inv] .

text \<open>
  C20: Allocating and freeing is a round trip: when \<open>kgpu_vmalloc\<close> took a block, \<open>kgpu_vfree\<close> of the
  pointer it returned brings the pool's set of blocks back to what it was.
\<close>

theorem vmalloc_vfree_roundtrip:
  assumes "bitmap_lib bm" and "pool_inv gm" and "0 < unat (req_units nbytes)"
    and "kgpu_vmalloc bm nbytes gm = Inr (p, gm')" and "pool_blocks gm' \<noteq> pool_blocks gm"
  shows "\<exists>gm''. kgpu_vfree bm p gm' = Inr gm'' \<and> pool_inv gm'' \<and> pool_blocks gm'' = pool_blocks gm"
  using bitmap_lib.vmalloc_roundtrip[OF assms] .

theorem vmalloc_vfree_roundtrip_witness:
  "\<exists>p gm' gm''. kgpu_vmalloc ref_bitmap 2048 two_unit_pool = Inr (p, gm') \<and>
    kgpu_vfree ref_bitmap p gm' = Inr gm'' \<and> pool_inv gm'' \<and>
    pool_blocks gm'' = pool_blocks two_unit_pool"
proof -
  let ?gm = "two_unit_pool\<lparr>bitmap := Some (True # replicate 63 False), alloc_sz := Some [1, 0]\<rparr>"
  have run: "kgpu_vmalloc ref_bitmap 2048 two_unit_pool = Inr (0xffff0000, ?gm)" by code_simp
  have pos: "0 < unat (req_units 2048)" by code_simp
  have "pool_blocks ?gm 0 \<noteq> pool_blocks two_unit_pool 0"
    by (simp add: pool_blocks_def two_unit_pool_def blocks_of_def)
  then have "pool_blocks ?gm \<noteq> pool_blocks two_unit_pool" by metis
  from vmalloc_vfree_roundtrip[OF ref_bm.bitmap_lib_axioms two_unit_pool_inv pos run this]
  show ?thesis using run by blast
qed



text \<open>
  A request of up to 2^32-1 units is rounded up to whole units of 1 MiB: the block covers the
  requested bytes and wastes less than one unit.
\<close>

theorem req_units_rounds_up:
  assumes "unat nbytes \<le> (2 ^ 32 - 1) * 2 ^ 20"
  shows "unat nbytes \<le> unat (req_units nbytes) * 2 ^ 20 \<and>
    unat (req_units nbytes) * 2 ^ 20 < unat nbytes + 2 ^ 20"
  unfolding unat_req_units[OF assms] by simp linarith

theorem req_units_rounds_up_witness:
  "unat (2048 :: ulong) \<le> unat (req_units 2048) * 2 ^ 20 \<and>
    unat (req_units 2048) * 2 ^ 20 < unat (2048 :: ulong) + 2 ^ 20"
  by (rule req_units_rounds_up) simp





text \<open>
  When \<open>kmalloc\<close> of the bitmap fails, \<open>set_gpu_mempool\<close> reports \<open>-ENOMEM\<close> but leaves the new
  number of units in the pool; the next \<open>kgpu_vmalloc\<close> then reads the bitmap through a null pointer.
\<close>

theorem failed_setup_then_vmalloc_faults:
  assumes "unat gb_size < 2 ^ 44" and "2 ^ 20 \<le> unat gb_size"
    and "km_pages env (unat gb_size div 4096) = Some ps" and "length ps = unat gb_size div 4096"
    and "\<And>n. km_bitmap env n = None"
  shows "\<exists>gm. set_gpu_mempool bm env gb_uva gb_size empty_mempool = Inr (- ENOMEM, gm) \<and>
    kgpu_vmalloc bm nbytes gm = Inl NullDeref"
proof -
  let ?nu = "ucast (ucast (ucast (gb_size div PAGE_SIZE) :: u32) div KGPU_BUF_NR_FRAMES_PER_UNIT :: ulong) :: u32"
  have np: "unat (ucast (gb_size div PAGE_SIZE) :: u32) = unat gb_size div 4096"
    using assms(1) by (simp add: kgpu_consts unat_div div_less_iff_less_mult)
  have "unat ?nu = unat gb_size div 2 ^ 20" by (rule pool_unit_count[OF assms(1)])
  then have "0 < unat ?nu" using assms(2) by (simp add: div_greater_zero_iff)
  then have nu: "?nu \<noteq> 0" by (metis less_irrefl unat_0)
  show ?thesis
    using assms(3-5) np nu
    by (simp add: set_gpu_mempool_def Let_def or_kmalloc_def fill_pages_def empty_mempool_def
        kgpu_vmalloc_def bits_at_def)
qed

theorem failed_setup_then_vmalloc_faults_witness:
  "\<exists>gm. set_gpu_mempool ref_bitmap ((sample_env [])\<lparr>km_bitmap := \<lambda>n. None\<rparr>) 0x7000000 KGPU_BUF_SIZE
      empty_mempool = Inr (- ENOMEM, gm) \<and> kgpu_vmalloc ref_bitmap 1024 gm = Inl NullDeref"
  by (rule failed_setup_then_vmalloc_faults[where ps = "replicate 512 None"])
    (simp_all add: kgpu_consts sample_env_def)

text \<open>
  The unit count of \<open>kgpu_vmalloc\<close> is computed modulo the machine word: a request of \<open>2^64 - 1\<close>
  bytes (the addition in \<open>DIV_ROUND_UP\<close> wraps) and one of \<open>2^52\<close> bytes (the count is truncated to
  32 bits) need 0 units, so the call returns a non-null pointer although no block was reserved.
\<close>

theorem vmalloc_size_wraps:
  "req_units (2 ^ 64 - 1) = 0 \<and> req_units (2 ^ 52) = 0 \<and>
   kgpu_vmalloc ref_bitmap (2 ^ 64 - 1) two_unit_pool = Inr (kva two_unit_pool, two_unit_pool) \<and>
   kgpu_vmalloc ref_bitmap (2 ^ 52) two_unit_pool = Inr (kva two_unit_pool, two_unit_pool)"
  by code_simp

end
