(* ===== verification/Vma.thy ===== *)
theory Vma
  imports Mempool
begin

text \<open>
  The window that the helper maps with \<open>mmap\<close> and into which kernel clients map their own pages
  (\<^verbatim>\<open>kgpu/src/kernelSpace/main.c\<close>): \<open>struct _kgpu_vma\<close>, \<open>kgpu_alloc_mmap_area\<close>,
  \<open>kgpu_free_mmap_area\<close>, \<open>kgpu_unmap_area\<close>, \<open>kgpu_map_page\<close>, \<open>map_page_units\<close>, \<open>set_vm\<close>,
  \<open>clean_vm\<close>, \<open>kgpu_mmap\<close> and \<open>kgpu_vm_fault\<close>. The page table entries of the window are a map from
  page addresses to pages; \<open>vm_insert_page\<close> and \<open>zap_vma_ptes\<close> are parameters.
\<close>

section \<open>State and operations\<close>

type_synonym ptes = "ulong \<rightharpoonup> page"

text \<open>The fields of \<open>struct vm_area_struct\<close> the module uses; flags as the set of those set.\<close>

datatype vm_flag = VM_PFNMAP | VM_IO | VM_LOCKED | VM_DONTEXPAND | VM_DONTDUMP

datatype vm_ops = DefaultOps | KgpuVmOps

record vm_area =
  vm_start :: ulong
  vm_end :: ulong
  vm_flags :: "vm_flag set"
  vm_ops :: vm_ops
  vm_ptes :: ptes

record kgpu_vma =
  vma :: "vm_area option"
  vstart :: ulong
  vend :: ulong
  vnpages :: u32
  valloc_sz :: "u32 list option"
  vbitmap :: "bool list option"

definition empty_vma :: kgpu_vma where
  "empty_vma = \<lparr>vma = None, vstart = 0, vend = 0, vnpages = 0, valloc_sz = None, vbitmap = None\<rparr>"

text \<open>
  The memory management calls of the kernel: \<open>vm_insert_page\<close> and \<open>zap_vma_ptes\<close> return a code and
  the new page table entries; \<open>pfn_to_page\<close> finds the page of a frame number.
\<close>

record mm_ops =
  mm_insert :: "ptes \<Rightarrow> ulong \<Rightarrow> page \<Rightarrow> int \<times> ptes"
  mm_zap :: "ptes \<Rightarrow> ulong \<Rightarrow> ulong \<Rightarrow> int \<times> ptes"
  mm_pfn_to_page :: "ulong \<Rightarrow> page"

definition area_pages :: "ulong \<Rightarrow> u32" where
  "area_pages sz = ucast (div_round_up sz PAGE_SIZE)"

definition kgpu_alloc_mmap_area :: "bitmap_ops \<Rightarrow> ulong \<Rightarrow> kgpu_vma \<Rightarrow> fault + (ulong \<times> kgpu_vma)" where
  "kgpu_alloc_mmap_area bm sz vm =
     (let n = area_pages sz in
      andThen (bits_at (vbitmap vm) (vnpages vm)) (\<lambda>bits.
      let idx = bm_find bm bits (unat (vnpages vm)) 0 (unat n) 0 in
      if idx < unat (vnpages vm) then
        andThen (array_at (valloc_sz vm)) (\<lambda>a.
        andThen (write_arr a idx n) (\<lambda>a'.
        Inr (vstart vm + PAGE_SIZE * of_nat idx,
             vm\<lparr>vbitmap := Some (bm_set bm bits idx (unat n)), valloc_sz := Some a'\<rparr>)))
      else Inr (0, vm)))"

definition page_index :: "kgpu_vma \<Rightarrow> ulong \<Rightarrow> ulong" where
  "page_index vm a = drop_bit PAGE_SHIFT (a - vstart vm)"

definition kgpu_free_mmap_area :: "bitmap_ops \<Rightarrow> ulong \<Rightarrow> kgpu_vma \<Rightarrow> fault + kgpu_vma" where
  "kgpu_free_mmap_area bm start vm =
     (let idx = page_index vm start in
      if ucast (vnpages vm) \<le> idx then Inr vm
      else
        andThen (array_at (valloc_sz vm)) (\<lambda>a.
        andThen (read_arr a (unat idx)) (\<lambda>n.
        if ucast n > ucast (vnpages vm) - idx then Inr vm
        else if n > 0 then
          andThen (array_at (vbitmap vm)) (\<lambda>bits.
          Inr (vm\<lparr>vbitmap := Some (bm_clear bm bits (unat idx) (unat n)),
                  valloc_sz := Some (a[unat idx := 0])\<rparr>))
        else Inr vm)))"

text \<open>The value \<open>n << PAGE_SHIFT\<close> of an \<open>unsigned int\<close>, widened to \<open>unsigned long\<close>.\<close>

definition pages_to_bytes :: "u32 \<Rightarrow> ulong" where
  "pages_to_bytes n = ucast (push_bit PAGE_SHIFT n)"

definition kgpu_unmap_area :: "bitmap_ops \<Rightarrow> mm_ops \<Rightarrow> ulong \<Rightarrow> kgpu_vma \<Rightarrow> fault + kgpu_vma" where
  "kgpu_unmap_area bm mm addr vm =
     (let idx = page_index vm addr in
      if ucast (vnpages vm) \<le> idx then Inr vm
      else
        andThen (array_at (valloc_sz vm)) (\<lambda>a.
        andThen (read_arr a (unat idx)) (\<lambda>n.
        if ucast n > ucast (vnpages vm) - idx then Inr vm
        else if n > 0 then
          andThen (array_at (vbitmap vm)) (\<lambda>bits.
          case vma vm of
            None \<Rightarrow> Inl NullDeref
          | Some v \<Rightarrow>
              let (ret, pt) = mm_zap mm (vm_ptes v) addr (pages_to_bytes n) in
              Inr (vm\<lparr>vbitmap := Some (bm_clear bm bits (unat idx) (unat n)),
                      valloc_sz := Some (a[unat idx := 0]),
                      vma := Some (v\<lparr>vm_flags := insert VM_PFNMAP (vm_flags v) - {VM_PFNMAP},
                                     vm_ptes := pt\<rparr>)\<rparr>))
        else Inr vm)))"

definition kgpu_map_page :: "mm_ops \<Rightarrow> page \<Rightarrow> ulong \<Rightarrow> kgpu_vma \<Rightarrow> fault + (int \<times> kgpu_vma)" where
  "kgpu_map_page mm p addr vm =
     (case vma vm of
        None \<Rightarrow> Inl NullDeref
      | Some v \<Rightarrow>
          let (ret, pt) = mm_insert mm (vm_ptes v) addr p in
          Inr (ret, vm\<lparr>vma := Some (v\<lparr>vm_ptes := pt\<rparr>)\<rparr>))"

text \<open>
  The loop of \<open>map_page_units\<close>: it inserts the pages one after the other and stops at the first
  failure. The array holds pages or frame numbers, as \<open>is_page\<close> says.
\<close>

definition unit_page :: "mm_ops \<Rightarrow> bool \<Rightarrow> ulong \<Rightarrow> page" where
  "unit_page mm is_page u = (if is_page then u else mm_pfn_to_page mm u)"

fun insert_pages :: "mm_ops \<Rightarrow> bool \<Rightarrow> ulong list \<Rightarrow> ulong \<Rightarrow> nat \<Rightarrow> nat \<Rightarrow> ptes \<Rightarrow>
  fault + (bool \<times> ptes)" where
  "insert_pages mm is_page us addr i 0 pt = Inr (True, pt)"
| "insert_pages mm is_page us addr i (Suc k) pt =
     andThen (read_arr us i) (\<lambda>u.
     let (ret, pt') = mm_insert mm pt (addr + of_nat i * PAGE_SIZE) (unit_page mm is_page u) in
     if ret < 0 then Inr (False, pt') else insert_pages mm is_page us addr (Suc i) k pt')"

definition map_page_units :: "bitmap_ops \<Rightarrow> mm_ops \<Rightarrow> ulong list \<Rightarrow> int \<Rightarrow> bool \<Rightarrow> kgpu_vma \<Rightarrow>
  fault + (ulong \<times> kgpu_vma)" where
  "map_page_units bm mm us n is_page vm =
     andThen (kgpu_alloc_mmap_area bm (scast (push_bit PAGE_SHIFT (word_of_int n :: u32))) vm)
       (\<lambda>(addr, vm1).
        if addr = 0 then Inr (0, vm1)
        else case vma vm1 of
          None \<Rightarrow> Inl NullDeref
        | Some v \<Rightarrow>
            andThen (insert_pages mm is_page us addr 0 (nat n) (vm_ptes v)) (\<lambda>(ok, pt).
            Inr (if ok then addr else 0, vm1\<lparr>vma := Some (v\<lparr>vm_ptes := pt\<rparr>)\<rparr>)))"

definition kgpu_map_pages :: "bitmap_ops \<Rightarrow> mm_ops \<Rightarrow> page list \<Rightarrow> int \<Rightarrow> kgpu_vma \<Rightarrow>
  fault + (ulong \<times> kgpu_vma)" where
  "kgpu_map_pages bm mm ps n vm = map_page_units bm mm ps n True vm"

definition kgpu_map_pfns :: "bitmap_ops \<Rightarrow> mm_ops \<Rightarrow> ulong list \<Rightarrow> int \<Rightarrow> kgpu_vma \<Rightarrow>
  fault + (ulong \<times> kgpu_vma)" where
  "kgpu_map_pfns bm mm pfns n vm = map_page_units bm mm pfns n False vm"

text \<open>
  \<open>set_vm\<close> with the two arrays \<open>kmalloc\<close> returns. When either is \<open>NULL\<close> both are dropped, and the
  clearing that follows writes through the null pointers.
\<close>

definition set_vm :: "bitmap_ops \<Rightarrow> u32 list option \<Rightarrow> bool list option \<Rightarrow> vm_area \<Rightarrow> kgpu_vma \<Rightarrow>
  fault + kgpu_vma" where
  "set_vm bm km_sz km_bits v vm =
     (let np = ucast (drop_bit PAGE_SHIFT (vm_end v - vm_start v)) :: u32;
          ok = (km_sz \<noteq> None \<and> km_bits \<noteq> None);
          sz = (if ok then km_sz else None);
          bits = (if ok then km_bits else None) in
      andThen (bits_at bits np) (\<lambda>b.
      if length b < unat np then Inl OutOfBounds else
      andThen (if np = 0 then Inr [] else array_at sz) (\<lambda>a.
      if length a < unat np then Inl OutOfBounds else
      Inr (vm\<lparr>vma := Some v, vstart := vm_start v, vend := vm_end v, vnpages := np,
              vbitmap := map_option (\<lambda>_. bm_zero bm b (unat np)) bits,
              valloc_sz := map_option (\<lambda>_. replicate (unat np) 0 @ drop (unat np) a) sz\<rparr>))))"

definition kgpu_mmap :: "bitmap_ops \<Rightarrow> u32 list option \<Rightarrow> bool list option \<Rightarrow> vm_area \<Rightarrow> kgpu_vma \<Rightarrow>
  fault + (int \<times> kgpu_vma)" where
  "kgpu_mmap bm km_sz km_bits v vm =
     (if vm_end v - vm_start v \<noteq> KGPU_MMAP_SIZE then Inr (- EINVAL, vm)
      else
        let v' = v\<lparr>vm_ops := KgpuVmOps,
                   vm_flags := vm_flags v \<union> {VM_IO, VM_LOCKED, VM_DONTEXPAND, VM_DONTDUMP}\<rparr> in
        andThen (set_vm bm km_sz km_bits v' vm) (\<lambda>vm'. Inr (0, vm')))"

datatype vma_object = VmAllocSz | VmBitmap

definition clean_vm :: "kgpu_vma \<Rightarrow> vma_object list \<times> kgpu_vma" where
  "clean_vm vm =
     ((if valloc_sz vm \<noteq> None then [VmAllocSz] else []) @
      (if vbitmap vm \<noteq> None then [VmBitmap] else []), vm)"

datatype vm_fault_code = VM_FAULT_NOPAGE | VM_FAULT_ERROR | VM_FAULT_SIGBUS

definition kgpu_vm_fault :: "vm_fault_code set \<Rightarrow> vm_fault_code \<times> vm_fault_code set" where
  "kgpu_vm_fault flags = (VM_FAULT_SIGBUS, flags \<union> {VM_FAULT_NOPAGE, VM_FAULT_ERROR})"

section \<open>Invariant and abstraction\<close>

definition vm_blocks :: "kgpu_vma \<Rightarrow> nat \<rightharpoonup> nat" where
  "vm_blocks vm = (case valloc_sz vm of None \<Rightarrow> Map.empty | Some sz \<Rightarrow> blocks_of (unat (vnpages vm)) sz)"

definition vm_inv :: "kgpu_vma \<Rightarrow> bool" where
  "vm_inv vm \<longleftrightarrow>
     (case (vbitmap vm, valloc_sz vm) of
        (Some bits, Some sz) \<Rightarrow> block_inv (unat (vnpages vm)) bits sz \<and> vma vm \<noteq> None
      | _ \<Rightarrow> vnpages vm = 0)"

lemma empty_vma_inv [simp]: "vm_inv empty_vma"
  by (simp add: vm_inv_def empty_vma_def)

definition page_addr :: "kgpu_vma \<Rightarrow> nat \<Rightarrow> ulong" where
  "page_addr vm i = vstart vm + PAGE_SIZE * of_nat i"


lemma page_index_addr:
  assumes "i < 2 ^ 32"
  shows "unat (page_index vm (page_addr vm i)) = i"
proof -
  have "unat (4096 * of_nat i :: ulong) = 4096 * i"
    using assms by (subst unat_mult_small) (simp_all add: unat_of_nat_small)
  then show ?thesis
    by (simp add: page_index_def page_addr_def kgpu_consts unat_drop_bit_eq drop_bit_eq_div unat_div)
qed

lemma vm_inv_cases:
  assumes "vm_inv vm"
  obtains (ready) bits sz v where "vbitmap vm = Some bits" "valloc_sz vm = Some sz"
      "block_inv (unat (vnpages vm)) bits sz" "vma vm = Some v"
    | (unset) "vnpages vm = 0" "vm_blocks vm = Map.empty"
  using assms
  by (cases "vbitmap vm"; cases "valloc_sz vm")
    (auto simp: vm_inv_def vm_blocks_def blocks_of_def fun_eq_iff)

lemma vm_blocks_ready: "valloc_sz vm = Some sz \<Longrightarrow> vm_blocks vm = blocks_of (unat (vnpages vm)) sz"
  by (simp add: vm_blocks_def)

lemma vm_blocks_vma [simp]: "vm_blocks (vm\<lparr>vma := x\<rparr>) = vm_blocks vm"
  by (simp add: vm_blocks_def split: option.split)

lemma vm_inv_bounds:
  assumes "vm_inv vm" "vm_blocks vm i = Some m"
  shows "0 < m \<and> i + m \<le> unat (vnpages vm)"
  using assms(1)
proof (cases rule: vm_inv_cases)
  case (ready bits sz v)
  then show ?thesis using assms(2) blocks_of_pos by (auto simp: block_inv_def vm_blocks_ready)
qed (use assms(2) in simp)

lemma vm_inv_disjoint: "vm_inv vm \<Longrightarrow> disjoint_blocks (vm_blocks vm)"
  by (erule vm_inv_cases) (auto simp: block_inv_def vm_blocks_ready disjoint_blocks_def)

lemma vm_block_size:
  assumes "vm_inv vm" and "vm_blocks vm i = Some m"
  obtains bits sz v where "vbitmap vm = Some bits" "valloc_sz vm = Some sz" "vma vm = Some v"
    "blocks_of (unat (vnpages vm)) sz i = Some m" "block_inv (unat (vnpages vm)) bits sz"
    "i < length sz" "sz ! i = of_nat m" "unat (of_nat m :: u32) = m" "0 < (of_nat m :: u32)"
  using assms(1)
proof (cases rule: vm_inv_cases)
  case (ready bits sz v)
  have b: "blocks_of (unat (vnpages vm)) sz i = Some m"
    using assms(2) ready(2) by (simp add: vm_blocks_ready)
  have "unat (of_nat m :: u32) = m" using blocks_of_u32[OF b] by (simp add: unat_of_nat_small)
  moreover have "i < length sz" using blocks_of_pos[OF b] ready(3) by (auto simp: block_inv_def)
  moreover have "0 < (of_nat m :: u32)"
    using calculation(1) blocks_of_pos[OF b] by (simp add: word_less_nat_alt)
  ultimately show ?thesis using that[OF ready(1,2,4) b ready(3)] blocks_of_u32[OF b] by blast
qed (use assms(2) in simp)

lemma page_index_le: "ucast (vnpages vm) \<le> page_index vm a \<longleftrightarrow> unat (vnpages vm) \<le> unat (page_index vm a)"
  by (simp add: word_le_nat_alt)

lemma block_fits:
  fixes idx :: ulong and k :: u32
  assumes "unat idx + m \<le> unat k" and "unat (of_nat m :: u32) = m"
  shows "\<not> ucast k - idx < ucast (of_nat m :: u32)"
  using assms by (simp add: word_less_nat_alt unat_sub word_le_nat_alt)

context bitmap_lib
begin

lemma area_alloc_law:
  assumes inv: "vm_inv vm" and u: "0 < unat (area_pages n)"
  shows "\<exists>a vm'. kgpu_alloc_mmap_area bm n vm = Inr (a, vm') \<and> vm_inv vm' \<and>
    unat (vnpages vm') = unat (vnpages vm) \<and> vstart vm' = vstart vm \<and> vma vm' = vma vm \<and>
    (if has_room (unat (vnpages vm)) (vm_blocks vm) (unat (area_pages n))
     then \<exists>i. a = page_addr vm i \<and>
       spec_alloc (unat (vnpages vm)) (vm_blocks vm) i (unat (area_pages n)) (vm_blocks vm')
     else a = 0 \<and> vm' = vm)"
  using inv
proof (cases rule: vm_inv_cases)
  case (ready bits sz v)
  let ?n = "unat (vnpages vm)" and ?m = "unat (area_pages n)"
  let ?i = "bm_find bm bits ?n 0 ?m 0"
  have room: "?i < ?n \<longleftrightarrow> has_room ?n (vm_blocks vm) ?m"
    using find_fits_iff[OF ready(3) u] ready(2) by (simp add: vm_blocks_ready)
  show ?thesis
  proof (cases "?i < ?n")
    case True
    have m: "?m < 2 ^ 32" by (rule u32_bound)
    note ab = alloc_block[OF ready(3) u m refl True]
    have len: "?i < length sz" using True ready(3) by (simp add: block_inv_def)
    let ?vm = "vm\<lparr>vbitmap := Some (bm_set bm bits ?i ?m), valloc_sz := Some (sz[?i := area_pages n])\<rparr>"
    have run: "kgpu_alloc_mmap_area bm n vm = Inr (page_addr vm ?i, ?vm)"
      using ready True len
      by (simp add: kgpu_alloc_mmap_area_def Let_def bits_at_def array_at_def write_arr_def page_addr_def)
    have "vm_inv ?vm" using ab(1) ready(4) by (simp add: vm_inv_def)
    moreover have "spec_alloc ?n (vm_blocks vm) ?i ?m (vm_blocks ?vm)"
      using ab(2) ready(2) by (simp add: vm_blocks_def)
    ultimately show ?thesis using run room True by auto
  next
    case False
    then have "kgpu_alloc_mmap_area bm n vm = Inr (0, vm)"
      using ready by (simp add: kgpu_alloc_mmap_area_def Let_def bits_at_def)
    then show ?thesis using inv room False by simp
  qed
next
  case unset
  then have "kgpu_alloc_mmap_area bm n vm = Inr (0, vm)"
    by (auto simp: kgpu_alloc_mmap_area_def Let_def bits_at_def split: option.splits)
  then show ?thesis using inv u unset by (simp add: has_room_def)
qed

lemma area_free_law:
  assumes inv: "vm_inv vm"
  shows "\<exists>vm'. kgpu_free_mmap_area bm a vm = Inr vm' \<and> vm_inv vm' \<and>
    unat (vnpages vm') = unat (vnpages vm) \<and> vstart vm' = vstart vm \<and>
    vm_blocks vm' = (vm_blocks vm)(unat (page_index vm a) := None)"
proof (cases "vm_blocks vm (unat (page_index vm a))")
  case None
  have "kgpu_free_mmap_area bm a vm = Inr vm"
    using inv None
    by (cases rule: vm_inv_cases)
      (auto simp: kgpu_free_mmap_area_def Let_def array_at_def read_arr_def vm_blocks_ready
        blocks_of_def block_inv_def page_index_le split: if_splits)
  then show ?thesis using inv None by auto
next
  case (Some m)
  let ?i = "unat (page_index vm a)"
  obtain bits sz v where r: "vbitmap vm = Some bits" "valloc_sz vm = Some sz" "vma vm = Some v"
    "blocks_of (unat (vnpages vm)) sz ?i = Some m" "block_inv (unat (vnpages vm)) bits sz"
    "?i < length sz" "sz ! ?i = of_nat m" "unat (of_nat m :: u32) = m" "0 < (of_nat m :: u32)"
    by (rule vm_block_size[OF inv Some])
  have fit: "?i + m \<le> unat (vnpages vm)" "0 < m" using vm_inv_bounds[OF inv Some] by auto
  let ?vm = "vm\<lparr>vbitmap := Some (bm_clear bm bits ?i m), valloc_sz := Some (sz[?i := 0])\<rparr>"
  have "kgpu_free_mmap_area bm a vm = Inr ?vm"
    using r fit block_fits[OF fit(1) r(8)]
    by (simp add: kgpu_free_mmap_area_def Let_def array_at_def read_arr_def page_index_le)
  moreover have "vm_inv ?vm \<and> vm_blocks ?vm = (vm_blocks vm)(?i := None)"
    using free_block[OF r(5,4)] r(2,3) by (simp add: vm_inv_def vm_blocks_def)
  ultimately show ?thesis by auto
qed

lemma unmap_law:
  assumes inv: "vm_inv vm" and b: "vm_blocks vm (unat (page_index vm a)) = Some m"
    and v: "vma vm = Some v"
  shows "\<exists>vm' v'. kgpu_unmap_area bm mm a vm = Inr vm' \<and> vm_inv vm' \<and> vma vm' = Some v' \<and>
    vm_ptes v' = snd (mm_zap mm (vm_ptes v) a (pages_to_bytes (of_nat m))) \<and>
    vm_flags v' = vm_flags v - {VM_PFNMAP} \<and>
    vm_blocks vm' = (vm_blocks vm)(unat (page_index vm a) := None)"
proof -
  let ?i = "unat (page_index vm a)"
  obtain bits sz where r: "vbitmap vm = Some bits" "valloc_sz vm = Some sz"
    "blocks_of (unat (vnpages vm)) sz ?i = Some m" "block_inv (unat (vnpages vm)) bits sz"
    "?i < length sz" "sz ! ?i = of_nat m" "unat (of_nat m :: u32) = m" "0 < (of_nat m :: u32)"
    by (rule vm_block_size[OF inv b])
  have fit: "?i + m \<le> unat (vnpages vm)" "0 < m" using vm_inv_bounds[OF inv b] by auto
  let ?pt = "snd (mm_zap mm (vm_ptes v) a (pages_to_bytes (of_nat m)))"
  let ?v = "v\<lparr>vm_flags := insert VM_PFNMAP (vm_flags v) - {VM_PFNMAP}, vm_ptes := ?pt\<rparr>"
  let ?vm = "vm\<lparr>vbitmap := Some (bm_clear bm bits ?i m), valloc_sz := Some (sz[?i := 0]), vma := Some ?v\<rparr>"
  have "kgpu_unmap_area bm mm a vm = Inr ?vm"
    using r fit block_fits[OF fit(1) r(7)] v
    by (simp add: kgpu_unmap_area_def Let_def array_at_def read_arr_def page_index_le case_prod_beta)
  moreover have "vm_inv ?vm \<and> vm_blocks ?vm = (vm_blocks vm)(?i := None)"
    using free_block[OF r(4,3)] r(2) by (simp add: vm_inv_def vm_blocks_def)
  ultimately show ?thesis by (intro exI[of _ ?vm] exI[of _ ?v]) auto
qed

lemma unmap_total:
  assumes inv: "vm_inv vm"
  shows "\<exists>vm'. kgpu_unmap_area bm mm a vm = Inr vm' \<and> vm_inv vm' \<and>
    vm_blocks vm' = (vm_blocks vm)(unat (page_index vm a) := None)"
proof (cases "vm_blocks vm (unat (page_index vm a))")
  case None
  have "kgpu_unmap_area bm mm a vm = Inr vm"
    using inv None
    by (cases rule: vm_inv_cases)
      (auto simp: kgpu_unmap_area_def Let_def array_at_def read_arr_def vm_blocks_ready
        blocks_of_def block_inv_def page_index_le split: if_splits)
  then show ?thesis using inv None by auto
next
  case (Some m)
  obtain v where "vma vm = Some v" using vm_block_size[OF inv Some] by metis
  then show ?thesis using unmap_law[OF inv Some, of v mm] by blast
qed

end

sublocale bitmap_lib \<subseteq> mmap_area: block_allocator vm_inv vm_blocks "\<lambda>vm. unat (vnpages vm)"
  "\<lambda>n. unat (area_pages n)" page_addr "\<lambda>vm a. unat (page_index vm a)"
  "kgpu_alloc_mmap_area bm" "kgpu_free_mmap_area bm"
proof unfold_locales
  fix p n
  assume "vm_inv p" "0 < unat (area_pages n)"
  from area_alloc_law[OF this]
  obtain a vm' where "kgpu_alloc_mmap_area bm n p = Inr (a, vm')" "vm_inv vm'"
    "unat (vnpages vm') = unat (vnpages p)" "vstart vm' = vstart p"
    "if has_room (unat (vnpages p)) (vm_blocks p) (unat (area_pages n))
     then \<exists>i. a = page_addr p i \<and>
       spec_alloc (unat (vnpages p)) (vm_blocks p) i (unat (area_pages n)) (vm_blocks vm')
     else a = 0 \<and> vm' = p" by blast
  then show "\<exists>a p'. kgpu_alloc_mmap_area bm n p = Inr (a, p') \<and> vm_inv p' \<and>
      unat (vnpages p') = unat (vnpages p) \<and>
      (\<lambda>a. unat (page_index p' a)) = (\<lambda>a. unat (page_index p a)) \<and>
      (if has_room (unat (vnpages p)) (vm_blocks p) (unat (area_pages n))
       then \<exists>i. a = page_addr p i \<and>
         spec_alloc (unat (vnpages p)) (vm_blocks p) i (unat (area_pages n)) (vm_blocks p')
       else a = 0 \<and> p' = p)"
    by (intro exI[of _ a] exI[of _ vm']) (simp add: page_index_def)
next
  fix p a
  assume "vm_inv p"
  from area_free_law[OF this, of a]
  show "\<exists>p'. kgpu_free_mmap_area bm a p = Inr p' \<and> vm_inv p' \<and> unat (vnpages p') = unat (vnpages p) \<and>
      (\<lambda>a. unat (page_index p' a)) = (\<lambda>a. unat (page_index p a)) \<and>
      vm_blocks p' = (vm_blocks p)(unat (page_index p a) := None)"
    by (auto simp: page_index_def)
next
  show "unat (vnpages p) < 2 ^ 32" for p
    by (rule u32_bound)
qed (auto simp: vm_inv_disjoint page_index_addr dest: vm_inv_bounds)


context bitmap_lib
begin

lemmas mmap_area_calls = mmap_area.run_calls_safe

end

lemma area_pages_of_count:
  assumes "0 \<le> n" "n < 2 ^ 19"
  shows "unat (area_pages (scast (push_bit PAGE_SHIFT (word_of_int n :: u32)))) = nat n"
proof -
  let ?b = "scast (push_bit 12 (word_of_int n :: u32)) :: ulong"
  have n: "nat n < 2 ^ 19" using assms by simp
  have "unat (word_of_int n :: u32) = nat n" using assms by (simp add: unat_word_of_int_small)
  then have "unat (push_bit 12 (word_of_int n :: u32)) = nat n * 4096"
    using n by (simp add: push_bit_eq_mult unat_mult_small)
  then have b: "unat ?b = nat n * 4096" using n by (simp add: scast_small)
  have "unat (div_round_up ?b PAGE_SIZE) = (nat n * 4096 + 4095) div 4096"
    using n b by (subst unat_div_round_up) (simp_all add: kgpu_consts)
  also have "\<dots> = nat n" by simp
  finally show ?thesis using n by (simp add: area_pages_def kgpu_consts)
qed

text \<open>Page addresses of one area are distinct.\<close>

lemma page_addrs_inject:
  assumes "j < 2 ^ 32" "k < 2 ^ 32" "(a :: ulong) + of_nat j * PAGE_SIZE = a + of_nat k * PAGE_SIZE"
  shows "j = k"
proof -
  have u: "unat (of_nat i * PAGE_SIZE) = i * 4096" if "i < 2 ^ 32" for i
    using that by (simp add: kgpu_consts unat_mult_small unat_of_nat_small)
  have "(of_nat j * PAGE_SIZE :: ulong) = of_nat k * PAGE_SIZE" using assms(3) by simp
  then have "j * 4096 = k * 4096" using u[OF assms(1)] u[OF assms(2)] by metis
  then show ?thesis by simp
qed

definition insert_ok :: "mm_ops \<Rightarrow> bool" where
  "insert_ok mm \<longleftrightarrow> (\<forall>pt a p. mm_insert mm pt a p = (0, pt(a \<mapsto> p)))"

lemma insert_pages_all:
  assumes "insert_ok mm" and "i + k \<le> length us" and "i + k < 2 ^ 32"
  shows "\<exists>pt'. insert_pages mm b us addr i k pt = Inr (True, pt') \<and>
    (\<forall>j. i \<le> j \<and> j < i + k \<longrightarrow> pt' (addr + of_nat j * PAGE_SIZE) = Some (unit_page mm b (us ! j))) \<and>
    (\<forall>a. (\<forall>j. i \<le> j \<and> j < i + k \<longrightarrow> a \<noteq> addr + of_nat j * PAGE_SIZE) \<longrightarrow> pt' a = pt a)"
  using assms
proof (induction k arbitrary: i pt)
  case 0
  show ?case by auto
next
  case (Suc k)
  let ?a = "addr + of_nat i * PAGE_SIZE"
  let ?pt = "pt(?a \<mapsto> unit_page mm b (us ! i))"
  obtain pt' where pt': "insert_pages mm b us addr (Suc i) k ?pt = Inr (True, pt')"
    "\<And>j. Suc i \<le> j \<and> j < Suc i + k \<Longrightarrow> pt' (addr + of_nat j * PAGE_SIZE) = Some (unit_page mm b (us ! j))"
    "\<And>a. (\<forall>j. Suc i \<le> j \<and> j < Suc i + k \<longrightarrow> a \<noteq> addr + of_nat j * PAGE_SIZE) \<Longrightarrow> pt' a = ?pt a"
  proof -
    have "Suc i + k \<le> length us" "Suc i + k < 2 ^ 32" using Suc.prems by simp_all
    from Suc.IH[OF Suc.prems(1) this, of ?pt] that show thesis by blast
  qed
  have step: "insert_pages mm b us addr i (Suc k) pt = Inr (True, pt')"
    using Suc.prems(1,2) pt'(1) by (simp add: read_arr_def insert_ok_def)
  have "?a \<noteq> addr + of_nat j * PAGE_SIZE" if "Suc i \<le> j \<and> j < Suc i + k" for j
    using page_addrs_inject[of i j addr] that Suc.prems(3) by auto
  then have first: "pt' ?a = Some (unit_page mm b (us ! i))" using pt'(3)[of ?a] by simp
  have "pt' (addr + of_nat j * PAGE_SIZE) = Some (unit_page mm b (us ! j))"
    if "i \<le> j \<and> j < i + Suc k" for j
    using that first pt'(2)[of j] by (cases "j = i") auto
  moreover have "pt' a = pt a" if "\<forall>j. i \<le> j \<and> j < i + Suc k \<longrightarrow> a \<noteq> addr + of_nat j * PAGE_SIZE" for a
    using pt'(3)[of a] that by auto
  ultimately show ?case using step by auto
qed

lemma insert_pages_total:
  "i + k \<le> length us \<Longrightarrow> \<exists>ok pt'. insert_pages mm b us addr i k pt = Inr (ok, pt')"
  by (induction k arbitrary: i pt) (auto simp: read_arr_def Let_def split: prod.splits)

context bitmap_lib
begin

lemma map_units_total:
  assumes inv: "vm_inv vm" and n: "0 < n" "n < 2 ^ 19" "nat n \<le> length us"
  shows "\<exists>a vm'. map_page_units bm mm us n b vm = Inr (a, vm') \<and> vm_inv vm'"
proof -
  let ?s = "scast (push_bit PAGE_SHIFT (word_of_int n :: u32)) :: ulong"
  have p: "0 < unat (area_pages ?s)" using area_pages_of_count[of n] n by simp
  obtain a vm1 where 1: "kgpu_alloc_mmap_area bm ?s vm = Inr (a, vm1)" "vm_inv vm1"
    and u: "unat (vnpages vm1) = unat (vnpages vm)"
    and r: "a \<noteq> 0 \<longrightarrow> has_room (unat (vnpages vm)) (vm_blocks vm) (unat (area_pages ?s))"
    using area_alloc_law[OF inv p] by metis
  show ?thesis
  proof (cases "a = 0")
    case True
    then show ?thesis using 1 by (simp add: map_page_units_def)
  next
    case False
    then have "0 < unat (vnpages vm1)" using u r p by (auto simp: has_room_def)
    then have "vma vm1 \<noteq> None" using 1(2) by (auto simp: vm_inv_def split: option.splits)
    then obtain v where v: "vma vm1 = Some v" by blast
    obtain ok pt where "insert_pages mm b us a 0 (nat n) (vm_ptes v) = Inr (ok, pt)"
      using insert_pages_total[of 0 "nat n" us mm b a "vm_ptes v"] n(3) by auto
    then have "map_page_units bm mm us n b vm = Inr (if ok then a else 0, vm1\<lparr>vma := Some (v\<lparr>vm_ptes := pt\<rparr>)\<rparr>)"
      using 1(1) False v by (simp add: map_page_units_def)
    moreover have "vm_inv (vm1\<lparr>vma := Some (v\<lparr>vm_ptes := pt\<rparr>)\<rparr>)" using 1(2) by (auto simp: vm_inv_def split: option.splits)
    ultimately show ?thesis by blast
  qed
qed

end

context bitmap_lib
begin

lemma map_units_all:
  assumes inv: "vm_inv vm" and v: "vma vm = Some v" and mm: "insert_ok mm"
    and n: "0 < n" "n < 2 ^ 19" "nat n \<le> length ps"
    and room: "has_room (unat (vnpages vm)) (vm_blocks vm) (nat n)"
    and nz: "\<And>i. i < unat (vnpages vm) \<Longrightarrow> page_addr vm i \<noteq> 0"
  shows "\<exists>i vm' v'. map_page_units bm mm ps n b vm = Inr (page_addr vm i, vm') \<and> vm_inv vm' \<and>
    spec_alloc (unat (vnpages vm)) (vm_blocks vm) i (nat n) (vm_blocks vm') \<and> vstart vm' = vstart vm \<and> vma vm' = Some v' \<and>
    (\<forall>k < nat n. vm_ptes v' (page_addr vm i + of_nat k * PAGE_SIZE) = Some (unit_page mm b (ps ! k))) \<and>
    (\<forall>a. (\<forall>k < nat n. a \<noteq> page_addr vm i + of_nat k * PAGE_SIZE) \<longrightarrow> vm_ptes v' a = vm_ptes v a)"
proof -
  let ?s = "scast (push_bit PAGE_SHIFT (word_of_int n :: u32)) :: ulong"
  have ap: "unat (area_pages ?s) = nat n" using area_pages_of_count n by simp
  obtain i vm1 where a: "kgpu_alloc_mmap_area bm ?s vm = Inr (page_addr vm i, vm1)" "vm_inv vm1"
    "vma vm1 = vma vm" "vstart vm1 = vstart vm" "spec_alloc (unat (vnpages vm)) (vm_blocks vm) i (nat n) (vm_blocks vm1)"
    using area_alloc_law[OF inv, of ?s] n(1) room ap by auto
  have i: "page_addr vm i \<noteq> 0" using a(5) nz n(1) by (auto simp: spec_alloc_def)
  have "nat n < 2 ^ 32" using n(2) by simp
  then obtain pt where pt: "insert_pages mm b ps (page_addr vm i) 0 (nat n) (vm_ptes v) = Inr (True, pt)"
    "\<forall>k < nat n. pt (page_addr vm i + of_nat k * PAGE_SIZE) = Some (unit_page mm b (ps ! k))"
    "\<forall>x. (\<forall>k < nat n. x \<noteq> page_addr vm i + of_nat k * PAGE_SIZE) \<longrightarrow> pt x = vm_ptes v x"
    using insert_pages_all[OF mm, of 0 "nat n" ps b "page_addr vm i" "vm_ptes v"] n(3)
    by auto
  let ?v = "v\<lparr>vm_ptes := pt\<rparr>"
  let ?vm = "vm1\<lparr>vma := Some ?v\<rparr>"
  have "map_page_units bm mm ps n b vm = Inr (page_addr vm i, ?vm)"
    using a i v pt(1) by (simp add: map_page_units_def)
  moreover have "vm_inv ?vm" using a(2) by (auto simp: vm_inv_def split: option.splits)
  ultimately show ?thesis
    using a(4,5) pt(2,3) by (intro exI[of _ i] exI[of _ ?vm] exI[of _ ?v]) simp
qed

lemma mmap_ready:
  assumes "512 \<le> length sz" and "512 \<le> length bits" and d: "vm_end v - vm_start v = KGPU_MMAP_SIZE"
  shows "\<exists>vm'. kgpu_mmap bm (Some sz) (Some bits) v vm = Inr (0, vm') \<and> vm_inv vm' \<and>
      unat (vnpages vm') = 512 \<and> vstart vm' = vm_start v \<and> vm_blocks vm' = Map.empty"
proof -
  let ?np = "ucast (drop_bit PAGE_SHIFT (KGPU_MMAP_SIZE)) :: u32"
  let ?sz = "replicate 512 0 @ drop 512 sz" and ?bits = "bm_zero bm bits 512"
  let ?v = "v\<lparr>vm_ops := KgpuVmOps, vm_flags := vm_flags v \<union> {VM_IO, VM_LOCKED, VM_DONTEXPAND, VM_DONTDUMP}\<rparr>"
  have np: "?np = 512" "unat (drop_bit PAGE_SHIFT KGPU_MMAP_SIZE) = 512" by code_simp+
  let ?vm = "vm\<lparr>vma := Some ?v, vstart := vm_start v, vend := vm_end v, vnpages := 512,
    vbitmap := Some ?bits, valloc_sz := Some ?sz\<rparr>"
  have "kgpu_mmap bm (Some sz) (Some bits) v vm = Inr (0, ?vm)"
    using assms(1,2) d np by (simp add: kgpu_mmap_def set_vm_def Let_def bits_at_def array_at_def)
  moreover have "block_inv 512 ?bits ?sz" "blocks_of 512 ?sz = Map.empty"
  proof -
    have len: "length ?bits = length bits"
      using zero_length[of 512 bits] assms(2) by simp
    have z: "\<forall>j < 512. \<not> ?bits ! j" using zero_nth[OF assms(2)] by blast
    have s: "i < 512 \<Longrightarrow> ?sz ! i = 0" for i by (simp add: nth_append)
    show B: "blocks_of 512 ?sz = Map.empty" using s by (auto simp: blocks_of_def fun_eq_iff)
    show "block_inv 512 ?bits ?sz"
      using z len assms(1,2) by (simp add: block_inv_def B disjoint_blocks_def covered_def)
  qed
  ultimately show ?thesis by (intro exI[of _ ?vm]) (simp add: vm_inv_def vm_blocks_def)
qed

lemma mmap_law:
  assumes "512 \<le> length sz" and "512 \<le> length bits" and "vm_inv vm"
    and "kgpu_mmap bm (Some sz) (Some bits) v vm = Inr (ret, w)"
  shows "vm_inv w"
proof (cases "vm_end v - vm_start v = KGPU_MMAP_SIZE")
  case True
  then show ?thesis using mmap_ready[OF assms(1,2), of v vm] assms(4) by auto
next
  case False
  then show ?thesis using assms(3,4) by (simp add: kgpu_mmap_def)
qed


text \<open>
  Mapping pages and unmapping the address that was returned leaves the blocks of the window as they were.
\<close>

lemma unmap_undoes_map:
  assumes inv: "vm_inv vm" and w: "vm_inv w" "vstart w = vstart vm"
    and a: "spec_alloc (unat (vnpages vm)) (vm_blocks vm) i m (vm_blocks w)"
  shows "\<exists>w'. kgpu_unmap_area bm mm (page_addr vm i) w = Inr w' \<and> vm_inv w' \<and> vm_blocks w' = vm_blocks vm"
proof -
  have i: "i < 2 ^ 32" using a u32_bound[of "vnpages vm"] by (auto simp: spec_alloc_def)
  have "page_addr vm i = page_addr w i" using w(2) by (simp add: page_addr_def)
  then obtain w' where f: "kgpu_unmap_area bm mm (page_addr vm i) w = Inr w'" "vm_inv w'" "vm_blocks w' = (vm_blocks w)(i := None)"
    using unmap_total[OF w(1), of mm "page_addr vm i"] page_index_addr[OF i, of w] by auto
  moreover have "(vm_blocks w)(i := None) = vm_blocks vm"
    using spec_alloc_undo[OF a] vm_inv_bounds[OF inv] by blast
  ultimately show ?thesis by auto
qed

end

section \<open>Sample windows\<close>

definition sample_area :: vm_area where
  "sample_area = \<lparr>vm_start = 0x10000000, vm_end = 0x10200000, vm_flags = {}, vm_ops = DefaultOps,
     vm_ptes = Map.empty\<rparr>"

definition sample_vma :: kgpu_vma where
  "sample_vma = \<lparr>vma = Some sample_area, vstart = 0x10000000, vend = 0x10004000, vnpages = 4,
     valloc_sz = Some [0, 0, 0, 0], vbitmap = Some (replicate 64 False)\<rparr>"

definition sample_mm :: mm_ops where
  "sample_mm = \<lparr>mm_insert = (\<lambda>pt a p. (0, pt(a \<mapsto> p))),
     mm_zap = (\<lambda>pt a n. (0, \<lambda>x. if a \<le> x \<and> x < a + n then None else pt x)),
     mm_pfn_to_page = (\<lambda>f. f)\<rparr>"

lemma sample_vma_inv: "vm_inv sample_vma" and sample_vma_blocks: "vm_blocks sample_vma = Map.empty"
proof -
  have b: "block_inv 4 (replicate 64 False) [0, 0, 0, 0]" "blocks_of 4 [0, 0, 0, 0] = Map.empty"
    by (rule block_inv_empty[where bits = "replicate 64 False"]; auto)+
  then show "vm_inv sample_vma" "vm_blocks sample_vma = Map.empty"
    by (simp_all add: vm_inv_def sample_vma_def vm_blocks_def)
qed


definition mapped_vma :: kgpu_vma where
  "mapped_vma = sample_vma\<lparr>valloc_sz := Some [2, 0, 0, 0], vbitmap := Some (True # True # replicate 62 False)\<rparr>"

lemma mapped_vma_blocks: "vm_blocks mapped_vma = [0 \<mapsto> 2]" and mapped_vma_inv: "vm_inv mapped_vma"
proof -
  have B: "blocks_of 4 [2, 0, 0, 0] = [0 \<mapsto> 2]"
    by (auto simp: blocks_of_def fun_eq_iff nth_Cons')
  have "covered [0 \<mapsto> 2] j \<longleftrightarrow> j < 2" for j by (auto simp: covered_def)
  then have "block_inv 4 (True # True # replicate 62 False) [2, 0, 0, 0]"
    by (auto simp: block_inv_def B disjoint_blocks_def nth_Cons' split: if_splits)
  then show "vm_blocks mapped_vma = [0 \<mapsto> 2]" "vm_inv mapped_vma"
    by (simp_all add: vm_inv_def vm_blocks_def mapped_vma_def sample_vma_def B)
qed

section \<open>Properties\<close>



text \<open>
  C23: \<open>kgpu_map_pages\<close> maps what it is given: with room for \<open>n\<close> pages (fewer than \<open>2^19\<close>) and
  insertions that succeed, it reserves an area of exactly \<open>n\<close> pages and the page at offset \<open>k\<close> of the
  returned address is the \<open>k\<close>-th page of the array; entries outside the area are untouched.
\<close>

theorem map_pages_maps_all:
  assumes "bitmap_lib bm" and inv: "vm_inv vm" and v: "vma vm = Some v" and mm: "insert_ok mm"
    and n: "0 < n" "n < 2 ^ 19" "nat n \<le> length ps"
    and room: "has_room (unat (vnpages vm)) (vm_blocks vm) (nat n)"
    and nz: "\<And>i. i < unat (vnpages vm) \<Longrightarrow> page_addr vm i \<noteq> 0"
  shows "\<exists>i vm' v'. kgpu_map_pages bm mm ps n vm = Inr (page_addr vm i, vm') \<and> vm_inv vm' \<and>
    spec_alloc (unat (vnpages vm)) (vm_blocks vm) i (nat n) (vm_blocks vm') \<and> vma vm' = Some v' \<and>
    (\<forall>k < nat n. vm_ptes v' (page_addr vm i + of_nat k * PAGE_SIZE) = Some (ps ! k)) \<and>
    (\<forall>a. (\<forall>k < nat n. a \<noteq> page_addr vm i + of_nat k * PAGE_SIZE) \<longrightarrow> vm_ptes v' a = vm_ptes v a)"
proof -
  have u: "unit_page mm True x = x" for x by (simp add: unit_page_def)
  show ?thesis
    using bitmap_lib.map_units_all[OF assms(1) inv v mm n room nz, where b = True] unfolding u kgpu_map_pages_def by blast
qed

theorem map_pages_maps_all_witness:
  "\<exists>i vm' v'. kgpu_map_pages ref_bitmap sample_mm [0x51000, 0x62000] 2 sample_vma =
      Inr (page_addr sample_vma i, vm') \<and> vm_inv vm' \<and>
    spec_alloc (unat (vnpages sample_vma)) (vm_blocks sample_vma) i (nat 2) (vm_blocks vm') \<and>
    vma vm' = Some v' \<and>
    (\<forall>k < nat 2. vm_ptes v' (page_addr sample_vma i + of_nat k * PAGE_SIZE) =
       Some ([0x51000, 0x62000] ! k)) \<and>
    (\<forall>a. (\<forall>k < nat 2. a \<noteq> page_addr sample_vma i + of_nat k * PAGE_SIZE) \<longrightarrow>
       vm_ptes v' a = vm_ptes sample_area a)"
proof (rule map_pages_maps_all[OF ref_bm.bitmap_lib_axioms sample_vma_inv])
  show "vma sample_vma = Some sample_area" by (simp add: sample_vma_def)
  show "insert_ok sample_mm" by (simp add: insert_ok_def sample_mm_def)
  show "has_room (unat (vnpages sample_vma)) (vm_blocks sample_vma) (nat 2)"
    unfolding sample_vma_blocks by (rule has_room_empty) (simp add: sample_vma_def)
  fix i assume "i < unat (vnpages sample_vma)"
  then have "i = 0 \<or> i = 1 \<or> i = 2 \<or> i = 3" by (auto simp: sample_vma_def)
  then show "page_addr sample_vma i \<noteq> 0" by (auto simp: page_addr_def sample_vma_def kgpu_consts)
qed simp_all

text \<open>
  \<open>map_page_units\<close> leaks the area when an insertion fails: it returns \<open>NULL\<close>, so the caller has
  nothing to unmap, but the area stays reserved.
\<close>

theorem map_pages_failure_leaks_area:
  assumes "bitmap_lib bm" and inv: "vm_inv vm" and v: "vma vm = Some v"
    and fail: "\<And>pt a p. mm_insert mm pt a p = (- ENOMEM, pt)"
    and n: "0 < n" "n < 2 ^ 19" "nat n \<le> length ps"
    and room: "has_room (unat (vnpages vm)) (vm_blocks vm) (nat n)"
  shows "\<exists>i vm'. kgpu_map_pages bm mm ps n vm = Inr (0, vm') \<and>
    spec_alloc (unat (vnpages vm)) (vm_blocks vm) i (nat n) (vm_blocks vm')"
proof -
  let ?s = "scast (push_bit PAGE_SHIFT (word_of_int n :: u32)) :: ulong"
  have ap: "unat (area_pages ?s) = nat n" using area_pages_of_count n by simp
  obtain i vm1 where a: "kgpu_alloc_mmap_area bm ?s vm = Inr (page_addr vm i, vm1)"
    "vma vm1 = vma vm" "spec_alloc (unat (vnpages vm)) (vm_blocks vm) i (nat n) (vm_blocks vm1)"
    using bitmap_lib.area_alloc_law[OF assms(1) inv, of ?s] n(1) room ap by auto
  obtain k where k: "nat n = Suc k" using n(1) by (cases "nat n") auto
  have "\<exists>vm'. kgpu_map_pages bm mm ps n vm = Inr (0, vm') \<and> vm_blocks vm' = vm_blocks vm1"
    using a v k n(3)
    by (auto simp: kgpu_map_pages_def map_page_units_def read_arr_def fail errno_defs)
  then show ?thesis using a(3) by metis
qed


theorem map_pages_failure_leaks_area_witness:
  "\<exists>i vm'. kgpu_map_pages ref_bitmap (sample_mm\<lparr>mm_insert := \<lambda>pt a p. (- ENOMEM, pt)\<rparr>) [0x51000] 1 sample_vma =
      Inr (0, vm') \<and>
    spec_alloc (unat (vnpages sample_vma)) (vm_blocks sample_vma) i (nat 1) (vm_blocks vm')"
proof (rule map_pages_failure_leaks_area[OF ref_bm.bitmap_lib_axioms sample_vma_inv])
  show "vma sample_vma = Some sample_area" by (simp add: sample_vma_def)
  show "has_room (unat (vnpages sample_vma)) (vm_blocks sample_vma) (nat 1)"
    unfolding sample_vma_blocks by (rule has_room_empty) (simp add: sample_vma_def)
qed simp_all




text \<open>
  \<open>kgpu_mmap\<close> refuses every window that is not \<open>KGPU_MMAP_SIZE\<close> bytes with \<open>-EINVAL\<close> and without
  touching the device; for one of the right size, with both arrays allocated, it returns 0 and sets up a
  window of 512 pages without areas.
\<close>

theorem mmap_sets_window:
  assumes "bitmap_lib bm" and "512 \<le> length sz" and "512 \<le> length bits"
  shows "(vm_end v - vm_start v \<noteq> KGPU_MMAP_SIZE \<longrightarrow>
      kgpu_mmap bm km_sz km_bits v vm = Inr (- EINVAL, vm)) \<and>
    (vm_end v - vm_start v = KGPU_MMAP_SIZE \<longrightarrow>
      (\<exists>vm'. kgpu_mmap bm (Some sz) (Some bits) v vm = Inr (0, vm') \<and> vm_inv vm' \<and>
        unat (vnpages vm') = 512 \<and> vstart vm' = vm_start v \<and> vm_blocks vm' = Map.empty))"
proof (intro conjI impI)
  assume "vm_end v - vm_start v \<noteq> KGPU_MMAP_SIZE"
  then show "kgpu_mmap bm km_sz km_bits v vm = Inr (- EINVAL, vm)" by (simp add: kgpu_mmap_def)
next
  assume "vm_end v - vm_start v = KGPU_MMAP_SIZE"
  then show "\<exists>vm'. kgpu_mmap bm (Some sz) (Some bits) v vm = Inr (0, vm') \<and> vm_inv vm' \<and>
      unat (vnpages vm') = 512 \<and> vstart vm' = vm_start v \<and> vm_blocks vm' = Map.empty"
    by (rule bitmap_lib.mmap_ready[OF assms])
qed

theorem mmap_sets_window_witness:
  "kgpu_mmap ref_bitmap None None (sample_area\<lparr>vm_end := 0\<rparr>) empty_vma = Inr (- EINVAL, empty_vma) \<and>
   (\<exists>vm'. kgpu_mmap ref_bitmap (Some (replicate 512 9)) (Some (replicate 512 True)) sample_area empty_vma =
      Inr (0, vm') \<and> vm_inv vm' \<and> unat (vnpages vm') = 512 \<and> vstart vm' = vm_start sample_area \<and>
      vm_blocks vm' = Map.empty)"
proof -
  have "vm_end sample_area - vm_start sample_area = KGPU_MMAP_SIZE"
    "vm_end (sample_area\<lparr>vm_end := 0\<rparr>) - vm_start (sample_area\<lparr>vm_end := 0\<rparr>) \<noteq> KGPU_MMAP_SIZE"
    by (simp_all add: sample_area_def kgpu_consts)
  then show ?thesis
    using mmap_sets_window[OF ref_bm.bitmap_lib_axioms, of "replicate 512 9" "replicate 512 True"] by simp
qed

text \<open>
  When \<open>kmalloc\<close> of either array fails, \<open>set_vm\<close> drops both pointers but still clears the arrays:
  an \<open>mmap\<close> of the right size then writes through a null pointer.
\<close>

theorem mmap_out_of_memory_faults:
  assumes "vm_end v - vm_start v = KGPU_MMAP_SIZE" and "km_sz = None \<or> km_bits = None"
  shows "kgpu_mmap bm km_sz km_bits v vm = Inl NullDeref"
proof -
  have "(ucast (drop_bit PAGE_SHIFT (KGPU_MMAP_SIZE)) :: u32) = 512" by code_simp
  with assms show ?thesis by (auto simp: kgpu_mmap_def set_vm_def Let_def bits_at_def)
qed

theorem mmap_out_of_memory_faults_witness:
  "kgpu_mmap ref_bitmap None (Some (replicate 512 True)) sample_area empty_vma = Inl NullDeref"
  by (rule mmap_out_of_memory_faults) (simp_all add: sample_area_def kgpu_consts)

end
