(* ===== verification/Device.thy ===== *)
theory Device
  imports Vma
begin

text \<open>
  The request path of the kernel module (\<^verbatim>\<open>kgpu/src/kernelSpace/main.c\<close>): the device record
  \<open>struct _kgpu_dev\<close>, request identifiers, the three slab caches, \<open>kgpu_call_async\<close>,
  \<open>kgpu_call_sync\<close>, \<open>kgpu_read\<close>, \<open>kgpu_write\<close>, \<open>find_request\<close>, \<open>fill_ku_request\<close> and \<open>kgpu_poll\<close>.
  The two queues are kernel lists (\<^verbatim>\<open>linux/list.h\<close>) of request items and are HOL lists of item
  addresses here. The regions under \<open>reqlock\<close>, \<open>rtdreqlock\<close> and \<open>ridlock\<close> are one step each.
\<close>

section \<open>Slab caches\<close>

text \<open>
  A cache keeps its objects once they are constructed: the constructor runs when the cache grows, not
  at every allocation, and a released object keeps its contents. Addresses are positions. Which object
  an allocation returns is the kernel's choice: none, one that was released, or the first of a number of
  newly constructed ones.
\<close>

record 'a slab =
  objs :: "'a list"
  inuse :: "nat set"

datatype slab_choice = NoMemory | Reuse nat | Grow nat

definition empty_slab :: "'a slab" where
  "empty_slab = \<lparr>objs = [], inuse = {}\<rparr>"

definition slab_growth :: "slab_choice \<Rightarrow> nat" where
  "slab_growth ch = (case ch of Grow k \<Rightarrow> k | _ \<Rightarrow> 0)"

definition slab_alloc :: "slab_choice \<Rightarrow> 'a list \<Rightarrow> 'a slab \<Rightarrow> nat option \<times> 'a slab" where
  "slab_alloc ch fresh s =
     (let s1 = s\<lparr>objs := objs s @ fresh\<rparr> in
      case ch of
        NoMemory \<Rightarrow> (None, s1)
      | Reuse p \<Rightarrow>
          if p < length (objs s) \<and> p \<notin> inuse s
          then (Some p, s1\<lparr>inuse := insert p (inuse s)\<rparr>) else (None, s1)
      | Grow k \<Rightarrow>
          if fresh = [] then (None, s1)
          else (Some (length (objs s)), s1\<lparr>inuse := insert (length (objs s)) (inuse s)\<rparr>))"

definition slab_free :: "nat \<Rightarrow> 'a slab \<Rightarrow> fault + 'a slab" where
  "slab_free p s = (if p \<in> inuse s then Inr (s\<lparr>inuse := inuse s - {p}\<rparr>) else Inl DoubleFree)"

definition slab_get :: "nat option \<Rightarrow> 'a slab \<Rightarrow> fault + 'a" where
  "slab_get q s = (case q of None \<Rightarrow> Inl NullDeref
     | Some p \<Rightarrow> if p \<in> inuse s then read_arr (objs s) p else Inl UseAfterFree)"

definition slab_put :: "nat option \<Rightarrow> 'a \<Rightarrow> 'a slab \<Rightarrow> fault + 'a slab" where
  "slab_put q v s = (case q of None \<Rightarrow> Inl NullDeref
     | Some p \<Rightarrow> if p \<in> inuse s
         then andThen (write_arr (objs s) p v) (\<lambda>xs. Inr (s\<lparr>objs := xs\<rparr>)) else Inl UseAfterFree)"

section \<open>Requests and the device\<close>

text \<open>
  \<open>struct kgpu_request\<close>. The callback is \<open>NULL\<close>, the module's own \<open>sync_callback\<close> or a function of the
  client, by number; \<open>kdata\<close> is a client pointer or points to the record of a synchronous call.
\<close>

datatype kgpu_callback = NullCallback | SyncCallback | ClientCallback nat

datatype kdata_ptr = KPtr ulong | KSync nat

record kgpu_request =
  rq_id :: int
  rq_in :: ulong
  rq_out :: ulong
  rq_udata :: ulong
  rq_kdata :: kdata_ptr
  rq_insize :: ulong
  rq_outsize :: ulong
  rq_udatasize :: ulong
  rq_kdatasize :: ulong
  rq_service_name :: string
  rq_callback :: kgpu_callback
  rq_errcode :: int

record kgpu_request_item =
  item_r :: "nat option"

record kgpu_sync_call_data =
  oldkdata :: kdata_ptr
  oldcallback :: kgpu_callback
  sync_done :: int

definition sizeof_ku_request :: ulong where "sizeof_ku_request = 88"

definition sizeof_ku_response :: ulong where "sizeof_ku_response = 8"

record kgpu_dev =
  rid_sequence :: u32
  reqs :: "nat list"
  rtdreqs :: "nat list"
  gmpool :: kgpu_mempool
  vm :: kgpu_vma
  dev_state :: int
  request_cache :: "kgpu_request slab"
  item_cache :: "kgpu_request_item slab"
  sync_cache :: "kgpu_sync_call_data slab"
  kgpudev_av :: int

section \<open>Request identifiers and the caches' constructors\<close>

definition kgpu_next_request_id :: "kgpu_dev \<Rightarrow> int \<times> kgpu_dev" where
  "kgpu_next_request_id dev =
     (let s = rid_sequence dev + 1;
          s' = (if sint s < 0 then 0 else s) in
      (sint s', dev\<lparr>rid_sequence := s'\<rparr>))"

definition zero_request :: kgpu_request where
  "zero_request = \<lparr>rq_id = 0, rq_in = 0, rq_out = 0, rq_udata = 0, rq_kdata = KPtr 0, rq_insize = 0,
     rq_outsize = 0, rq_udatasize = 0, rq_kdatasize = 0,
     rq_service_name = replicate KGPU_SERVICE_NAME_SIZE (CHR 0x00), rq_callback = NullCallback,
     rq_errcode = 0\<rparr>"

definition kgpu_request_constructor :: "kgpu_dev \<Rightarrow> kgpu_request \<times> kgpu_dev" where
  "kgpu_request_constructor dev =
     (let (i, dev') = kgpu_next_request_id dev in (zero_request\<lparr>rq_id := i\<rparr>, dev'))"

fun construct_requests :: "nat \<Rightarrow> kgpu_dev \<Rightarrow> kgpu_request list \<times> kgpu_dev" where
  "construct_requests 0 dev = ([], dev)"
| "construct_requests (Suc k) dev =
     (let (r, dev1) = kgpu_request_constructor dev;
          (rs, dev2) = construct_requests k dev1 in (r # rs, dev2))"

definition kgpu_request_item_constructor :: kgpu_request_item where
  "kgpu_request_item_constructor = \<lparr>item_r = None\<rparr>"

definition kgpu_sync_call_data_constructor :: kgpu_sync_call_data where
  "kgpu_sync_call_data_constructor = \<lparr>oldkdata = KPtr 0, oldcallback = NullCallback, sync_done = 0\<rparr>"

definition kgpu_alloc_request :: "slab_choice \<Rightarrow> kgpu_dev \<Rightarrow> nat option \<times> kgpu_dev" where
  "kgpu_alloc_request ch dev =
     (let (fresh, dev1) = construct_requests (slab_growth ch) dev;
          (p, c) = slab_alloc ch fresh (request_cache dev1) in (p, dev1\<lparr>request_cache := c\<rparr>))"

definition kgpu_free_request :: "nat \<Rightarrow> kgpu_dev \<Rightarrow> fault + kgpu_dev" where
  "kgpu_free_request p dev =
     andThen (slab_free p (request_cache dev)) (\<lambda>c. Inr (dev\<lparr>request_cache := c\<rparr>))"

definition alloc_item :: "slab_choice \<Rightarrow> kgpu_dev \<Rightarrow> nat option \<times> kgpu_dev" where
  "alloc_item ch dev =
     (let (p, c) = slab_alloc ch (replicate (slab_growth ch) kgpu_request_item_constructor)
        (item_cache dev) in (p, dev\<lparr>item_cache := c\<rparr>))"

definition alloc_sync_data :: "slab_choice \<Rightarrow> kgpu_dev \<Rightarrow> nat option \<times> kgpu_dev" where
  "alloc_sync_data ch dev =
     (let (p, c) = slab_alloc ch (replicate (slab_growth ch) kgpu_sync_call_data_constructor)
        (sync_cache dev) in (p, dev\<lparr>sync_cache := c\<rparr>))"

definition get_request :: "nat option \<Rightarrow> kgpu_dev \<Rightarrow> fault + kgpu_request" where
  "get_request q dev = slab_get q (request_cache dev)"

definition put_request :: "nat option \<Rightarrow> kgpu_request \<Rightarrow> kgpu_dev \<Rightarrow> fault + kgpu_dev" where
  "put_request q r dev =
     andThen (slab_put q r (request_cache dev)) (\<lambda>c. Inr (dev\<lparr>request_cache := c\<rparr>))"

definition put_sync_data :: "nat \<Rightarrow> kgpu_sync_call_data \<Rightarrow> kgpu_dev \<Rightarrow> fault + kgpu_dev" where
  "put_sync_data d v dev =
     andThen (slab_put (Some d) v (sync_cache dev)) (\<lambda>c. Inr (dev\<lparr>sync_cache := c\<rparr>))"

section \<open>Calls\<close>

text \<open>
  \<open>item->r = req\<close> and the two list operations: the item, just allocated, goes to the end of \<open>reqs\<close>.
\<close>

definition enqueue_item :: "nat \<Rightarrow> nat option \<Rightarrow> kgpu_dev \<Rightarrow> fault + kgpu_dev" where
  "enqueue_item x q dev =
     andThen (slab_put (Some x) \<lparr>item_r = q\<rparr> (item_cache dev)) (\<lambda>c.
     Inr (dev\<lparr>item_cache := c, reqs := reqs dev @ [x]\<rparr>))"

definition kgpu_call_async :: "slab_choice \<Rightarrow> nat option \<Rightarrow> kgpu_dev \<Rightarrow> fault + (int \<times> kgpu_dev)" where
  "kgpu_call_async ch req dev =
     (if dev_state dev = KGPU_TERMINATED then Inr (KGPU_TERMINATED, dev)
      else case alloc_item ch dev of
        (None, dev1) \<Rightarrow> Inr (- ENOMEM, dev1)
      | (Some x, dev1) \<Rightarrow> andThen (enqueue_item x req dev1) (\<lambda>dev2. Inr (0, dev2)))"

text \<open>
  \<open>kgpu_call_sync\<close> in two parts, before and after \<open>wait_event_interruptible\<close>. The first returns the
  code of an early return (\<open>Inl\<close>) or the record it waits on (\<open>Inr\<close>). The second is reached when
  \<open>done\<close> is 1 or a signal arrives: the return value of the wait is not looked at.
\<close>

definition call_sync_submit :: "slab_choice \<Rightarrow> slab_choice \<Rightarrow> nat option \<Rightarrow> kgpu_dev \<Rightarrow>
  fault + ((int + nat) \<times> kgpu_dev)" where
  "call_sync_submit chd chi req dev =
     (if dev_state dev = KGPU_TERMINATED then Inr (Inl KGPU_TERMINATED, dev)
      else case alloc_sync_data chd dev of
        (None, dev1) \<Rightarrow> Inr (Inl (- ENOMEM), dev1)
      | (Some d, dev1) \<Rightarrow>
        (case alloc_item chi dev1 of
           (None, dev2) \<Rightarrow> Inr (Inl (- ENOMEM), dev2)
         | (Some x, dev2) \<Rightarrow>
             andThen (get_request req dev2) (\<lambda>r.
             andThen (put_sync_data d
               \<lparr>oldkdata = rq_kdata r, oldcallback = rq_callback r, sync_done = 0\<rparr> dev2) (\<lambda>dev3.
             andThen (put_request req (r\<lparr>rq_kdata := KSync d, rq_callback := SyncCallback\<rparr>) dev3) (\<lambda>dev4.
             andThen (enqueue_item x req dev4) (\<lambda>dev5.
             Inr (Inr d, dev5)))))))"

definition call_sync_finish :: "nat \<Rightarrow> nat option \<Rightarrow> kgpu_dev \<Rightarrow> fault + (int \<times> kgpu_dev)" where
  "call_sync_finish d req dev =
     andThen (slab_get (Some d) (sync_cache dev)) (\<lambda>data.
     andThen (get_request req dev) (\<lambda>r.
     andThen (put_request req (r\<lparr>rq_kdata := oldkdata data, rq_callback := oldcallback data\<rparr>) dev) (\<lambda>dev1.
     andThen (slab_free d (sync_cache dev1)) (\<lambda>c.
     Inr (0, dev1\<lparr>sync_cache := c\<rparr>)))))"

text \<open>
  The whole call: \<open>others\<close> is what the rest of the system does to the device while the caller sleeps,
  \<open>signalled\<close> whether a signal arrives. \<open>None\<close>: the caller still sleeps.
\<close>

definition kgpu_call_sync :: "slab_choice \<Rightarrow> slab_choice \<Rightarrow> (kgpu_dev \<Rightarrow> fault + kgpu_dev) \<Rightarrow> bool \<Rightarrow>
  nat option \<Rightarrow> kgpu_dev \<Rightarrow> (fault + (int \<times> kgpu_dev)) option" where
  "kgpu_call_sync chd chi others signalled req dev =
     (case call_sync_submit chd chi req dev of
        Inl e \<Rightarrow> Some (Inl e)
      | Inr (Inl ret, dev1) \<Rightarrow> Some (Inr (ret, dev1))
      | Inr (Inr d, dev1) \<Rightarrow>
        (case others dev1 of
           Inl e \<Rightarrow> Some (Inl e)
         | Inr dev2 \<Rightarrow>
           (case slab_get (Some d) (sync_cache dev2) of
              Inl e \<Rightarrow> Some (Inl e)
            | Inr data \<Rightarrow>
                if sync_done data = 1 \<or> signalled then Some (call_sync_finish d req dev2) else None)))"

text \<open>
  \<open>sync_callback\<close> takes \<open>kdata\<close> for a call record whatever it is; a client pointer there is a write to
  foreign memory.
\<close>

definition sync_callback :: "nat option \<Rightarrow> kgpu_dev \<Rightarrow> fault + kgpu_dev" where
  "sync_callback req dev =
     andThen (get_request req dev) (\<lambda>r.
     case rq_kdata r of
       KPtr a \<Rightarrow> Inl OutOfBounds
     | KSync d \<Rightarrow>
         andThen (slab_get (Some d) (sync_cache dev)) (\<lambda>data.
         put_sync_data d (data\<lparr>sync_done := 1\<rparr>) dev))"

type_synonym client = "nat \<Rightarrow> nat option \<Rightarrow> kgpu_dev \<Rightarrow> fault + kgpu_dev"

definition invoke_callback :: "client \<Rightarrow> kgpu_callback \<Rightarrow> nat option \<Rightarrow> kgpu_dev \<Rightarrow> fault + kgpu_dev" where
  "invoke_callback cb f req dev =
     (case f of NullCallback \<Rightarrow> Inl NullDeref
      | SyncCallback \<Rightarrow> sync_callback req dev
      | ClientCallback k \<Rightarrow> cb k req dev)"

section \<open>The helper's side of the device file\<close>

fun find_item :: "kgpu_dev \<Rightarrow> int \<Rightarrow> nat list \<Rightarrow> fault + nat option" where
  "find_item dev i [] = Inr None"
| "find_item dev i (x # xs) =
     andThen (slab_get (Some x) (item_cache dev)) (\<lambda>it.
     andThen (get_request (item_r it) dev) (\<lambda>r.
     if rq_id r = i then Inr (Some x) else find_item dev i xs))"

definition find_request :: "int \<Rightarrow> bool \<Rightarrow> kgpu_dev \<Rightarrow> fault + (nat option \<times> kgpu_dev)" where
  "find_request i offlist dev =
     andThen (find_item dev i (rtdreqs dev)) (\<lambda>pos.
     case pos of
       None \<Rightarrow> Inr (None, dev)
     | Some x \<Rightarrow> Inr (Some x, if offlist then dev\<lparr>rtdreqs := remove1 x (rtdreqs dev)\<rparr> else dev))"

definition to_user :: "kgpu_mempool \<Rightarrow> ulong \<Rightarrow> ulong" where
  "to_user gm p =
     (if ADDR_WITHIN p (kva gm) (pages_to_bytes (npages gm)) then ADDR_REBASE (uva gm) (kva gm) p else p)"

definition fill_ku_request :: "kgpu_mempool \<Rightarrow> kgpu_request \<Rightarrow> kgpu_ku_request" where
  "fill_ku_request gm req =
     \<lparr>ku_id = rq_id req, ku_service_name = take KGPU_SERVICE_NAME_SIZE (rq_service_name req),
      ku_in = to_user gm (rq_in req), ku_out = to_user gm (rq_out req),
      ku_data = to_user gm (rq_udata req),
      ku_insize = rq_insize req, ku_outsize = rq_outsize req, ku_datasize = rq_udatasize req\<rparr>"

text \<open>
  \<open>kgpu_read\<close>: the result is \<open>None\<close> while the caller sleeps on an empty queue (it starts over when it is
  woken). Otherwise the return value, what was copied to the buffer, the file position and the device.
\<close>

definition kgpu_read :: "bool \<Rightarrow> bool \<Rightarrow> ulong \<Rightarrow> ulong \<Rightarrow> kgpu_dev \<Rightarrow>
  (fault + (int \<times> kgpu_ku_request option \<times> ulong \<times> kgpu_dev)) option" where
  "kgpu_read nonblock signalled c fpos dev =
     (case reqs dev of
        [] \<Rightarrow>
          if nonblock then Some (Inr (- EAGAIN, None, fpos, dev))
          else if signalled then Some (Inr (- ERESTARTSYS, None, fpos, dev))
          else None
      | x # xs \<Rightarrow>
          Some (andThen (slab_get (Some x) (item_cache dev)) (\<lambda>it.
          andThen (get_request (item_r it) dev) (\<lambda>r.
          let ret = sint c;
              dev1 = dev\<lparr>reqs := xs\<rparr>;
              dev2 = (if 0 < ret then dev1\<lparr>rtdreqs := rtdreqs dev1 @ [x]\<rparr> else dev1) in
          Inr (ret, Some (fill_ku_request (gmpool dev) r), fpos + c, dev2)))))"

definition kgpu_write :: "client \<Rightarrow> kgpu_ku_response \<Rightarrow> ulong \<Rightarrow> ulong \<Rightarrow> kgpu_dev \<Rightarrow>
  fault + (int \<times> ulong \<times> kgpu_dev)" where
  "kgpu_write cb kuresp count fpos dev =
     (if count < sizeof_ku_response then Inr (- EINVAL, fpos, dev)
      else
        andThen (find_request (resp_id kuresp) True dev) (\<lambda>(pos, dev1).
        case pos of
          None \<Rightarrow> Inr (- EFAULT, fpos, dev1)
        | Some x \<Rightarrow>
            andThen (slab_get (Some x) (item_cache dev1)) (\<lambda>it.
            andThen (get_request (item_r it) dev1) (\<lambda>r.
            andThen (put_request (item_r it) (r\<lparr>rq_errcode := resp_errcode kuresp\<rparr>) dev1) (\<lambda>dev2.
            andThen (invoke_callback cb (rq_callback r) (item_r it) dev2) (\<lambda>dev3.
            andThen (slab_free x (item_cache dev3)) (\<lambda>c.
            Inr (sint count, fpos + count, dev3\<lparr>item_cache := c\<rparr>))))))))"

datatype poll_flag = POLLIN | POLLRDNORM | POLLOUT | POLLWRNORM

definition kgpu_poll :: "kgpu_dev \<Rightarrow> poll_flag set" where
  "kgpu_poll dev =
     (if reqs dev \<noteq> [] then {POLLIN, POLLRDNORM} else {}) \<union> {POLLOUT, POLLWRNORM}"

section \<open>Lemmas\<close>

definition slab_ok :: "'a slab \<Rightarrow> bool" where
  "slab_ok s \<longleftrightarrow> (\<forall>p \<in> inuse s. p < length (objs s))"

lemma slab_alloc_Some:
  assumes "slab_alloc ch fresh s = (Some p, s')" and "slab_ok s"
  shows "slab_ok s'" and "p \<notin> inuse s" and "inuse s' = insert p (inuse s)" and "objs s' = objs s @ fresh"
  using assms
  by (force simp: slab_alloc_def slab_ok_def Let_def split: slab_choice.splits if_splits)+

lemma slab_alloc_None:
  assumes "slab_alloc ch fresh s = (None, s')"
  shows "inuse s' = inuse s" and "objs s' = objs s @ fresh"
  using assms by (auto simp: slab_alloc_def Let_def split: slab_choice.splits if_splits)

lemma slab_get_ok [simp]:
  "slab_ok s \<Longrightarrow> p \<in> inuse s \<Longrightarrow> slab_get (Some p) s = Inr (objs s ! p)"
  by (auto simp: slab_get_def read_arr_def slab_ok_def)

lemma slab_put_ok [simp]:
  "slab_ok s \<Longrightarrow> p \<in> inuse s \<Longrightarrow> slab_put (Some p) v s = Inr (s\<lparr>objs := (objs s)[p := v]\<rparr>)"
  by (auto simp: slab_put_def write_arr_def slab_ok_def)

lemma slab_free_ok [simp]: "p \<in> inuse s \<Longrightarrow> slab_free p s = Inr (s\<lparr>inuse := inuse s - {p}\<rparr>)"
  by (simp add: slab_free_def)

lemma slab_ok_put [simp]: "slab_ok (s\<lparr>objs := (objs s)[p := v]\<rparr>) = slab_ok s"
  by (simp add: slab_ok_def)

lemma slab_ok_free: "slab_ok s \<Longrightarrow> slab_ok (s\<lparr>inuse := inuse s - {p}\<rparr>)"
  by (auto simp: slab_ok_def)

lemma slab_ok_bound: "slab_ok s \<Longrightarrow> p \<in> inuse s \<Longrightarrow> p < length (objs s)"
  by (auto simp: slab_ok_def)

lemma slab_kept:
  assumes "slab_ok s" and "objs c = objs s @ fresh" and "x \<notin> inuse s" and "y \<in> inuse s"
  shows "(objs c)[x := v] ! y = objs s ! y"
proof -
  have "x \<noteq> y" "y < length (objs s)" using assms slab_ok_bound by blast+
  then show ?thesis using assms(2) by (simp add: nth_append)
qed

text \<open>The identifiers that \<open>n\<close> calls issue one after the other.\<close>

fun issued_ids :: "nat \<Rightarrow> kgpu_dev \<Rightarrow> int list" where
  "issued_ids 0 dev = []"
| "issued_ids (Suc n) dev =
     (let (i, dev') = kgpu_next_request_id dev in i # issued_ids n dev')"

lemma next_id_value:
  assumes "unat (rid_sequence dev) < 2 ^ 31"
  shows "fst (kgpu_next_request_id dev) = (int (unat (rid_sequence dev)) + 1) mod 2 ^ 31"
    and "unat (rid_sequence (snd (kgpu_next_request_id dev))) = (unat (rid_sequence dev) + 1) mod 2 ^ 31"
proof -
  let ?s = "rid_sequence dev + 1"
  have u: "unat ?s = unat (rid_sequence dev) + 1"
    using assms by (subst unat_add_small) simp_all
  have "(fst (kgpu_next_request_id dev) = (int (unat (rid_sequence dev)) + 1) mod 2 ^ 31) \<and>
    unat (rid_sequence (snd (kgpu_next_request_id dev))) = (unat (rid_sequence dev) + 1) mod 2 ^ 31"
  proof (cases "unat (rid_sequence dev) + 1 < 2 ^ 31")
    case True
    then have "sint ?s = uint ?s" using u by (intro sint_small) simp
    moreover have "uint ?s = uint (rid_sequence dev) + 1" by (simp only: uint_nat u of_nat_add of_nat_1)
    moreover have "uint (rid_sequence dev) + 1 < 2 ^ 31"
    proof -
      have "int (unat (rid_sequence dev) + 1) < int (2 ^ 31)" using True by (simp only: of_nat_less_iff)
      then show ?thesis by (simp only: uint_nat of_nat_add of_nat_1 of_nat_power of_nat_numeral)
    qed
    ultimately show ?thesis using True u by (simp add: kgpu_next_request_id_def Let_def not_less)
  next
    case False
    then have e: "unat (rid_sequence dev) + 1 = 2 ^ 31" using assms by simp
    then have "?s = 0x80000000" using u by (simp add: word_unat_eq_iff)
    then have "sint ?s < 0" by simp
    then show ?thesis using e False by (simp add: kgpu_next_request_id_def Let_def)
  qed
  then show "fst (kgpu_next_request_id dev) = (int (unat (rid_sequence dev)) + 1) mod 2 ^ 31"
    and "unat (rid_sequence (snd (kgpu_next_request_id dev))) = (unat (rid_sequence dev) + 1) mod 2 ^ 31"
    by blast+
qed

lemma mod_succ_succ:
  "(int ((a + 1) mod 2 ^ 31) + 1 + int k) mod 2 ^ 31 = (int a + 1 + int (Suc k)) mod 2 ^ 31"
proof -
  have "(int ((a + 1) mod 2 ^ 31) + (1 + int k)) mod 2 ^ 31 = (int (a + 1) + (1 + int k)) mod 2 ^ 31"
    unfolding zmod_int by (subst mod_add_left_eq[symmetric]) simp
  then show ?thesis by (simp add: algebra_simps)
qed

lemma issued_ids_eq:
  "unat (rid_sequence dev) < 2 ^ 31 \<Longrightarrow>
   issued_ids n dev = map (\<lambda>k. (int (unat (rid_sequence dev)) + 1 + int k) mod 2 ^ 31) [0 ..< n]"
proof (induction n arbitrary: dev)
  case (Suc n)
  obtain i dev' where nx: "kgpu_next_request_id dev = (i, dev')" by (cases "kgpu_next_request_id dev")
  note v = next_id_value[OF Suc.prems, unfolded nx fst_conv snd_conv]
  have "unat (rid_sequence dev') < 2 ^ 31" using v(2) by simp
  note ih = Suc.IH[OF this]
  have step: "(int (unat (rid_sequence dev')) + 1 + int k) mod 2 ^ 31 =
      (int (unat (rid_sequence dev)) + 1 + int (Suc k)) mod 2 ^ 31" for k
    unfolding v(2) by (rule mod_succ_succ)
  have "issued_ids (Suc n) dev = i # issued_ids n dev'" using nx by simp
  also have "\<dots> = map (\<lambda>k. (int (unat (rid_sequence dev)) + 1 + int k) mod 2 ^ 31) (0 # map Suc [0 ..< n])"
    using v(1) ih step by simp
  also have "0 # map Suc [0 ..< n] = [0 ..< Suc n]" by (simp add: map_Suc_upt upt_conv_Cons)
  finally show ?case .
qed simp


text \<open>The allocations of items and call records, in terms of the cache operation.\<close>

lemma alloc_item_Some:
  assumes "alloc_item ch dev = (Some x, dev')" and "slab_ok (item_cache dev)"
  obtains c where "dev' = dev\<lparr>item_cache := c\<rparr>" "slab_ok c" "x \<notin> inuse (item_cache dev)"
    "inuse c = insert x (inuse (item_cache dev))"
    "objs c = objs (item_cache dev) @ replicate (slab_growth ch) kgpu_request_item_constructor"
proof -
  obtain c where c: "slab_alloc ch (replicate (slab_growth ch) kgpu_request_item_constructor)
      (item_cache dev) = (Some x, c)" "dev' = dev\<lparr>item_cache := c\<rparr>"
    using assms(1) by (auto simp: alloc_item_def split: prod.splits)
  show thesis using that[OF c(2) slab_alloc_Some[OF c(1) assms(2)]] .
qed

lemma alloc_sync_data_Some:
  assumes "alloc_sync_data ch dev = (Some x, dev')" and "slab_ok (sync_cache dev)"
  obtains c where "dev' = dev\<lparr>sync_cache := c\<rparr>" "slab_ok c" "x \<notin> inuse (sync_cache dev)"
    "inuse c = insert x (inuse (sync_cache dev))"
    "objs c = objs (sync_cache dev) @ replicate (slab_growth ch) kgpu_sync_call_data_constructor"
proof -
  obtain c where c: "slab_alloc ch (replicate (slab_growth ch) kgpu_sync_call_data_constructor)
      (sync_cache dev) = (Some x, c)" "dev' = dev\<lparr>sync_cache := c\<rparr>"
    using assms(1) by (auto simp: alloc_sync_data_def split: prod.splits)
  show thesis using that[OF c(2) slab_alloc_Some[OF c(1) assms(2)]] .
qed

definition caches_ok :: "kgpu_dev \<Rightarrow> bool" where
  "caches_ok dev \<longleftrightarrow> slab_ok (request_cache dev) \<and> slab_ok (item_cache dev) \<and> slab_ok (sync_cache dev)"

text \<open>What the first half of a synchronous call leaves behind.\<close>

lemma call_sync_submit_ok:
  assumes ok: "caches_ok dev" and st: "dev_state dev \<noteq> KGPU_TERMINATED" and p: "p \<in> inuse (request_cache dev)"
    and d: "fst (alloc_sync_data chd dev) \<noteq> None" and x: "fst (alloc_item chi dev) \<noteq> None"
  shows "\<exists>d x ci cs. call_sync_submit chd chi (Some p) dev = Inr (Inr d,
      dev\<lparr>request_cache := (request_cache dev)\<lparr>objs := (objs (request_cache dev))[p :=
            (objs (request_cache dev) ! p)\<lparr>rq_kdata := KSync d, rq_callback := SyncCallback\<rparr>]\<rparr>,
          item_cache := ci, sync_cache := cs, reqs := reqs dev @ [x]\<rparr>) \<and>
    x \<notin> inuse (item_cache dev) \<and> inuse ci = insert x (inuse (item_cache dev)) \<and> slab_ok ci \<and>
    objs ci ! x = \<lparr>item_r = Some p\<rparr> \<and>
    (\<forall>y \<in> inuse (item_cache dev). objs ci ! y = objs (item_cache dev) ! y) \<and>
    d \<notin> inuse (sync_cache dev) \<and> inuse cs = insert d (inuse (sync_cache dev)) \<and> slab_ok cs \<and>
    objs cs ! d = \<lparr>oldkdata = rq_kdata (objs (request_cache dev) ! p),
      oldcallback = rq_callback (objs (request_cache dev) ! p), sync_done = 0\<rparr> \<and>
    (\<forall>y \<in> inuse (sync_cache dev). objs cs ! y = objs (sync_cache dev) ! y)"
proof -
  obtain d0 dev1 where d0: "alloc_sync_data chd dev = (Some d0, dev1)"
    using d by (cases "alloc_sync_data chd dev") auto
  obtain cs where cs: "dev1 = dev\<lparr>sync_cache := cs\<rparr>" "slab_ok cs" "d0 \<notin> inuse (sync_cache dev)"
    "inuse cs = insert d0 (inuse (sync_cache dev))"
    "objs cs = objs (sync_cache dev) @ replicate (slab_growth chd) kgpu_sync_call_data_constructor"
    using alloc_sync_data_Some[OF d0] ok by (auto simp: caches_ok_def)
  obtain x0 dev2 where x0: "alloc_item chi dev1 = (Some x0, dev2)"
    using x cs(1) by (cases "alloc_item chi dev1") (auto simp: alloc_item_def split: prod.splits)
  obtain ci where ci: "dev2 = dev1\<lparr>item_cache := ci\<rparr>" "slab_ok ci" "x0 \<notin> inuse (item_cache dev)"
    "inuse ci = insert x0 (inuse (item_cache dev))"
    "objs ci = objs (item_cache dev) @ replicate (slab_growth chi) kgpu_request_item_constructor"
    using alloc_item_Some[OF x0] ok cs(1) by (auto simp: caches_ok_def)
  let ?r = "objs (request_cache dev) ! p"
  let ?cs = "cs\<lparr>objs := (objs cs)[d0 :=
    \<lparr>oldkdata = rq_kdata ?r, oldcallback = rq_callback ?r, sync_done = 0\<rparr>]\<rparr>"
  let ?ci = "ci\<lparr>objs := (objs ci)[x0 := \<lparr>item_r = Some p\<rparr>]\<rparr>"
  have b: "d0 < length (objs cs)" "x0 < length (objs ci)" using cs ci slab_ok_bound by blast+
  have old: "\<forall>y \<in> inuse (item_cache dev). objs ?ci ! y = objs (item_cache dev) ! y"
    "\<forall>y \<in> inuse (sync_cache dev). objs ?cs ! y = objs (sync_cache dev) ! y"
    using ok slab_kept[OF _ cs(5,3)] slab_kept[OF _ ci(5,3)] by (simp_all add: caches_ok_def)
  show ?thesis
    using d0 x0 cs(1-4) ci(1-4) b old st p ok
    by (intro exI[of _ d0] exI[of _ x0] exI[of _ ?ci] exI[of _ ?cs])
      (simp add: call_sync_submit_def get_request_def put_request_def put_sync_data_def
        enqueue_item_def caches_ok_def)
qed


lemma remove1_last: "x \<notin> set xs \<Longrightarrow> remove1 x (xs @ [x]) = xs"
  by (simp add: remove1_append)

lemma find_item_congI:
  assumes "\<forall>x \<in> set xs. slab_get (Some x) (item_cache dev') = slab_get (Some x) (item_cache dev)"
    and "\<forall>q. map_sum (\<lambda>e. e) rq_id (get_request q dev') = map_sum (\<lambda>e. e) rq_id (get_request q dev)"
  shows "find_item dev' i xs = find_item dev i xs"
  using assms(1)
proof (induction xs)
  case (Cons x xs)
  then have ih: "find_item dev' i xs = find_item dev i xs" by simp
  have "andThen (get_request q dev') (\<lambda>r. if rq_id r = i then Inr (Some x) else find_item dev' i xs) =
      andThen (get_request q dev) (\<lambda>r. if rq_id r = i then Inr (Some x) else find_item dev i xs)" for q
    using assms(2)[rule_format, of q] ih by (cases "get_request q dev"; cases "get_request q dev'") auto
  then show ?case using Cons.prems by simp
qed simp

lemma find_item_append:
  "find_item dev i xs = Inr None \<Longrightarrow> find_item dev i (xs @ ys) = find_item dev i ys"
  by (induction xs) (auto simp: andThen_eq_Inr split: if_splits)

text \<open>
  One round of a helper: it reads a request from the device file and answers it with \<open>code\<close>.
\<close>

definition serve_one :: "client \<Rightarrow> int \<Rightarrow> kgpu_dev \<Rightarrow> fault + kgpu_dev" where
  "serve_one cb code dev =
     (case kgpu_read False False sizeof_ku_request 0 dev of
        Some (Inr (ret, Some ku, fpos, dev1)) \<Rightarrow>
          andThen (kgpu_write cb \<lparr>resp_id = ku_id ku, resp_errcode = code\<rparr> sizeof_ku_response 0 dev1)
            (\<lambda>(ret, fpos, dev2). Inr dev2)
      | Some (Inr (ret, None, fpos, dev1)) \<Rightarrow> Inr dev1
      | Some (Inl e) \<Rightarrow> Inl e
      | None \<Rightarrow> Inr dev)"

lemma sizeof_positive: "0 < sint sizeof_ku_request" "\<not> sizeof_ku_response < sizeof_ku_response"
  by (simp_all add: sizeof_ku_request_def sizeof_ku_response_def)

text \<open>A helper round on a device whose only queued item is \<open>x\<close>, with a request identifier not in use.\<close>

lemma serve_one_single:
  assumes q: "reqs dev = [x]" and ok: "slab_ok (item_cache dev)" "slab_ok (request_cache dev)"
    and x: "x \<in> inuse (item_cache dev)" "objs (item_cache dev) ! x = \<lparr>item_r = Some p\<rparr>"
    and p: "p \<in> inuse (request_cache dev)" and r: "objs (request_cache dev) ! p = r"
    and fresh: "x \<notin> set (rtdreqs dev)" "find_item dev (rq_id r) (rtdreqs dev) = Inr None"
  shows "serve_one cb code dev =
    andThen (invoke_callback cb (rq_callback r) (Some p)
      (dev\<lparr>reqs := [], request_cache := (request_cache dev)\<lparr>objs :=
         (objs (request_cache dev))[p := r\<lparr>rq_errcode := code\<rparr>]\<rparr>\<rparr>)) (\<lambda>dev3.
    andThen (slab_free x (item_cache dev3)) (\<lambda>c. Inr (dev3\<lparr>item_cache := c\<rparr>)))"
proof -
  let ?dev1 = "dev\<lparr>reqs := [], rtdreqs := rtdreqs dev @ [x]\<rparr>"
  have rd: "kgpu_read False False sizeof_ku_request 0 dev =
      Some (Inr (sint sizeof_ku_request, Some (fill_ku_request (gmpool dev) r), sizeof_ku_request, ?dev1))"
    using q ok x p r sizeof_positive by (simp add: kgpu_read_def get_request_def)
  have "find_item ?dev1 (rq_id r) (rtdreqs dev) = Inr None"
    using fresh(2) by (subst find_item_congI[of _ _ dev]) (simp_all add: get_request_def)
  then have "find_item ?dev1 (rq_id r) (rtdreqs dev @ [x]) = Inr (Some x)"
    using ok x p r by (simp add: find_item_append get_request_def)
  then have "find_request (rq_id r) True ?dev1 = Inr (Some x, dev\<lparr>reqs := []\<rparr>)"
    using fresh(1) by (simp add: find_request_def remove1_last)
  then show ?thesis
    using rd ok x p r sizeof_positive
    by (simp add: serve_one_def kgpu_write_def fill_ku_request_def get_request_def put_request_def andThen_assoc)
qed


section \<open>Properties\<close>

definition idle_dev :: kgpu_dev where
  "idle_dev = \<lparr>rid_sequence = 1, reqs = [], rtdreqs = [], gmpool = two_unit_pool, vm = empty_vma,
     dev_state = KGPU_OK, request_cache = \<lparr>objs = [zero_request\<lparr>rq_id := 1\<rparr>], inuse = {0}\<rparr>,
     item_cache = empty_slab, sync_cache = empty_slab, kgpudev_av = 0\<rparr>"

lemma idle_dev_caches [simp]: "caches_ok idle_dev"
  by (simp add: caches_ok_def idle_dev_def slab_ok_def empty_slab_def)

text \<open>
  C33: The identifiers that \<open>kgpu_next_request_id\<close> issues are never negative, and any \<open>2^31\<close> consecutive
  ones are pairwise different: the sequence restarts at 0 when \<open>int\<close> would overflow.
\<close>

theorem request_ids_distinct:
  assumes "unat (rid_sequence dev) < 2 ^ 31" and "n \<le> 2 ^ 31"
  shows "distinct (issued_ids n dev) \<and> set (issued_ids n dev) \<subseteq> {0 ..< 2 ^ 31}"
proof -
  let ?s = "int (unat (rid_sequence dev)) + 1"
  have "inj_on (\<lambda>k. (?s + int k) mod 2 ^ 31) {0 ..< n}"
  proof (rule inj_onI)
    fix j k assume b: "j \<in> {0 ..< n}" "k \<in> {0 ..< n}" and e: "(?s + int j) mod 2 ^ 31 = (?s + int k) mod 2 ^ 31"
    from e have "int j mod 2 ^ 31 = int k mod 2 ^ 31" unfolding mod_eq_dvd_iff by (simp add: algebra_simps)
    moreover have "int j < 2 ^ 31" "int k < 2 ^ 31" using b assms(2) by auto
    ultimately show "j = k" by simp
  qed
  then show ?thesis unfolding issued_ids_eq[OF assms(1)] by (auto simp: distinct_map)
qed

theorem request_ids_distinct_witness:
  "distinct (issued_ids 3 (idle_dev\<lparr>rid_sequence := 0x7FFFFFFE\<rparr>)) \<and>
   set (issued_ids 3 (idle_dev\<lparr>rid_sequence := 0x7FFFFFFE\<rparr>)) \<subseteq> {0 ..< 2 ^ 31}"
  by (rule request_ids_distinct) simp_all

text \<open>
  C14: A synchronous call on an idle device that the helper answers with \<open>code\<close> returns 0, leaves the
  request as it was except for \<open>errcode = code\<close> (the saved \<open>kdata\<close> and \<open>callback\<close> are back in place),
  both queues empty, and neither the item nor the call record allocated.
\<close>

theorem sync_call_completes:
  assumes ok: "caches_ok dev" and st: "dev_state dev \<noteq> KGPU_TERMINATED" and p: "p \<in> inuse (request_cache dev)"
    and d: "fst (alloc_sync_data chd dev) \<noteq> None" and x: "fst (alloc_item chi dev) \<noteq> None"
    and q: "reqs dev = []" "rtdreqs dev = []"
  shows "\<exists>dev'. kgpu_call_sync chd chi (serve_one cb code) signalled (Some p) dev = Some (Inr (0, dev')) \<and>
    request_cache dev' = (request_cache dev)\<lparr>objs := (objs (request_cache dev))[p :=
      (objs (request_cache dev) ! p)\<lparr>rq_errcode := code\<rparr>]\<rparr> \<and>
    reqs dev' = [] \<and> rtdreqs dev' = [] \<and> inuse (item_cache dev') = inuse (item_cache dev) \<and>
    inuse (sync_cache dev') = inuse (sync_cache dev)"
proof -
  let ?rc = "request_cache dev" and ?r = "objs (request_cache dev) ! p"
  obtain d x ci cs where s: "call_sync_submit chd chi (Some p) dev = Inr (Inr d,
      dev\<lparr>request_cache := ?rc\<lparr>objs := (objs ?rc)[p := ?r\<lparr>rq_kdata := KSync d, rq_callback := SyncCallback\<rparr>]\<rparr>,
          item_cache := ci, sync_cache := cs, reqs := reqs dev @ [x]\<rparr>)"
    and ci: "x \<notin> inuse (item_cache dev)" "inuse ci = insert x (inuse (item_cache dev))" "slab_ok ci"
    "objs ci ! x = \<lparr>item_r = Some p\<rparr>"
    and cs: "d \<notin> inuse (sync_cache dev)" "inuse cs = insert d (inuse (sync_cache dev))" "slab_ok cs"
    "objs cs ! d = \<lparr>oldkdata = rq_kdata ?r, oldcallback = rq_callback ?r, sync_done = 0\<rparr>"
    using call_sync_submit_ok[OF ok st p d x] by blast
  have l: "p < length (objs ?rc)" "slab_ok ?rc" "d < length (objs cs)"
    using ok p cs slab_ok_bound by (auto simp: caches_ok_def)
  define r' where "r' = ?r\<lparr>rq_kdata := KSync d, rq_callback := SyncCallback\<rparr>"
  let ?dev1 = "dev\<lparr>request_cache := ?rc\<lparr>objs := (objs ?rc)[p := r']\<rparr>, item_cache := ci, sync_cache := cs,
    reqs := [x]\<rparr>"
  let ?dev2 = "dev\<lparr>request_cache := ?rc\<lparr>objs := (objs ?rc)[p := r'\<lparr>rq_errcode := code\<rparr>]\<rparr>,
    item_cache := ci\<lparr>inuse := inuse ci - {x}\<rparr>,
    sync_cache := cs\<lparr>objs := (objs cs)[d := (objs cs ! d)\<lparr>sync_done := 1\<rparr>]\<rparr>, reqs := []\<rparr>"
  have sv: "serve_one cb code ?dev1 = Inr ?dev2"
    using ci cs p q l
    by (subst serve_one_single[where p = p and r = r' and x = x])
      (simp_all add: invoke_callback_def sync_callback_def get_request_def put_sync_data_def r'_def)
  have "kgpu_call_sync chd chi (serve_one cb code) signalled (Some p) dev =
      Some (call_sync_finish d (Some p) ?dev2)"
    using s sv cs l q by (simp add: kgpu_call_sync_def r'_def)
  moreover have "call_sync_finish d (Some p) ?dev2 =
      Inr (0, ?dev2\<lparr>request_cache := ?rc\<lparr>objs := (objs ?rc)[p := ?r\<lparr>rq_errcode := code\<rparr>]\<rparr>,
        sync_cache := cs\<lparr>objs := (objs cs)[d := (objs cs ! d)\<lparr>sync_done := 1\<rparr>], inuse := inuse cs - {d}\<rparr>\<rparr>)"
    using cs l p by (simp add: call_sync_finish_def get_request_def put_request_def r'_def)
  ultimately show ?thesis using ci cs q by auto
qed


theorem sync_call_completes_witness:
  "\<exists>dev'. kgpu_call_sync (Grow 2) (Grow 1) (serve_one (\<lambda>k q dev. Inr dev) KGPU_NO_SERVICE) False (Some 0) idle_dev =
      Some (Inr (0, dev')) \<and>
    request_cache dev' = (request_cache idle_dev)\<lparr>objs := (objs (request_cache idle_dev))[0 :=
      (objs (request_cache idle_dev) ! 0)\<lparr>rq_errcode := KGPU_NO_SERVICE\<rparr>]\<rparr> \<and>
    reqs dev' = [] \<and> rtdreqs dev' = [] \<and> inuse (item_cache dev') = inuse (item_cache idle_dev) \<and>
    inuse (sync_cache dev') = inuse (sync_cache idle_dev)"
  by (rule sync_call_completes)
    (simp_all add: alloc_sync_data_def alloc_item_def slab_alloc_def slab_growth_def Let_def,
     simp_all add: idle_dev_def KGPU_OK_def KGPU_TERMINATED_def)

text \<open>
  C35: A synchronous call that a signal interrupts returns 0 although nothing has been computed, with the
  client's own callback put back while the item is still queued. When the client set no callback, the
  helper's answer then makes \<open>kgpu_write\<close> call through a null pointer.
\<close>

theorem interrupted_sync_call_faults:
  assumes ok: "caches_ok dev" and st: "dev_state dev \<noteq> KGPU_TERMINATED" and p: "p \<in> inuse (request_cache dev)"
    and d: "fst (alloc_sync_data chd dev) \<noteq> None" and x: "fst (alloc_item chi dev) \<noteq> None"
    and q: "reqs dev = []" "rtdreqs dev = []"
    and cb: "rq_callback (objs (request_cache dev) ! p) = NullCallback"
  shows "\<exists>dev'. kgpu_call_sync chd chi Inr True (Some p) dev = Some (Inr (0, dev')) \<and>
    request_cache dev' = request_cache dev \<and> length (reqs dev') = 1 \<and>
    serve_one client code dev' = Inl NullDeref"
proof -
  let ?rc = "request_cache dev" and ?r = "objs (request_cache dev) ! p"
  obtain d x ci cs where s: "call_sync_submit chd chi (Some p) dev = Inr (Inr d,
      dev\<lparr>request_cache := ?rc\<lparr>objs := (objs ?rc)[p := ?r\<lparr>rq_kdata := KSync d, rq_callback := SyncCallback\<rparr>]\<rparr>,
          item_cache := ci, sync_cache := cs, reqs := reqs dev @ [x]\<rparr>)"
    and ci: "inuse ci = insert x (inuse (item_cache dev))" "slab_ok ci" "objs ci ! x = \<lparr>item_r = Some p\<rparr>"
    and cs: "d \<notin> inuse (sync_cache dev)" "inuse cs = insert d (inuse (sync_cache dev))" "slab_ok cs"
    "objs cs ! d = \<lparr>oldkdata = rq_kdata ?r, oldcallback = rq_callback ?r, sync_done = 0\<rparr>"
    using call_sync_submit_ok[OF ok st p d x] by blast
  have l: "p < length (objs ?rc)" "slab_ok ?rc" using ok p slab_ok_bound by (auto simp: caches_ok_def)
  let ?dev' = "dev\<lparr>item_cache := ci, sync_cache := cs\<lparr>inuse := inuse cs - {d}\<rparr>, reqs := [x]\<rparr>"
  have "kgpu_call_sync chd chi Inr True (Some p) dev = Some (Inr (0, ?dev'))"
    using s cs l p q by (simp add: kgpu_call_sync_def call_sync_finish_def get_request_def put_request_def)
  moreover have "serve_one client code ?dev' = Inl NullDeref"
    using ci p q l cb
    by (subst serve_one_single[where p = p and r = ?r and x = x]) (simp_all add: invoke_callback_def)
  ultimately show ?thesis by (intro exI[of _ ?dev']) simp
qed

theorem interrupted_sync_call_faults_witness:
  "\<exists>dev'. kgpu_call_sync (Grow 2) (Grow 1) Inr True (Some 0) idle_dev = Some (Inr (0, dev')) \<and>
    request_cache dev' = request_cache idle_dev \<and> length (reqs dev') = 1 \<and>
    serve_one (\<lambda>k q dev. Inr dev) KGPU_OK dev' = Inl NullDeref"
  by (rule interrupted_sync_call_faults)
    (simp_all add: alloc_sync_data_def alloc_item_def slab_alloc_def slab_growth_def Let_def,
     simp_all add: idle_dev_def KGPU_OK_def KGPU_TERMINATED_def zero_request_def)

text \<open>
  C34: An address inside the pool as the kernel sees it (\<open>kva\<close>) reaches the helper as the address of the
  same byte in the helper's mapping (\<open>uva\<close>), for each of the three buffers of a request; an address outside
  is passed on as it is. The sizes, the identifier and the service name are copied. The pool is below
  4 GiB: \<open>npages << PAGE_SHIFT\<close> is computed in 32 bits.
\<close>

theorem request_addresses_translated:
  assumes "unat (npages gm) < 2 ^ 20" and "unat (kva gm) + unat (npages gm) * 4096 < 2 ^ 64"
  shows "let inside = (\<lambda>a. unat (kva gm) \<le> unat a \<and> unat a < unat (kva gm) + unat (npages gm) * 4096);
             tr = (\<lambda>a. if inside a then uva gm + of_nat (unat a - unat (kva gm)) else a);
             ku = fill_ku_request gm r in
    ku_in ku = tr (rq_in r) \<and> ku_out ku = tr (rq_out r) \<and> ku_data ku = tr (rq_udata r) \<and>
    ku_insize ku = rq_insize r \<and> ku_outsize ku = rq_outsize r \<and> ku_datasize ku = rq_udatasize r \<and>
    ku_id ku = rq_id r \<and> ku_service_name ku = take 32 (rq_service_name r)"
proof -
  have "unat (push_bit 12 (npages gm)) = unat (npages gm) * 4096"
    using assms(1) by (simp add: push_bit_eq_mult unat_mult_small)
  then have sz: "unat (pages_to_bytes (npages gm)) = unat (npages gm) * 4096"
    by (simp add: pages_to_bytes_def kgpu_consts)
  then have "unat (kva gm + pages_to_bytes (npages gm)) = unat (kva gm) + unat (npages gm) * 4096"
    using assms(2) by (subst unat_add_small) simp_all
  then have w: "ADDR_WITHIN a (kva gm) (pages_to_bytes (npages gm)) \<longleftrightarrow>
      unat (kva gm) \<le> unat a \<and> unat a < unat (kva gm) + unat (npages gm) * 4096" for a
    by (simp add: ADDR_WITHIN_def word_le_nat_alt word_less_nat_alt)
  have "unat (kva gm) \<le> unat a \<Longrightarrow> a - kva gm = of_nat (unat a - unat (kva gm))" for a
    by (simp add: of_nat_diff)
  then have "to_user gm a = (if unat (kva gm) \<le> unat a \<and> unat a < unat (kva gm) + unat (npages gm) * 4096
      then uva gm + of_nat (unat a - unat (kva gm)) else a)" for a
    by (simp add: to_user_def w ADDR_REBASE_def)
  then show ?thesis by (simp add: fill_ku_request_def Let_def KGPU_SERVICE_NAME_SIZE_def)
qed

theorem request_addresses_translated_witness:
  "ku_in (fill_ku_request (two_unit_pool\<lparr>kva := 0x10000000, uva := 0x7000, npages := 512\<rparr>)
     (zero_request\<lparr>rq_in := 0x10000010\<rparr>)) = 0x7010"
  using request_addresses_translated[of "two_unit_pool\<lparr>kva := 0x10000000, uva := 0x7000, npages := 512\<rparr>"
      "zero_request\<lparr>rq_in := 0x10000010\<rparr>"]
  by (simp add: Let_def)

text \<open>
  A \<open>read\<close> of 0 bytes takes the first request off the queue, copies it to the buffer all the same and
  forgets it: it is on neither queue, so no response can complete it, and its item stays allocated.
\<close>

theorem read_of_zero_bytes_loses_request:
  assumes "reqs dev = x # xs" and "caches_ok dev" and "x \<in> inuse (item_cache dev)" and "x \<notin> set (xs @ rtdreqs dev)"
    and "item_r (objs (item_cache dev) ! x) = Some p" and "p \<in> inuse (request_cache dev)"
  shows "\<exists>ku dev'. kgpu_read nonblock signalled 0 fpos dev = Some (Inr (0, Some ku, fpos, dev')) \<and>
    x \<notin> set (reqs dev' @ rtdreqs dev') \<and> x \<in> inuse (item_cache dev')"
  using assms by (auto simp: kgpu_read_def caches_ok_def get_request_def)

theorem read_of_zero_bytes_loses_request_witness:
  "\<exists>ku dev'. kgpu_read True False 0 0 (idle_dev\<lparr>reqs := [0], item_cache := \<lparr>objs = [\<lparr>item_r = Some 0\<rparr>], inuse = {0}\<rparr>\<rparr>) =
      Some (Inr (0, Some ku, 0, dev')) \<and> 0 \<notin> set (reqs dev' @ rtdreqs dev') \<and> 0 \<in> inuse (item_cache dev')"
  by (rule read_of_zero_bytes_loses_request[where xs = "[]" and p = 0])
    (simp_all add: caches_ok_def idle_dev_def slab_ok_def empty_slab_def)

end
