(* ===== verification/Chardev.thy ===== *)
theory Chardev
  imports Device
begin

text \<open>
  The character device around the request path (\<^verbatim>\<open>kgpu/src/kernelSpace/main.c\<close>): \<open>kgpu_ioctl\<close> with
  \<open>terminate_all_requests\<close> and \<open>dump_gpu_bufs\<close>, \<open>kgpu_open\<close> and \<open>kgpu_release\<close> (as functions, and
  as a step relation at the granularity of their atomic operations), \<open>kgpu_init\<close> and \<open>kgpu_cleanup\<close>.
\<close>

section \<open>ioctl\<close>

text \<open>The command encoding of \<^verbatim>\<open>linux/ioctl.h\<close>: direction, size, type and number.\<close>

definition IOC :: "u32 \<Rightarrow> u32 \<Rightarrow> u32 \<Rightarrow> u32 \<Rightarrow> u32" where
  "IOC dir type nr sz = push_bit 30 dir OR push_bit 8 type OR nr OR push_bit 16 sz"

definition IOC_DIR :: "u32 \<Rightarrow> u32" where "IOC_DIR cmd = drop_bit 30 cmd AND 3"

definition IOC_TYPE :: "u32 \<Rightarrow> u32" where "IOC_TYPE cmd = drop_bit 8 cmd AND 0xFF"

definition IOC_NR :: "u32 \<Rightarrow> u32" where "IOC_NR cmd = cmd AND 0xFF"

definition IOC_SIZE :: "u32 \<Rightarrow> u32" where "IOC_SIZE cmd = drop_bit 16 cmd AND 0x3FFF"

definition IOC_WRITE :: u32 where "IOC_WRITE = 1"

definition IOC_READ :: u32 where "IOC_READ = 2"

definition KGPU_IOC_MAGIC :: u32 where "KGPU_IOC_MAGIC = 0x67"

definition sizeof_gpu_mem_info :: u32 where "sizeof_gpu_mem_info = 16"

definition KGPU_IOC_SET_GPU_BUFS :: u32 where
  "KGPU_IOC_SET_GPU_BUFS = IOC IOC_WRITE KGPU_IOC_MAGIC 1 sizeof_gpu_mem_info"

definition KGPU_IOC_GET_GPU_BUFS :: u32 where
  "KGPU_IOC_GET_GPU_BUFS = IOC IOC_READ KGPU_IOC_MAGIC 2 sizeof_gpu_mem_info"

definition KGPU_IOC_SET_STOP :: u32 where
  "KGPU_IOC_SET_STOP = IOC 0 KGPU_IOC_MAGIC 3 0"

definition KGPU_IOC_MAXNR :: u32 where "KGPU_IOC_MAXNR = 4"

definition dump_gpu_bufs :: "ulong \<Rightarrow> kgpu_dev \<Rightarrow> int \<times> kgpu_dev" where
  "dump_gpu_bufs buf dev = (0, dev)"

definition terminate_all_requests :: "kgpu_dev \<Rightarrow> int \<times> kgpu_dev" where
  "terminate_all_requests dev = (0, dev\<lparr>dev_state := KGPU_TERMINATED\<rparr>)"

text \<open>
  \<open>access_ok\<close> (the Boolean is \<open>VERIFY_WRITE\<close>) and what \<open>copy_from_user\<close> finds at an address are
  parameters.
\<close>

record user_env =
  access_ok :: "bool \<Rightarrow> ulong \<Rightarrow> u32 \<Rightarrow> bool"
  user_mem_info :: "ulong \<Rightarrow> kgpu_gpu_mem_info"

definition kgpu_ioctl :: "bitmap_ops \<Rightarrow> pool_env \<Rightarrow> user_env \<Rightarrow> u32 \<Rightarrow> ulong \<Rightarrow> kgpu_dev \<Rightarrow>
  fault + (int \<times> kgpu_dev)" where
  "kgpu_ioctl bm env usr cmd arg dev =
     (if IOC_TYPE cmd \<noteq> KGPU_IOC_MAGIC then Inr (- ENOTTY, dev)
      else if IOC_NR cmd > KGPU_IOC_MAXNR then Inr (- ENOTTY, dev)
      else if (if IOC_DIR cmd AND IOC_READ \<noteq> 0 then \<not> access_ok usr True arg (IOC_SIZE cmd)
               else if IOC_DIR cmd AND IOC_WRITE \<noteq> 0 then \<not> access_ok usr False arg (IOC_SIZE cmd)
               else False)
      then Inr (- EFAULT, dev)
      else if cmd = KGPU_IOC_SET_GPU_BUFS then
        let gb = user_mem_info usr arg in
        andThen (set_gpu_mempool bm env (mi_uva gb) (mi_size gb) (gmpool dev)) (\<lambda>(err, gm).
        Inr (err, dev\<lparr>gmpool := gm\<rparr>))
      else if cmd = KGPU_IOC_GET_GPU_BUFS then Inr (dump_gpu_bufs arg dev)
      else if cmd = KGPU_IOC_SET_STOP then Inr (terminate_all_requests dev)
      else Inr (- ENOTTY, dev))"

section \<open>Opening and releasing the device\<close>

definition kgpu_open :: "kgpu_dev \<Rightarrow> int \<times> kgpu_dev" where
  "kgpu_open dev =
     (let dev1 = dev\<lparr>kgpudev_av := kgpudev_av dev - 1\<rparr> in
      if kgpudev_av dev1 \<noteq> 0
      then (- EBUSY, dev1\<lparr>kgpudev_av := kgpudev_av dev1 + 1\<rparr>)
      else (0, dev1))"

definition kgpu_release :: "kgpu_dev \<Rightarrow> int \<times> kgpu_dev" where
  "kgpu_release dev = (0, dev\<lparr>kgpudev_av := 1\<rparr>)"

text \<open>
  The same code with other processes in between: \<open>atomic_dec_and_test\<close>, \<open>atomic_inc\<close> and \<open>atomic_set\<close>
  are the steps. A process has no file open, has seen the device busy and is about to increment the
  counter again, or owns the device.
\<close>

datatype open_pc = Closed | BackingOff | Owner

record open_state =
  av :: int
  pcs :: "nat \<Rightarrow> open_pc"

datatype open_event = DecTest nat | Inc nat | Release nat

inductive open_step :: "open_state \<Rightarrow> open_event \<Rightarrow> open_state \<Rightarrow> bool" where
  dec_zero: "pcs s i = Closed \<Longrightarrow> av s - 1 = 0 \<Longrightarrow>
    open_step s (DecTest i) (s\<lparr>av := av s - 1, pcs := (pcs s)(i := Owner)\<rparr>)"
| dec_busy: "pcs s i = Closed \<Longrightarrow> av s - 1 \<noteq> 0 \<Longrightarrow>
    open_step s (DecTest i) (s\<lparr>av := av s - 1, pcs := (pcs s)(i := BackingOff)\<rparr>)"
| inc: "pcs s i = BackingOff \<Longrightarrow>
    open_step s (Inc i) (s\<lparr>av := av s + 1, pcs := (pcs s)(i := Closed)\<rparr>)"
| release: "pcs s i = Owner \<Longrightarrow>
    open_step s (Release i) (s\<lparr>av := 1, pcs := (pcs s)(i := Closed)\<rparr>)"


inductive_simps open_step_simps: "open_step s (DecTest i) s'" "open_step s (Inc i) s'" "open_step s (Release i) s'"

inductive open_run :: "(open_state \<Rightarrow> open_event \<Rightarrow> bool) \<Rightarrow> open_state \<Rightarrow> open_event list \<Rightarrow> open_state \<Rightarrow> bool"
  for guard where
  run_nil: "open_run guard s [] s"
| run_cons: "open_step s e s' \<Longrightarrow> guard s e \<Longrightarrow> open_run guard s' es s'' \<Longrightarrow> open_run guard s (e # es) s''"

inductive_simps open_run_Nil: "open_run guard s [] s'"
inductive_simps open_run_Cons: "open_run guard s (e # es) s'"

lemmas open_run_simps = open_run_Nil open_run_Cons open_step_simps

definition closed_device :: open_state where
  "closed_device = \<lparr>av = 1, pcs = (\<lambda>_. Closed)\<rparr>"

section \<open>Loading and unloading the module\<close>

datatype resource = RequestCache | ItemCache | SyncDataCache | DevClass | ChrdevRegion | CharDevice | DeviceNode

record init_env =
  request_cache_ok :: bool
  item_cache_ok :: bool
  sync_cache_ok :: bool
  class_result :: int
  chrdev_result :: int
  cdev_result :: int
  device_result :: int

definition all_succeed :: init_env where
  "all_succeed = \<lparr>request_cache_ok = True, item_cache_ok = True, sync_cache_ok = True, class_result = 0,
     chrdev_result = 0, cdev_result = 0, device_result = 0\<rparr>"

text \<open>
  \<open>kgpu_init\<close> with the outcomes of the calls it makes (negative: an error); the second result lists what
  it has acquired and not given back. \<open>kgpudev_av\<close> is initialised statically.
\<close>

definition kgpu_init :: "init_env \<Rightarrow> kgpu_dev \<Rightarrow> int \<times> resource list \<times> kgpu_dev" where
  "kgpu_init env dev =
     (let dev0 = dev\<lparr>dev_state := KGPU_OK, reqs := [], rtdreqs := [], vm := empty_vma, rid_sequence := 0\<rparr> in
      if \<not> request_cache_ok env then (- EFAULT, [], dev0)
      else if \<not> item_cache_ok env then (- EFAULT, removeAll RequestCache [RequestCache], dev0)
      else if \<not> sync_cache_ok env
      then (- EFAULT, removeAll ItemCache (removeAll RequestCache [RequestCache, ItemCache]), dev0)
      else
        let dev1 = dev0\<lparr>request_cache := empty_slab, item_cache := empty_slab, sync_cache := empty_slab,
                        gmpool := empty_mempool\<rparr>;
            res1 = [RequestCache, ItemCache, SyncDataCache] in
        if class_result env < 0 then (class_result env, res1, dev1)
        else
          let res2 = res1 @ [DevClass] in
          if chrdev_result env < 0 then (chrdev_result env, res2, dev1)
          else
            let res3 = res2 @ [ChrdevRegion] @ (if cdev_result env = 0 then [CharDevice] else []) in
            if device_result env < 0 then (device_result env, res3, dev1)
            else (cdev_result env, res3 @ [DeviceNode], dev1))"

text \<open>
  \<open>kgpu_cleanup\<close> gives back the device node, the character device, the class, the region, the caches
  that exist, and the arrays of the pool and of the window.
\<close>

definition kgpu_cleanup :: "resource list \<Rightarrow> kgpu_dev \<Rightarrow>
  resource list \<times> pool_object list \<times> vma_object list \<times> kgpu_dev" where
  "kgpu_cleanup res dev =
     (let dev1 = dev\<lparr>dev_state := KGPU_TERMINATED\<rparr>;
          res' = removeAll SyncDataCache (removeAll ItemCache (removeAll RequestCache
            (removeAll ChrdevRegion (removeAll DevClass (removeAll CharDevice (removeAll DeviceNode res))))));
          (freed, gm) = clear_gpu_mempool (gmpool dev1);
          (vfreed, v) = clean_vm (vm dev1) in
      (res', freed, vfreed, dev1\<lparr>gmpool := gm, vm := v\<rparr>))"

section \<open>Lemmas\<close>

lemma ioc_values [kgpu_consts]:
  "KGPU_IOC_SET_GPU_BUFS = 0x40106701" "KGPU_IOC_GET_GPU_BUFS = 0x80106702" "KGPU_IOC_SET_STOP = 0x6703"
  by code_simp+

lemma ioc_fields:
  "IOC_TYPE 0x40106701 = 0x67" "IOC_NR 0x40106701 = 1" "IOC_DIR 0x40106701 = 1" "IOC_SIZE 0x40106701 = 16"
  "IOC_TYPE 0x80106702 = 0x67" "IOC_NR 0x80106702 = 2" "IOC_DIR 0x80106702 = 2" "IOC_SIZE 0x80106702 = 16"
  "IOC_TYPE 0x6703 = 0x67" "IOC_NR 0x6703 = 3" "IOC_DIR 0x6703 = 0" "IOC_SIZE 0x6703 = 0"
  by code_simp+

definition in_pc :: "open_state \<Rightarrow> open_pc \<Rightarrow> nat set" where
  "in_pc s c = {i. pcs s i = c}"

definition calm :: "open_state \<Rightarrow> open_event \<Rightarrow> bool" where
  "calm s e \<longleftrightarrow> (case e of Release i \<Rightarrow> \<forall>j. pcs s j \<noteq> BackingOff | _ \<Rightarrow> True)"

definition open_inv :: "open_state \<Rightarrow> bool" where
  "open_inv s \<longleftrightarrow> finite (in_pc s Owner) \<and> finite (in_pc s BackingOff) \<and>
     av s = 1 - int (card (in_pc s Owner)) - int (card (in_pc s BackingOff)) \<and> card (in_pc s Owner) \<le> 1"

lemma in_pc_update:
  "in_pc (s\<lparr>av := a, pcs := (pcs s)(i := c)\<rparr>) c' = (if c = c' then insert i (in_pc s c') else in_pc s c' - {i})"
  by (auto simp: in_pc_def)

lemma open_inv_step:
  assumes "open_step s e s'" and "calm s e" and "open_inv s"
  shows "open_inv s'"
  using assms
proof (cases rule: open_step.cases)
  case (dec_zero i)
  have "card (in_pc s Owner) = 0" "card (in_pc s BackingOff) = 0"
    using dec_zero(4) assms(3) by (auto simp: open_inv_def)
  then have "in_pc s Owner = {}" "in_pc s BackingOff = {}" using assms(3) by (auto simp: open_inv_def)
  then show ?thesis using dec_zero by (simp add: open_inv_def in_pc_update)
next
  case (dec_busy i)
  then have "i \<notin> in_pc s Owner" "i \<notin> in_pc s BackingOff" by (auto simp: in_pc_def)
  then show ?thesis using dec_busy assms(3) by (simp add: open_inv_def in_pc_update)
next
  case (inc i)
  then have "i \<notin> in_pc s Owner" "i \<in> in_pc s BackingOff" by (auto simp: in_pc_def)
  moreover have "card (in_pc s BackingOff) = Suc (card (in_pc s BackingOff - {i}))"
    using calculation(2) assms(3) by (simp add: open_inv_def card_Suc_Diff1 del: card_Diff_insert)
  ultimately show ?thesis using inc assms(3) by (simp add: open_inv_def in_pc_update del: card_Diff_insert)
next
  case (release i)
  then have b: "in_pc s BackingOff = {}" using assms(2) by (auto simp: calm_def in_pc_def)
  have i: "i \<in> in_pc s Owner" using release by (auto simp: in_pc_def)
  then have "in_pc s Owner = {i}" using assms(3) by (auto simp: open_inv_def card_le_Suc0_iff_eq)
  then show ?thesis using release b by (simp add: open_inv_def in_pc_update)
qed

lemma open_inv_run: "open_run calm s es s' \<Longrightarrow> open_inv s \<Longrightarrow> open_inv s'"
  by (induction rule: open_run.induct) (auto intro: open_inv_step)


section \<open>Properties\<close>

text \<open>
  \<open>kgpu_ioctl\<close> case by case: \<open>SET_STOP\<close> terminates the device and does nothing else, \<open>SET_GPU_BUFS\<close>
  with an accessible argument runs \<open>set_gpu_mempool\<close> on what it points to, \<open>GET_GPU_BUFS\<close> with an
  accessible argument succeeds without doing anything, and every other command is refused and leaves the
  device as it is.
\<close>

theorem ioctl_dispatch:
  "kgpu_ioctl bm env usr cmd arg dev =
     (if cmd = KGPU_IOC_SET_STOP then Inr (0, dev\<lparr>dev_state := KGPU_TERMINATED\<rparr>)
      else if cmd = KGPU_IOC_SET_GPU_BUFS \<and> access_ok usr False arg 16 then
        andThen (set_gpu_mempool bm env (mi_uva (user_mem_info usr arg)) (mi_size (user_mem_info usr arg))
          (gmpool dev)) (\<lambda>(err, gm). Inr (err, dev\<lparr>gmpool := gm\<rparr>))
      else if cmd = KGPU_IOC_GET_GPU_BUFS \<and> access_ok usr True arg 16 then Inr (0, dev)
      else if IOC_TYPE cmd = KGPU_IOC_MAGIC \<and> IOC_NR cmd \<le> KGPU_IOC_MAXNR \<and>
        (if IOC_DIR cmd AND IOC_READ \<noteq> 0 then \<not> access_ok usr True arg (IOC_SIZE cmd)
         else IOC_DIR cmd AND IOC_WRITE \<noteq> 0 \<and> \<not> access_ok usr False arg (IOC_SIZE cmd))
      then Inr (- EFAULT, dev)
      else Inr (- ENOTTY, dev))"
proof -
  have bits: "(1 :: u32) AND 2 = 0" "(2 :: u32) AND 2 = 2" "(1 :: u32) AND 1 = 1" by code_simp+
  consider (stop) "cmd = 0x6703" | (set) "cmd = 0x40106701" | (get) "cmd = 0x80106702"
    | (other) "cmd \<noteq> 0x6703 \<and> cmd \<noteq> 0x40106701 \<and> cmd \<noteq> 0x80106702" by blast
  then show ?thesis
    by cases
      (auto simp: kgpu_ioctl_def kgpu_consts ioc_fields bits KGPU_IOC_MAGIC_def KGPU_IOC_MAXNR_def
        IOC_READ_def IOC_WRITE_def terminate_all_requests_def dump_gpu_bufs_def Let_def)
qed

text \<open>
  C36: Once the device is stopped no call is accepted: \<open>kgpu_call_async\<close> and \<open>kgpu_call_sync\<close> return
  \<open>KGPU_TERMINATED\<close> and change nothing, whatever the request and the state of the caches. Requests that were
  queued before stay queued: no error code is set and no callback runs.
\<close>

theorem stop_rejects_calls:
  "\<exists>dev'. kgpu_ioctl bm env usr KGPU_IOC_SET_STOP arg dev = Inr (0, dev') \<and>
    kgpu_call_async chi req dev' = Inr (KGPU_TERMINATED, dev') \<and>
    kgpu_call_sync chd chi others signalled req dev' = Some (Inr (KGPU_TERMINATED, dev')) \<and>
    reqs dev' = reqs dev \<and> rtdreqs dev' = rtdreqs dev \<and> request_cache dev' = request_cache dev \<and>
    sync_cache dev' = sync_cache dev"
  by (intro exI[of _ "dev\<lparr>dev_state := KGPU_TERMINATED\<rparr>"])
    (simp add: kgpu_ioctl_def kgpu_consts ioc_fields KGPU_IOC_MAGIC_def KGPU_IOC_MAXNR_def
      terminate_all_requests_def kgpu_call_async_def kgpu_call_sync_def call_sync_submit_def)

text \<open>
  C37: However the atomic steps of \<open>kgpu_open\<close> and \<open>kgpu_release\<close> of any number of processes interleave,
  the device has at most one owner, as long as no process releases it while another one is between the
  decrement and the increment of a refused \<open>kgpu_open\<close>.
\<close>

theorem open_exclusive:
  assumes "open_run calm closed_device es s"
  shows "finite {i. pcs s i = Owner} \<and> card {i. pcs s i = Owner} \<le> 1"
proof -
  have "open_inv closed_device" by (simp add: open_inv_def closed_device_def in_pc_def)
  then have "open_inv s" using open_inv_run[OF assms] by blast
  then show ?thesis by (simp add: open_inv_def in_pc_def)
qed

theorem open_exclusive_witness:
  "\<exists>s. open_run calm closed_device [DecTest 0, DecTest 1, Inc 1, Release 0, DecTest 1] s \<and> pcs s 1 = Owner \<and>
    card {i. pcs s i = Owner} \<le> 1"
proof -
  obtain s where "open_run calm closed_device [DecTest 0, DecTest 1, Inc 1, Release 0, DecTest 1] s" "pcs s 1 = Owner"
    by (simp add: open_run_simps closed_device_def calm_def)
  then show ?thesis using open_exclusive by blast
qed


text \<open>
  When every call of \<open>kgpu_init\<close> succeeds the module holds all seven resources, both queues are empty
  and the state is \<open>KGPU_OK\<close>, and \<open>kgpu_cleanup\<close> gives all of them back. When the class cannot be created
  loading fails with its error, but the three caches stay allocated.
\<close>

theorem init_and_cleanup:
  "(\<exists>res dev'. kgpu_init all_succeed dev = (0, res, dev') \<and> set res = UNIV \<and> dev_state dev' = KGPU_OK \<and>
      reqs dev' = [] \<and> rtdreqs dev' = [] \<and> gmpool dev' = empty_mempool \<and> fst (kgpu_cleanup res dev') = []) \<and>
   (\<exists>dev'. kgpu_init (all_succeed\<lparr>class_result := - ENOMEM\<rparr>) dev =
      (- ENOMEM, [RequestCache, ItemCache, SyncDataCache], dev'))"
proof -
  have "r \<in> {RequestCache, ItemCache, SyncDataCache, DevClass, ChrdevRegion, CharDevice, DeviceNode}" for r
    by (cases r) auto
  then have "{RequestCache, ItemCache, SyncDataCache, DevClass, ChrdevRegion, CharDevice, DeviceNode} = UNIV"
    by blast
  then show ?thesis
    by (simp add: kgpu_init_def kgpu_cleanup_def all_succeed_def errno_defs split: prod.splits)
qed

end
