(* ===== verification/Requests.thy ===== *)
theory Requests
  imports Chardev "HOL-Library.Multiset"
begin

text \<open>
  The life of requests in the kernel module: an invariant of the device that covers the two queues, the
  caches, the records of synchronous calls and the buffer pool; the steps that kernel clients, the helper
  and the administrator can take, in any order; and the contract of a client's callback, discharged for the
  callback of the test client \<^verbatim>\<open>services/test/callgpu/callgpu.c\<close>.
\<close>

section \<open>Invariant\<close>

text \<open>
  Every queued item is allocated and refers to a request in use that has a callback, and no two items refer
  to the same request. A request whose callback is \<open>sync_callback\<close> owns the call record it points to. The buffer pool
  and the device window satisfy their invariants.
\<close>

definition queue_inv :: "nat list \<Rightarrow> kgpu_request_item slab \<Rightarrow> kgpu_request slab \<Rightarrow> bool" where
  "queue_inv q ic rc \<longleftrightarrow> distinct q \<and> inj_on (\<lambda>x. item_r (objs ic ! x)) (set q) \<and>
     (\<forall>x \<in> set q. x \<in> inuse ic \<and>
        (\<exists>p. item_r (objs ic ! x) = Some p \<and> p \<in> inuse rc \<and> rq_callback (objs rc ! p) \<noteq> NullCallback))"

definition sync_at :: "kgpu_request slab \<Rightarrow> nat \<rightharpoonup> kdata_ptr" where
  "sync_at rc p =
     (if p < length (objs rc) \<and> rq_callback (objs rc ! p) = SyncCallback
      then Some (rq_kdata (objs rc ! p)) else None)"

definition call_record :: "kgpu_sync_call_data slab \<Rightarrow> kdata_ptr \<Rightarrow> bool" where
  "call_record sc k \<longleftrightarrow> (\<exists>d \<in> inuse sc. k = KSync d \<and> oldcallback (objs sc ! d) \<noteq> SyncCallback)"

definition sync_inv :: "kgpu_request slab \<Rightarrow> kgpu_sync_call_data slab \<Rightarrow> bool" where
  "sync_inv rc sc \<longleftrightarrow>
     (\<forall>p k. sync_at rc p = Some k \<longrightarrow> p \<in> inuse rc \<and> call_record sc k) \<and>
     (\<forall>p q k. sync_at rc p = Some k \<longrightarrow> sync_at rc q = Some k \<longrightarrow> p = q)"

definition queue :: "kgpu_dev \<Rightarrow> nat list" where
  "queue dev = reqs dev @ rtdreqs dev"

definition pending :: "nat \<Rightarrow> kgpu_dev \<Rightarrow> bool" where
  "pending p dev \<longleftrightarrow> (\<exists>x \<in> set (queue dev). item_r (objs (item_cache dev) ! x) = Some p)"

definition dev_inv :: "kgpu_dev \<Rightarrow> bool" where
  "dev_inv dev \<longleftrightarrow> caches_ok dev \<and> queue_inv (queue dev) (item_cache dev) (request_cache dev) \<and>
     sync_inv (request_cache dev) (sync_cache dev) \<and> pool_inv (gmpool dev) \<and> vm_inv (vm dev)"

lemma queue_inv_perm: "mset q = mset q' \<Longrightarrow> queue_inv q ic rc = queue_inv q' ic rc"
  unfolding queue_inv_def by (metis mset_eq_imp_distinct_iff mset_eq_setD)

lemma queue_inv_remove: "queue_inv q ic rc \<Longrightarrow> queue_inv (remove1 x q) ic rc"
  unfolding queue_inv_def by (auto intro: inj_on_diff)

lemma queue_inv_add:
  assumes "queue_inv q ic rc" and "x \<notin> inuse ic" and "inuse ic' = insert x (inuse ic)"
    and "objs ic' ! x = \<lparr>item_r = Some p\<rparr>" and "\<forall>y \<in> inuse ic. objs ic' ! y = objs ic ! y"
    and "p \<in> inuse rc" and "rq_callback (objs rc ! p) \<noteq> NullCallback"
    and "\<forall>y \<in> set q. item_r (objs ic ! y) \<noteq> Some p"
  shows "queue_inv (x # q) ic' rc"
proof -
  have k: "\<forall>y \<in> set q. objs ic' ! y = objs ic ! y \<and> y \<noteq> x" using assms by (auto simp: queue_inv_def)
  then have "inj_on (\<lambda>x. item_r (objs ic' ! x)) (set q)"
    using assms(1) by (auto simp: queue_inv_def inj_on_def)
  then show ?thesis using assms k by (auto simp: queue_inv_def)
qed

lemma queue_inv_requests:
  assumes "queue_inv q ic rc"
    and "\<And>p. p \<in> inuse rc \<Longrightarrow> Some p \<in> (\<lambda>x. item_r (objs ic ! x)) ` set q \<Longrightarrow>
      rq_callback (objs rc ! p) \<noteq> NullCallback \<Longrightarrow> p \<in> inuse rc' \<and> rq_callback (objs rc' ! p) \<noteq> NullCallback"
  shows "queue_inv q ic rc'"
  using assms unfolding queue_inv_def by (metis (no_types, lifting) image_eqI)

lemma queue_inv_put:
  assumes "queue_inv q ic rc" and "rq_callback r \<noteq> NullCallback"
  shows "queue_inv q ic (rc\<lparr>objs := (objs rc)[p := r]\<rparr>)"
proof (rule queue_inv_requests[OF assms(1)])
  fix a assume "a \<in> inuse rc" "rq_callback (objs rc ! a) \<noteq> NullCallback"
  then show "a \<in> inuse (rc\<lparr>objs := (objs rc)[p := r]\<rparr>) \<and>
      rq_callback (objs (rc\<lparr>objs := (objs rc)[p := r]\<rparr>) ! a) \<noteq> NullCallback"
    using assms(2) by (cases "p < length (objs rc)"; cases "a = p") (auto simp: list_update_beyond not_less)
qed

lemma sync_at_put:
  "sync_at (rc\<lparr>objs := (objs rc)[p := r]\<rparr>) =
     (if p < length (objs rc)
      then (sync_at rc)(p := if rq_callback r = SyncCallback then Some (rq_kdata r) else None) else sync_at rc)"
  by (auto simp: sync_at_def fun_eq_iff)

lemma sync_inv_put:
  "sync_inv rc sc \<Longrightarrow> rq_callback r \<noteq> SyncCallback \<Longrightarrow> sync_inv (rc\<lparr>objs := (objs rc)[p := r]\<rparr>) sc"
  by (auto simp: sync_inv_def sync_at_put split: if_splits)

lemma sync_inv_same:
  assumes "sync_inv rc sc" and "rq_callback r = rq_callback (objs rc ! p)" and "rq_kdata r = rq_kdata (objs rc ! p)"
  shows "sync_inv (rc\<lparr>objs := (objs rc)[p := r]\<rparr>) sc"
proof -
  have "sync_at (rc\<lparr>objs := (objs rc)[p := r]\<rparr>) = sync_at rc"
    using assms(2,3) by (auto simp: sync_at_put fun_eq_iff) (auto simp: sync_at_def)
  then show ?thesis using assms(1) by (simp add: sync_inv_def)
qed

lemma sync_inv_start:
  assumes inv: "sync_inv rc sc" and "p \<in> inuse rc" and d: "d \<notin> inuse sc"
    and rec: "\<And>k. call_record sc k \<Longrightarrow> call_record sc' k" "call_record sc' (KSync d)"
    and r: "rq_callback r = SyncCallback" "rq_kdata r = KSync d"
  shows "sync_inv (rc\<lparr>objs := (objs rc)[p := r]\<rparr>) sc'"
proof -
  have "sync_at rc q \<noteq> Some (KSync d)" for q
    using inv d unfolding sync_inv_def call_record_def by blast
  then show ?thesis using assms by (auto simp: sync_inv_def sync_at_put split: if_splits)
qed

lemma sync_inv_end:
  assumes inv: "sync_inv rc sc" and p: "sync_at rc p = Some (KSync d)"
    and rec: "\<And>k. call_record sc k \<Longrightarrow> k \<noteq> KSync d \<Longrightarrow> call_record sc' k" and r: "rq_callback r \<noteq> SyncCallback"
  shows "sync_inv (rc\<lparr>objs := (objs rc)[p := r]\<rparr>) sc'"
proof -
  have only: "q = p" if "sync_at rc q = Some (KSync d)" for q using inv p that unfolding sync_inv_def by blast
  have "p < length (objs rc)" using p by (simp add: sync_at_def split: if_splits)
  then have S: "sync_at (rc\<lparr>objs := (objs rc)[p := r]\<rparr>) = (sync_at rc)(p := None)"
    using r by (simp add: sync_at_put)
  have "q \<in> inuse rc \<and> call_record sc' k" if "((sync_at rc)(p := None)) q = Some k" for q k
  proof -
    have k: "sync_at rc q = Some k" "q \<noteq> p" using that by (auto split: if_splits)
    then have "q \<in> inuse rc" "call_record sc k" "k \<noteq> KSync d"
      using inv only unfolding sync_inv_def by blast+
    then show ?thesis using rec by blast
  qed
  then show ?thesis unfolding sync_inv_def S using inv by (auto simp: sync_inv_def split: if_splits)
qed

lemma sync_inv_mono:
  "sync_inv rc sc \<Longrightarrow> (\<And>k. call_record sc k \<Longrightarrow> call_record sc' k) \<Longrightarrow> sync_inv rc sc'"
  unfolding sync_inv_def by blast

lemma call_record_kept:
  assumes "call_record sc k" and "\<forall>y \<in> inuse sc. y \<in> inuse sc' \<and> oldcallback (objs sc' ! y) = oldcallback (objs sc ! y)"
  shows "call_record sc' k"
  using assms unfolding call_record_def by metis

lemma sync_inv_grow:
  assumes "sync_inv rc sc" and "objs rc' = objs rc @ fresh" and "inuse rc \<subseteq> inuse rc'"
    and "\<forall>r \<in> set fresh. rq_callback r \<noteq> SyncCallback"
  shows "sync_inv rc' sc"
proof -
  have "sync_at rc' = sync_at rc"
    using assms(2,4) by (auto simp: sync_at_def fun_eq_iff nth_append)
  then show ?thesis using assms(1,3) by (auto simp: sync_inv_def)
qed

lemma queue_inv_items:
  assumes "queue_inv q ic rc" and "\<forall>x \<in> set q. objs ic' ! x = objs ic ! x \<and> x \<in> inuse ic'"
  shows "queue_inv q ic' rc"
proof -
  have "inj_on (\<lambda>x. item_r (objs ic' ! x)) (set q)"
    using assms by (auto simp: queue_inv_def inj_on_def)
  then show ?thesis using assms by (auto simp: queue_inv_def)
qed

lemma queue_inuse: "queue_inv q ic rc \<Longrightarrow> x \<in> set q \<Longrightarrow> x \<in> inuse ic"
  by (auto simp: queue_inv_def)

lemma queue_request:
  assumes "dev_inv dev" and "x \<in> set (queue dev)"
  obtains p where "x \<in> inuse (item_cache dev)" "item_r (objs (item_cache dev) ! x) = Some p"
    "p \<in> inuse (request_cache dev)" "rq_callback (objs (request_cache dev) ! p) \<noteq> NullCallback"
  using assms unfolding dev_inv_def queue_inv_def by blast

lemma dev_inv_caches: "dev_inv dev \<Longrightarrow> caches_ok dev"
  by (simp add: dev_inv_def)

lemma queue_inv_grown_items:
  assumes "queue_inv q ic rc" and "slab_ok ic" and "objs ic' = objs ic @ fresh" and "inuse ic \<subseteq> inuse ic'"
  shows "queue_inv q ic' rc"
proof (rule queue_inv_items[OF assms(1)], rule ballI)
  fix x assume "x \<in> set q"
  then have "x \<in> inuse ic" using queue_inuse[OF assms(1)] by blast
  moreover have "x < length (objs ic)" using slab_ok_bound[OF assms(2)] calculation by blast
  ultimately show "objs ic' ! x = objs ic ! x \<and> x \<in> inuse ic'" using assms(3,4) by (auto simp: nth_append)
qed

section \<open>What the operations do to the invariant\<close>

lemma alloc_item_None:
  assumes "alloc_item ch dev = (None, dev')"
  obtains c where "dev' = dev\<lparr>item_cache := c\<rparr>" "inuse c = inuse (item_cache dev)"
    "objs c = objs (item_cache dev) @ replicate (slab_growth ch) kgpu_request_item_constructor"
proof -
  obtain c where c: "slab_alloc ch (replicate (slab_growth ch) kgpu_request_item_constructor)
      (item_cache dev) = (None, c)" "dev' = dev\<lparr>item_cache := c\<rparr>"
    using assms by (auto simp: alloc_item_def split: prod.splits)
  show thesis using that[OF c(2) slab_alloc_None[OF c(1)]] .
qed

lemma slab_ok_grow: "slab_ok s \<Longrightarrow> inuse c = inuse s \<Longrightarrow> objs c = objs s @ fresh \<Longrightarrow> slab_ok c"
  by (auto simp: slab_ok_def intro: trans_less_add1)

lemma call_async_law:
  assumes inv: "dev_inv dev" and p: "p \<in> inuse (request_cache dev)" "\<not> pending p dev"
    and cb: "rq_callback (objs (request_cache dev) ! p) \<noteq> NullCallback"
  shows "\<exists>ret dev'. kgpu_call_async ch (Some p) dev = Inr (ret, dev') \<and> dev_inv dev' \<and>
    rtdreqs dev' = rtdreqs dev \<and> request_cache dev' = request_cache dev \<and>
    (if ret = 0 then \<exists>x. reqs dev' = reqs dev @ [x] \<and> item_r (objs (item_cache dev') ! x) = Some p
     else reqs dev' = reqs dev)"
proof -
  have ok: "slab_ok (item_cache dev)" "caches_ok dev" using inv by (auto simp: dev_inv_def caches_ok_def)
  consider (stopped) "dev_state dev = KGPU_TERMINATED"
    | (nomem) dev1 where "dev_state dev \<noteq> KGPU_TERMINATED" "alloc_item ch dev = (None, dev1)"
    | (item) x dev1 where "dev_state dev \<noteq> KGPU_TERMINATED" "alloc_item ch dev = (Some x, dev1)"
    by (metis option.exhaust surj_pair)
  then show ?thesis
  proof cases
    case stopped
    then show ?thesis using inv by (simp add: kgpu_call_async_def KGPU_TERMINATED_def)
  next
    case nomem
    obtain c where c: "dev1 = dev\<lparr>item_cache := c\<rparr>" "inuse c = inuse (item_cache dev)"
      "objs c = objs (item_cache dev) @ replicate (slab_growth ch) kgpu_request_item_constructor"
      using alloc_item_None[OF nomem(2)] .
    have "dev_inv dev1"
      using inv c queue_inv_grown_items[OF _ ok(1) c(3)] slab_ok_grow[OF ok(1) c(2,3)]
      by (simp add: dev_inv_def caches_ok_def queue_def)
    then show ?thesis using nomem c by (simp add: kgpu_call_async_def errno_defs)
  next
    case item
    obtain c where c: "dev1 = dev\<lparr>item_cache := c\<rparr>" "slab_ok c" "x \<notin> inuse (item_cache dev)"
      "inuse c = insert x (inuse (item_cache dev))"
      "objs c = objs (item_cache dev) @ replicate (slab_growth ch) kgpu_request_item_constructor"
      using alloc_item_Some[OF item(2) ok(1)] .
    let ?c = "c\<lparr>objs := (objs c)[x := \<lparr>item_r = Some p\<rparr>]\<rparr>"
    let ?dev = "dev\<lparr>item_cache := ?c, reqs := reqs dev @ [x]\<rparr>"
    have xl: "x < length (objs c)" using c(2,4) slab_ok_bound by blast
    have run: "kgpu_call_async ch (Some p) dev = Inr (0, ?dev)"
      using item c by (simp add: kgpu_call_async_def enqueue_item_def)
    have "queue_inv (x # queue dev) ?c (request_cache dev)"
    proof (rule queue_inv_add[where ic = "item_cache dev" and p = p])
      show "\<forall>y \<in> inuse (item_cache dev). objs ?c ! y = objs (item_cache dev) ! y"
        using slab_kept[OF ok(1) c(5,3)] by simp
    qed (use inv c xl p cb in \<open>auto simp: dev_inv_def pending_def\<close>)
    then have "queue_inv (queue ?dev) ?c (request_cache dev)"
      by (subst queue_inv_perm[where q' = "x # queue dev"]) (simp_all add: queue_def)
    then have "dev_inv ?dev" using inv c(2) by (simp add: dev_inv_def caches_ok_def)
    then show ?thesis using run xl by auto
  qed
qed

lemma alloc_sync_data_cases:
  assumes "alloc_sync_data ch dev = (q, dev')" and "slab_ok (sync_cache dev)"
  obtains c fresh where "dev' = dev\<lparr>sync_cache := c\<rparr>" "slab_ok c" "inuse (sync_cache dev) \<subseteq> inuse c"
    "objs c = objs (sync_cache dev) @ fresh"
proof (cases q)
  case None
  then obtain c where c: "slab_alloc ch (replicate (slab_growth ch) kgpu_sync_call_data_constructor)
      (sync_cache dev) = (None, c)" "dev' = dev\<lparr>sync_cache := c\<rparr>"
    using assms(1) by (auto simp: alloc_sync_data_def split: prod.splits)
  note n = slab_alloc_None[OF c(1)]
  show thesis using that[OF c(2) slab_ok_grow[OF assms(2) n]] n by simp
next
  case (Some d)
  then have d: "alloc_sync_data ch dev = (Some d, dev')" using assms(1) by simp
  show thesis
  proof (rule alloc_sync_data_Some[OF d assms(2)])
    fix c
    assume "dev' = dev\<lparr>sync_cache := c\<rparr>" "slab_ok c" "inuse c = insert d (inuse (sync_cache dev))"
      "objs c = objs (sync_cache dev) @ replicate (slab_growth ch) kgpu_sync_call_data_constructor"
    then show thesis using that by blast
  qed
qed

lemma sync_submit_accepted:
  assumes "call_sync_submit chd chi req dev = Inr (Inr d, dev')"
  shows "dev_state dev \<noteq> KGPU_TERMINATED" and "fst (alloc_sync_data chd dev) \<noteq> None"
    and "fst (alloc_item chi dev) \<noteq> None"
  using assms
  by (auto simp: call_sync_submit_def alloc_sync_data_def alloc_item_def split: if_splits prod.splits option.splits)

lemma sync_submit_law:
  assumes inv: "dev_inv dev" and p: "p \<in> inuse (request_cache dev)" "\<not> pending p dev"
    and cb: "rq_callback (objs (request_cache dev) ! p) \<noteq> SyncCallback"
    and run: "call_sync_submit chd chi (Some p) dev = Inr (Inr d, dev')"
  shows "dev_inv dev'" and "rtdreqs dev' = rtdreqs dev" and "\<exists>x. reqs dev' = reqs dev @ [x]"
proof -
  let ?rc = "request_cache dev" and ?r = "objs (request_cache dev) ! p"
  note acc = sync_submit_accepted[OF run]
  obtain d0 x ci cs where s: "call_sync_submit chd chi (Some p) dev = Inr (Inr d0,
      dev\<lparr>request_cache := ?rc\<lparr>objs := (objs ?rc)[p := ?r\<lparr>rq_kdata := KSync d0, rq_callback := SyncCallback\<rparr>]\<rparr>,
          item_cache := ci, sync_cache := cs, reqs := reqs dev @ [x]\<rparr>)"
    and ci: "x \<notin> inuse (item_cache dev)" "inuse ci = insert x (inuse (item_cache dev))" "slab_ok ci"
    "objs ci ! x = \<lparr>item_r = Some p\<rparr>" "\<forall>y \<in> inuse (item_cache dev). objs ci ! y = objs (item_cache dev) ! y"
    and cs: "d0 \<notin> inuse (sync_cache dev)" "inuse cs = insert d0 (inuse (sync_cache dev))" "slab_ok cs"
    "objs cs ! d0 = \<lparr>oldkdata = rq_kdata ?r, oldcallback = rq_callback ?r, sync_done = 0\<rparr>"
    "\<forall>y \<in> inuse (sync_cache dev). objs cs ! y = objs (sync_cache dev) ! y"
    using call_sync_submit_ok[OF dev_inv_caches[OF inv] acc(1) p(1) acc(2,3)] by blast
  let ?r' = "?r\<lparr>rq_kdata := KSync d0, rq_callback := SyncCallback\<rparr>"
  have dev': "dev' = dev\<lparr>request_cache := ?rc\<lparr>objs := (objs ?rc)[p := ?r']\<rparr>,
      item_cache := ci, sync_cache := cs, reqs := reqs dev @ [x]\<rparr>" using s run by simp
  have ok: "slab_ok ?rc" "p < length (objs ?rc)"
    using inv p(1) slab_ok_bound by (auto simp: dev_inv_def caches_ok_def)
  let ?rc' = "?rc\<lparr>objs := (objs ?rc)[p := ?r']\<rparr>"
  have "queue_inv (queue dev) (item_cache dev) ?rc'"
    using inv by (intro queue_inv_put) (simp_all add: dev_inv_def)
  then have "queue_inv (x # queue dev) ci ?rc'"
    by (rule queue_inv_add) (use ci p ok in \<open>auto simp: pending_def\<close>)
  then have "queue_inv (queue dev') ci ?rc'"
    unfolding dev' by (subst queue_inv_perm[where q' = "x # queue dev"]) (simp_all add: queue_def)
  moreover have "sync_inv ?rc' cs"
  proof (rule sync_inv_start[where sc = "sync_cache dev" and d = d0])
    show "call_record cs k" if "call_record (sync_cache dev) k" for k
      using call_record_kept[OF that] cs by simp
    show "call_record cs (KSync d0)" using cs cb by (auto simp: call_record_def)
  qed (use inv cs p in \<open>simp_all add: dev_inv_def\<close>)
  ultimately show "dev_inv dev'" using inv ci(3) cs(3) ok unfolding dev' by (simp add: dev_inv_def caches_ok_def)
  show "rtdreqs dev' = rtdreqs dev" "\<exists>x. reqs dev' = reqs dev @ [x]" by (simp_all add: dev')
qed

lemma sync_refused_law:
  assumes inv: "dev_inv dev" and run: "call_sync_submit chd chi req dev = Inr (Inl ret, dev')"
  shows "dev_inv dev' \<and> reqs dev' = reqs dev \<and> rtdreqs dev' = rtdreqs dev"
proof (cases "dev_state dev = KGPU_TERMINATED")
  case True
  then show ?thesis using inv run by (auto simp: call_sync_submit_def)
next
  case False
  have ok: "slab_ok (sync_cache dev)" "slab_ok (item_cache dev)" using inv by (auto simp: dev_inv_def caches_ok_def)
  obtain q dev1 where q: "alloc_sync_data chd dev = (q, dev1)" by (cases "alloc_sync_data chd dev")
  obtain cs fresh where cs: "dev1 = dev\<lparr>sync_cache := cs\<rparr>" "slab_ok cs" "inuse (sync_cache dev) \<subseteq> inuse cs"
    "objs cs = objs (sync_cache dev) @ fresh"
    using alloc_sync_data_cases[OF q ok(1)] .
  have "\<forall>y \<in> inuse (sync_cache dev). y \<in> inuse cs \<and> objs cs ! y = objs (sync_cache dev) ! y"
    using cs slab_ok_bound[OF ok(1)] by (auto simp: nth_append)
  then have "call_record cs k" if "call_record (sync_cache dev) k" for k using call_record_kept[OF that] by simp
  then have inv1: "dev_inv dev1"
    using inv cs sync_inv_mono by (auto simp: dev_inv_def caches_ok_def queue_def)
  show ?thesis
  proof (cases q)
    case None
    then have "dev' = dev1" using run False q by (simp add: call_sync_submit_def)
    then show ?thesis using inv1 cs by simp
  next
    case (Some d)
    then have n: "alloc_item chi dev1 = (None, dev')"
      using run False q by (auto simp: call_sync_submit_def andThen_eq_Inr split: prod.splits option.splits)
    obtain c where c: "dev' = dev1\<lparr>item_cache := c\<rparr>" "inuse c = inuse (item_cache dev1)"
      "objs c = objs (item_cache dev1) @ replicate (slab_growth chi) kgpu_request_item_constructor"
      using alloc_item_None[OF n] .
    have ok1: "slab_ok (item_cache dev1)" using ok(2) cs by simp
    have "dev_inv dev'"
      using inv1 c queue_inv_grown_items[OF _ ok1 c(3)] slab_ok_grow[OF ok1 c(2,3)]
      by (simp add: dev_inv_def caches_ok_def queue_def)
    then show ?thesis using c cs by simp
  qed
qed

lemma sync_finish_law:
  assumes inv: "dev_inv dev" and p: "p \<in> inuse (request_cache dev)" "\<not> pending p dev"
    and s: "sync_at (request_cache dev) p = Some (KSync d)"
  shows "\<exists>dev'. call_sync_finish d (Some p) dev = Inr (0, dev') \<and> dev_inv dev' \<and> reqs dev' = reqs dev \<and>
    rtdreqs dev' = rtdreqs dev"
proof -
  let ?rc = "request_cache dev" and ?sc = "sync_cache dev"
  let ?r' = "(objs ?rc ! p)\<lparr>rq_kdata := oldkdata (objs ?sc ! d), rq_callback := oldcallback (objs ?sc ! d)\<rparr>"
  let ?rc' = "?rc\<lparr>objs := (objs ?rc)[p := ?r']\<rparr>" and ?sc' = "?sc\<lparr>inuse := inuse ?sc - {d}\<rparr>"
  let ?dev' = "dev\<lparr>request_cache := ?rc', sync_cache := ?sc'\<rparr>"
  have ok: "slab_ok ?rc" "slab_ok ?sc" using inv by (auto simp: dev_inv_def caches_ok_def)
  have d: "d \<in> inuse ?sc" and old: "oldcallback (objs ?sc ! d) \<noteq> SyncCallback"
    using inv s by (auto simp: dev_inv_def sync_inv_def call_record_def)
  have "call_sync_finish d (Some p) dev = Inr (0, ?dev')"
    using ok d p by (simp add: call_sync_finish_def get_request_def put_request_def)
  moreover have "queue_inv (queue dev) (item_cache dev) ?rc'"
  proof (rule queue_inv_requests[where rc = ?rc])
    fix a assume a: "Some a \<in> (\<lambda>x. item_r (objs (item_cache dev) ! x)) ` set (queue dev)"
      "rq_callback (objs ?rc ! a) \<noteq> NullCallback" "a \<in> inuse ?rc"
    then have "a \<noteq> p" using p(2) by (auto simp: pending_def)
    then show "a \<in> inuse ?rc' \<and> rq_callback (objs ?rc' ! a) \<noteq> NullCallback" using a by simp
  qed (use inv in \<open>simp add: dev_inv_def\<close>)
  moreover have "sync_inv ?rc' ?sc'"
    using inv s old by (intro sync_inv_end[where sc = ?sc and d = d]) (auto simp: dev_inv_def call_record_def)
  ultimately show ?thesis
    using inv ok slab_ok_free[OF ok(2)] by (intro exI[of _ ?dev']) (simp add: dev_inv_def caches_ok_def queue_def)
qed

lemma read_eq:
  assumes inv: "dev_inv dev" and q: "reqs dev = x # xs"
  shows "kgpu_read nonblock signalled sizeof_ku_request fpos dev =
    Some (Inr (sint sizeof_ku_request,
      Some (fill_ku_request (gmpool dev) (objs (request_cache dev) ! the (item_r (objs (item_cache dev) ! x)))),
      fpos + sizeof_ku_request, dev\<lparr>reqs := xs, rtdreqs := rtdreqs dev @ [x]\<rparr>))"
proof -
  have "x \<in> set (queue dev)" using q by (simp add: queue_def)
  then obtain p where p: "x \<in> inuse (item_cache dev)" "item_r (objs (item_cache dev) ! x) = Some p"
    "p \<in> inuse (request_cache dev)" using queue_request[OF inv] by metis
  have "slab_ok (item_cache dev)" "slab_ok (request_cache dev)" using inv by (auto simp: dev_inv_def caches_ok_def)
  then show ?thesis using q p sizeof_positive by (simp add: kgpu_read_def get_request_def Let_def)
qed

lemma read_law:
  assumes inv: "dev_inv dev" and q: "reqs dev = x # xs"
  shows "\<exists>ku dev'. kgpu_read nonblock signalled sizeof_ku_request fpos dev =
      Some (Inr (sint sizeof_ku_request, Some ku, fpos + sizeof_ku_request, dev')) \<and> dev_inv dev' \<and>
    reqs dev' = xs \<and> rtdreqs dev' = rtdreqs dev @ [x]"
proof -
  let ?dev' = "dev\<lparr>reqs := xs, rtdreqs := rtdreqs dev @ [x]\<rparr>"
  have "queue_inv (queue ?dev') (item_cache dev) (request_cache dev)"
    using inv q by (subst queue_inv_perm[where q' = "queue dev"]) (simp_all add: queue_def dev_inv_def)
  then have "dev_inv ?dev'" using inv by (simp add: dev_inv_def caches_ok_def)
  then show ?thesis using read_eq[OF assms] by simp
qed

lemma rtd_queue_inv: "dev_inv dev \<Longrightarrow> queue_inv (rtdreqs dev) (item_cache dev) (request_cache dev)"
  unfolding dev_inv_def queue_inv_def queue_def by (auto intro: inj_on_subset)

text \<open>The search in \<open>rtdreqs\<close> never faults and finds an item exactly when some request has the identifier.\<close>

lemma find_item_ok:
  assumes ok: "slab_ok (item_cache dev)" "slab_ok (request_cache dev)"
  shows "queue_inv xs (item_cache dev) (request_cache dev) \<Longrightarrow>
    \<exists>o'. find_item dev i xs = Inr o' \<and> (\<forall>x. o' = Some x \<longrightarrow> x \<in> set xs)"
proof (induction xs)
  case (Cons y ys)
  then have ih: "\<exists>o'. find_item dev i ys = Inr o' \<and> (\<forall>x. o' = Some x \<longrightarrow> x \<in> set ys)"
    by (auto simp: queue_inv_def)
  obtain p where "y \<in> inuse (item_cache dev)" "item_r (objs (item_cache dev) ! y) = Some p"
    "p \<in> inuse (request_cache dev)" using Cons.prems by (auto simp: queue_inv_def)
  then show ?case using ih ok by (auto simp: get_request_def)
qed simp

lemma find_item_find:
  assumes ok: "slab_ok (item_cache dev)" "slab_ok (request_cache dev)"
  shows "queue_inv xs (item_cache dev) (request_cache dev) \<Longrightarrow> find_item dev i xs =
    Inr (find (\<lambda>x. rq_id (objs (request_cache dev) ! the (item_r (objs (item_cache dev) ! x))) = i) xs)"
proof (induction xs)
  case (Cons y ys)
  obtain p where "y \<in> inuse (item_cache dev)" "item_r (objs (item_cache dev) ! y) = Some p"
    "p \<in> inuse (request_cache dev)" using Cons.prems by (auto simp: queue_inv_def)
  moreover have "queue_inv ys (item_cache dev) (request_cache dev)" using Cons.prems by (auto simp: queue_inv_def)
  ultimately show ?case using Cons.IH ok by (simp add: get_request_def)
qed simp

lemma free_request_law:
  assumes inv: "dev_inv dev" and p: "p \<in> inuse (request_cache dev)" "\<not> pending p dev"
    and cb: "rq_callback (objs (request_cache dev) ! p) \<noteq> SyncCallback"
  shows "\<exists>dev'. kgpu_free_request p dev = Inr dev' \<and> dev_inv dev' \<and> reqs dev' = reqs dev \<and>
    rtdreqs dev' = rtdreqs dev \<and> item_cache dev' = item_cache dev"
proof -
  let ?rc = "request_cache dev"
  let ?rc' = "?rc\<lparr>inuse := inuse ?rc - {p}\<rparr>"
  let ?dev' = "dev\<lparr>request_cache := ?rc'\<rparr>"
  have ok: "slab_ok ?rc" using inv by (simp add: dev_inv_def caches_ok_def)
  have "queue_inv (queue dev) (item_cache dev) ?rc'"
  proof (rule queue_inv_requests[where rc = ?rc])
    fix a assume a: "Some a \<in> (\<lambda>x. item_r (objs (item_cache dev) ! x)) ` set (queue dev)"
      "rq_callback (objs ?rc ! a) \<noteq> NullCallback" "a \<in> inuse ?rc"
    then have "a \<noteq> p" using p(2) by (auto simp: pending_def)
    then show "a \<in> inuse ?rc' \<and> rq_callback (objs ?rc' ! a) \<noteq> NullCallback" using a by simp
  qed (use inv in \<open>simp add: dev_inv_def\<close>)
  moreover have "sync_inv ?rc' (sync_cache dev)"
  proof -
    have "sync_at ?rc' = sync_at ?rc" by (simp add: sync_at_def fun_eq_iff)
    moreover have "sync_at ?rc p = None" using cb by (simp add: sync_at_def)
    ultimately show ?thesis using inv by (auto simp: dev_inv_def sync_inv_def)
  qed
  ultimately have "dev_inv ?dev'" using inv ok slab_ok_free by (simp add: dev_inv_def caches_ok_def queue_def)
  then show ?thesis using p by (simp add: kgpu_free_request_def)
qed

lemma put_request_law:
  assumes inv: "dev_inv dev" and p: "p \<in> inuse (request_cache dev)"
    and r: "rq_callback r \<noteq> SyncCallback" "rq_callback r \<noteq> NullCallback \<or> \<not> pending p dev"
  shows "\<exists>dev'. put_request (Some p) r dev = Inr dev' \<and> dev_inv dev' \<and> reqs dev' = reqs dev \<and>
    rtdreqs dev' = rtdreqs dev"
proof -
  let ?rc = "request_cache dev"
  let ?rc' = "?rc\<lparr>objs := (objs ?rc)[p := r]\<rparr>"
  have ok: "slab_ok ?rc" using inv by (simp add: dev_inv_def caches_ok_def)
  have "queue_inv (queue dev) (item_cache dev) ?rc'"
  proof (cases "rq_callback r = NullCallback")
    case True
    then have np: "\<not> pending p dev" using r by simp
    show ?thesis
    proof (rule queue_inv_requests[where rc = ?rc])
      fix a assume a: "Some a \<in> (\<lambda>x. item_r (objs (item_cache dev) ! x)) ` set (queue dev)"
        "rq_callback (objs ?rc ! a) \<noteq> NullCallback" "a \<in> inuse ?rc"
      then have "a \<noteq> p" using np by (auto simp: pending_def)
      then show "a \<in> inuse ?rc' \<and> rq_callback (objs ?rc' ! a) \<noteq> NullCallback" using a by simp
    qed (use inv in \<open>simp add: dev_inv_def\<close>)
  qed (use inv in \<open>simp add: dev_inv_def queue_inv_put\<close>)
  then have "dev_inv (dev\<lparr>request_cache := ?rc'\<rparr>)"
    using inv sync_inv_put[OF _ r(1)] by (simp add: dev_inv_def caches_ok_def queue_def)
  then show ?thesis using ok p by (simp add: put_request_def)
qed

lemma constructed_requests:
  assumes "construct_requests k dev = (rs, dev')"
  shows "\<exists>s. dev' = dev\<lparr>rid_sequence := s\<rparr>" and "\<forall>r \<in> set rs. rq_callback r = NullCallback"
proof -
  have "construct_requests k dev = (rs, dev') \<Longrightarrow>
    (\<exists>s. dev' = dev\<lparr>rid_sequence := s\<rparr>) \<and> (\<forall>r \<in> set rs. rq_callback r = NullCallback)"
  proof (induction k arbitrary: dev rs dev')
    case 0
    then have "dev' = dev\<lparr>rid_sequence := rid_sequence dev\<rparr>" by simp
    then show ?case using 0 by (intro conjI exI[of _ "rid_sequence dev"]) simp_all
  next
    case (Suc k)
    obtain r dev1 where r: "kgpu_request_constructor dev = (r, dev1)" by (cases "kgpu_request_constructor dev")
    obtain rs' where rs: "construct_requests k dev1 = (rs', dev')" "rs = r # rs'"
      using Suc.prems r by (auto split: prod.splits)
    have "(\<exists>s. dev1 = dev\<lparr>rid_sequence := s\<rparr>) \<and> rq_callback r = NullCallback"
      using r by (auto simp: kgpu_request_constructor_def kgpu_next_request_id_def zero_request_def Let_def)
    then show ?case using Suc.IH[OF rs(1)] rs(2) by auto
  qed
  then show "\<exists>s. dev' = dev\<lparr>rid_sequence := s\<rparr>" "\<forall>r \<in> set rs. rq_callback r = NullCallback"
    using assms by blast+
qed

lemma queue_inv_grown_requests:
  assumes "queue_inv q ic rc" and "slab_ok rc" and "objs rc' = objs rc @ fresh" and "inuse rc \<subseteq> inuse rc'"
  shows "queue_inv q ic rc'"
proof (rule queue_inv_requests[OF assms(1)])
  fix a assume a: "a \<in> inuse rc" "rq_callback (objs rc ! a) \<noteq> NullCallback"
  then have "objs rc' ! a = objs rc ! a" using slab_ok_bound[OF assms(2)] assms(3) by (simp add: nth_append)
  then show "a \<in> inuse rc' \<and> rq_callback (objs rc' ! a) \<noteq> NullCallback" using a assms(4) by auto
qed

lemma alloc_request_law:
  assumes inv: "dev_inv dev" and run: "kgpu_alloc_request ch dev = (q, dev')"
  shows "dev_inv dev' \<and> reqs dev' = reqs dev \<and> rtdreqs dev' = rtdreqs dev \<and> item_cache dev' = item_cache dev \<and>
    (\<forall>p. q = Some p \<longrightarrow> p \<in> inuse (request_cache dev') \<and> p \<notin> inuse (request_cache dev))"
proof -
  obtain fresh dev1 where f: "construct_requests (slab_growth ch) dev = (fresh, dev1)"
    by (cases "construct_requests (slab_growth ch) dev")
  obtain s where s: "dev1 = dev\<lparr>rid_sequence := s\<rparr>" using constructed_requests(1)[OF f] by blast
  note nocb = constructed_requests(2)[OF f]
  obtain c where c: "slab_alloc ch fresh (request_cache dev) = (q, c)"
    "dev' = dev\<lparr>rid_sequence := s, request_cache := c\<rparr>"
    using run f s by (auto simp: kgpu_alloc_request_def split: prod.splits)
  have ok: "slab_ok (request_cache dev)" using inv by (simp add: dev_inv_def caches_ok_def)
  have g: "slab_ok c" "objs c = objs (request_cache dev) @ fresh" "inuse (request_cache dev) \<subseteq> inuse c"
    "\<forall>p. q = Some p \<longrightarrow> p \<in> inuse c \<and> p \<notin> inuse (request_cache dev)"
    using slab_alloc_Some[of ch fresh "request_cache dev" _ c] slab_alloc_None[of ch fresh "request_cache dev" c]
      slab_ok_grow[OF ok, of c fresh] ok c(1)
    by (cases q; auto)+
  have "queue_inv (queue dev) (item_cache dev) c" "sync_inv c (sync_cache dev)"
    using queue_inv_grown_requests[OF _ ok g(2,3)] sync_inv_grow[OF _ g(2,3)] inv nocb
    by (auto simp: dev_inv_def)
  then show ?thesis using inv c(2) g(1,4) by (simp add: dev_inv_def caches_ok_def queue_def)
qed


text \<open>
  The first half of \<open>kgpu_write\<close>: the item is off \<open>rtdreqs\<close> and its request has the error code; the callback
  runs in this state.
\<close>

definition unlinked :: "nat \<Rightarrow> nat \<Rightarrow> int \<Rightarrow> kgpu_dev \<Rightarrow> kgpu_dev" where
  "unlinked x p e dev = dev\<lparr>rtdreqs := remove1 x (rtdreqs dev),
     request_cache := (request_cache dev)\<lparr>objs := (objs (request_cache dev))[p :=
       (objs (request_cache dev) ! p)\<lparr>rq_errcode := e\<rparr>]\<rparr>\<rparr>"

lemma unlinked_law:
  assumes inv: "dev_inv dev" and xin: "x \<in> set (rtdreqs dev)"
  obtains p where "x \<in> inuse (item_cache dev)" "item_r (objs (item_cache dev) ! x) = Some p" "p \<in> inuse (request_cache dev)"
    "rq_callback (objs (request_cache dev) ! p) \<noteq> NullCallback" "dev_inv (unlinked x p e dev)" "\<not> pending p (unlinked x p e dev)"
    "x \<notin> set (queue (unlinked x p e dev))"
proof -
  let ?ic = "item_cache dev" and ?rc = "request_cache dev"
  have xq: "x \<in> set (queue dev)" using xin by (simp add: queue_def)
  obtain p where p: "x \<in> inuse ?ic" "item_r (objs ?ic ! x) = Some p" "p \<in> inuse ?rc"
    "rq_callback (objs ?rc ! p) \<noteq> NullCallback" using queue_request[OF inv xq] .
  let ?r = "(objs ?rc ! p)\<lparr>rq_errcode := e\<rparr>" and ?dev1 = "dev\<lparr>rtdreqs := remove1 x (rtdreqs dev)\<rparr>"
  have q1: "queue ?dev1 = remove1 x (queue dev)" "x \<notin> set (queue ?dev1)"
    using inv xin by (auto simp: queue_def remove1_append dev_inv_def queue_inv_def)
  have "dev_inv ?dev1"
    using inv queue_inv_remove[of "queue dev" ?ic ?rc x] q1(1) by (simp add: dev_inv_def caches_ok_def)
  then have inv2: "dev_inv (unlinked x p e dev)"
    using queue_inv_put[of "queue ?dev1" ?ic ?rc ?r p] sync_inv_same[of ?rc "sync_cache dev" ?r p] p(4)
    by (simp add: dev_inv_def caches_ok_def queue_def unlinked_def)
  have "\<not> pending p (unlinked x p e dev)"
  proof
    assume "pending p (unlinked x p e dev)"
    then obtain y where "y \<in> set (queue ?dev1)" "item_r (objs ?ic ! y) = Some p"
      by (auto simp: pending_def queue_def unlinked_def)
    then have "y \<in> set (queue dev)" "y \<noteq> x" "item_r (objs ?ic ! y) = item_r (objs ?ic ! x)"
      using q1 p(2) notin_set_remove1 by (metis, metis, metis)
    then show False using inv xq by (auto simp: dev_inv_def queue_inv_def inj_on_def)
  qed
  then show thesis using that p inv2 q1(2) by (simp add: queue_def unlinked_def)
qed

lemma write_unlinked:
  assumes "find_item dev (resp_id resp) (rtdreqs dev) = Inr (Some x)" and "\<not> len < sizeof_ku_response"
    and "slab_ok (item_cache dev)" and "x \<in> inuse (item_cache dev)" and "slab_ok (request_cache dev)"
    and "item_r (objs (item_cache dev) ! x) = Some p" and "p \<in> inuse (request_cache dev)"
  shows "kgpu_write cb resp len fpos dev =
    andThen (invoke_callback cb (rq_callback (objs (request_cache dev) ! p)) (Some p) (unlinked x p (resp_errcode resp) dev)) (\<lambda>dev3.
    andThen (slab_free x (item_cache dev3)) (\<lambda>c. Inr (sint len, fpos + len, dev3\<lparr>item_cache := c\<rparr>)))"
  using assms by (simp add: kgpu_write_def find_request_def get_request_def put_request_def unlinked_def)

lemma release_item_inv:
  assumes inv: "dev_inv dev" and x: "x \<notin> set (queue dev)"
  shows "dev_inv (dev\<lparr>item_cache := (item_cache dev)\<lparr>inuse := inuse (item_cache dev) - {x}\<rparr>\<rparr>)"
proof -
  have q: "queue_inv (queue dev) (item_cache dev) (request_cache dev)" using inv by (simp add: dev_inv_def)
  have "queue_inv (queue dev) ((item_cache dev)\<lparr>inuse := inuse (item_cache dev) - {x}\<rparr>) (request_cache dev)"
    by (rule queue_inv_items[OF q]) (use x queue_inuse[OF q] in auto)
  then show ?thesis using inv slab_ok_free[of "item_cache dev"] by (simp add: dev_inv_def caches_ok_def queue_def)
qed

section \<open>The contract of a client\<close>

text \<open>
  What the module relies on when it calls a client back: the callback runs without a fault on a request
  that is no longer queued, keeps the invariant, and leaves the queues alone. (It may free the request
  and its buffers.)
\<close>

locale kgpu_client =
  fixes cb :: client
  assumes cb_law: "dev_inv dev \<Longrightarrow> p \<in> inuse (request_cache dev) \<Longrightarrow> \<not> pending p dev \<Longrightarrow>
    rq_callback (objs (request_cache dev) ! p) = ClientCallback k \<Longrightarrow>
    \<exists>dev'. cb k (Some p) dev = Inr dev' \<and> dev_inv dev' \<and> reqs dev' = reqs dev \<and>
      rtdreqs dev' = rtdreqs dev \<and> item_cache dev' = item_cache dev"
begin

lemma sync_callback_law:
  assumes inv: "dev_inv dev" and p: "p \<in> inuse (request_cache dev)"
    and cb: "rq_callback (objs (request_cache dev) ! p) = SyncCallback"
  shows "\<exists>dev'. sync_callback (Some p) dev = Inr dev' \<and> dev_inv dev' \<and> reqs dev' = reqs dev \<and>
    rtdreqs dev' = rtdreqs dev \<and> item_cache dev' = item_cache dev"
proof -
  let ?rc = "request_cache dev" and ?sc = "sync_cache dev"
  have ok: "slab_ok ?rc" "slab_ok ?sc" using inv by (auto simp: dev_inv_def caches_ok_def)
  have "sync_at ?rc p = Some (rq_kdata (objs ?rc ! p))" using cb slab_ok_bound[OF ok(1) p] by (simp add: sync_at_def)
  then have "call_record ?sc (rq_kdata (objs ?rc ! p))" using inv by (auto simp: dev_inv_def sync_inv_def)
  then obtain d where d: "d \<in> inuse ?sc" "rq_kdata (objs ?rc ! p) = KSync d" by (auto simp: call_record_def)
  let ?sc' = "?sc\<lparr>objs := (objs ?sc)[d := (objs ?sc ! d)\<lparr>sync_done := 1\<rparr>]\<rparr>"
  have "call_record ?sc' k" if "call_record ?sc k" for k
    using call_record_kept[OF that] d(1) slab_ok_bound[OF ok(2)] by (auto simp: nth_list_update)
  then have "sync_inv ?rc ?sc'" using sync_inv_mono[of ?rc ?sc ?sc'] inv by (simp add: dev_inv_def)
  then have "dev_inv (dev\<lparr>sync_cache := ?sc'\<rparr>)" using inv by (simp add: dev_inv_def caches_ok_def queue_def)
  then show ?thesis using ok p d by (simp add: sync_callback_def get_request_def put_sync_data_def)
qed

lemma invoke_law:
  assumes "dev_inv dev" and "p \<in> inuse (request_cache dev)" and "\<not> pending p dev"
    and "rq_callback (objs (request_cache dev) ! p) = f" and "f \<noteq> NullCallback"
  shows "\<exists>dev'. invoke_callback cb f (Some p) dev = Inr dev' \<and> dev_inv dev' \<and> reqs dev' = reqs dev \<and>
    rtdreqs dev' = rtdreqs dev \<and> item_cache dev' = item_cache dev"
  using assms cb_law[OF assms(1-3)] sync_callback_law[OF assms(1,2)]
  by (cases f) (auto simp: invoke_callback_def)

lemma write_found:
  assumes inv: "dev_inv dev" and x: "find_item dev (resp_id resp) (rtdreqs dev) = Inr (Some x)"
    and cnt: "\<not> len < sizeof_ku_response"
  shows "\<exists>dev'. kgpu_write cb resp len fpos dev = Inr (sint len, fpos + len, dev') \<and> dev_inv dev' \<and>
    reqs dev' = reqs dev \<and> rtdreqs dev' = remove1 x (rtdreqs dev) \<and> x \<in> set (rtdreqs dev) \<and>
    inuse (item_cache dev') = inuse (item_cache dev) - {x}"
proof -
  let ?ic = "item_cache dev" and ?rc = "request_cache dev"
  have ok: "slab_ok ?ic" "slab_ok ?rc" using inv by (auto simp: dev_inv_def caches_ok_def)
  have xin: "x \<in> set (rtdreqs dev)" using find_item_ok[OF ok rtd_queue_inv[OF inv], of "resp_id resp"] x by auto
  obtain p where p: "x \<in> inuse ?ic" "item_r (objs ?ic ! x) = Some p" "p \<in> inuse ?rc"
    "rq_callback (objs ?rc ! p) \<noteq> NullCallback"
    and u: "dev_inv (unlinked x p (resp_errcode resp) dev)" "\<not> pending p (unlinked x p (resp_errcode resp) dev)"
    "x \<notin> set (queue (unlinked x p (resp_errcode resp) dev))"
    using unlinked_law[OF inv xin] .
  let ?dev2 = "unlinked x p (resp_errcode resp) dev"
  have p2: "p \<in> inuse (request_cache ?dev2)" "rq_callback (objs (request_cache ?dev2) ! p) = rq_callback (objs ?rc ! p)"
    using p(3) slab_ok_bound[OF ok(2)] by (simp_all add: unlinked_def)
  obtain dev3 where cb3: "invoke_callback cb (rq_callback (objs ?rc ! p)) (Some p) ?dev2 = Inr dev3" "dev_inv dev3"
    "reqs dev3 = reqs dev" "rtdreqs dev3 = remove1 x (rtdreqs dev)" "item_cache dev3 = ?ic"
    using invoke_law[OF u(1) p2(1) u(2) p2(2) p(4)] by (auto simp: unlinked_def)
  let ?dev' = "dev3\<lparr>item_cache := ?ic\<lparr>inuse := inuse ?ic - {x}\<rparr>\<rparr>"
  have x3: "x \<notin> set (queue dev3)" using u(3) cb3 by (simp add: queue_def unlinked_def)
  have "dev_inv ?dev'" using release_item_inv[OF cb3(2) x3] cb3(5) by simp
  moreover have "kgpu_write cb resp len fpos dev = Inr (sint len, fpos + len, ?dev')"
    using x cnt p ok cb3(1,5) by (simp add: write_unlinked)
  ultimately show ?thesis using cb3 xin by (intro exI[of _ ?dev']) simp
qed

lemma write_total:
  assumes inv: "dev_inv dev"
  shows "\<exists>ret fpos' dev'. kgpu_write cb resp len fpos dev = Inr (ret, fpos', dev') \<and> dev_inv dev'"
proof -
  have ok: "slab_ok (item_cache dev)" "slab_ok (request_cache dev)"
    and q: "queue_inv (rtdreqs dev) (item_cache dev) (request_cache dev)"
    using inv rtd_queue_inv by (auto simp: dev_inv_def caches_ok_def)
  obtain pos where pos: "find_item dev (resp_id resp) (rtdreqs dev) = Inr pos" using find_item_ok[OF ok q] by blast
  show ?thesis
  proof (cases "len < sizeof_ku_response")
    case True
    then show ?thesis using inv by (simp add: kgpu_write_def)
  next
    case False
    show ?thesis
    proof (cases pos)
      case None
      then show ?thesis using False inv pos by (simp add: kgpu_write_def find_request_def)
    next
      case (Some x)
      then show ?thesis using write_found[OF inv _ False, of resp x fpos] pos by auto
    qed
  qed
qed

end


section \<open>Runs of the module\<close>

text \<open>
  The steps of clients, helper and administrator. The premises on requests are what a client has to
  observe: it does not submit, change or free a request that is queued or waited on, and gives a request a
  callback before it submits it. The helper may write any response at any time.
\<close>

datatype kevent = Submitted nat | Delivered nat kgpu_ku_request | Completed nat int | Internal

inductive kstep :: "bitmap_ops \<Rightarrow> client \<Rightarrow> kgpu_dev \<Rightarrow> kevent \<Rightarrow> kgpu_dev \<Rightarrow> bool" for bm cb where
  call_async: "p \<in> inuse (request_cache dev) \<Longrightarrow> \<not> pending p dev \<Longrightarrow>
    rq_callback (objs (request_cache dev) ! p) = ClientCallback k \<Longrightarrow>
    kgpu_call_async ch (Some p) dev = Inr (ret, dev') \<Longrightarrow>
    kstep bm cb dev (if ret = 0 then Submitted (last (reqs dev')) else Internal) dev'"
| call_sync: "p \<in> inuse (request_cache dev) \<Longrightarrow> \<not> pending p dev \<Longrightarrow>
    rq_callback (objs (request_cache dev) ! p) \<noteq> SyncCallback \<Longrightarrow>
    call_sync_submit chd chi (Some p) dev = Inr (Inr d, dev') \<Longrightarrow>
    kstep bm cb dev (Submitted (last (reqs dev'))) dev'"
| call_sync_refused: "call_sync_submit chd chi (Some p) dev = Inr (Inl ret, dev') \<Longrightarrow> kstep bm cb dev Internal dev'"
| call_sync_returns: "p \<in> inuse (request_cache dev) \<Longrightarrow> \<not> pending p dev \<Longrightarrow>
    sync_at (request_cache dev) p = Some (KSync d) \<Longrightarrow> sync_done (objs (sync_cache dev) ! d) = 1 \<Longrightarrow>
    call_sync_finish d (Some p) dev = Inr (ret, dev') \<Longrightarrow> kstep bm cb dev Internal dev'"
| helper_read: "kgpu_read nonblock signalled sizeof_ku_request fpos dev = Some (Inr (ret, Some ku, fpos', dev')) \<Longrightarrow>
    kstep bm cb dev (Delivered (hd (reqs dev)) ku) dev'"
| helper_write: "find_item dev (resp_id resp) (rtdreqs dev) = Inr (Some x) \<Longrightarrow> \<not> len < sizeof_ku_response \<Longrightarrow>
    kgpu_write cb resp len fpos dev = Inr (ret, fpos', dev') \<Longrightarrow>
    kstep bm cb dev (Completed x (resp_errcode resp)) dev'"
| helper_write_refused: "len < sizeof_ku_response \<or> find_item dev (resp_id resp) (rtdreqs dev) = Inr None \<Longrightarrow>
    kgpu_write cb resp len fpos dev = Inr (ret, fpos', dev') \<Longrightarrow> kstep bm cb dev Internal dev'"
| alloc_request: "kgpu_alloc_request ch dev = (q, dev') \<Longrightarrow> kstep bm cb dev Internal dev'"
| free_request: "p \<in> inuse (request_cache dev) \<Longrightarrow> \<not> pending p dev \<Longrightarrow>
    rq_callback (objs (request_cache dev) ! p) \<noteq> SyncCallback \<Longrightarrow>
    kgpu_free_request p dev = Inr dev' \<Longrightarrow> kstep bm cb dev Internal dev'"
| fill_request: "p \<in> inuse (request_cache dev) \<Longrightarrow> \<not> pending p dev \<Longrightarrow>
    rq_callback (objs (request_cache dev) ! p) \<noteq> SyncCallback \<Longrightarrow> rq_callback r \<noteq> SyncCallback \<Longrightarrow>
    put_request (Some p) r dev = Inr dev' \<Longrightarrow> kstep bm cb dev Internal dev'"
| vmalloc: "0 < unat (req_units n) \<Longrightarrow> kgpu_vmalloc bm n (gmpool dev) = Inr (a, gm) \<Longrightarrow>
    kstep bm cb dev Internal (dev\<lparr>gmpool := gm\<rparr>)"
| vfree: "kgpu_vfree bm a (gmpool dev) = Inr gm \<Longrightarrow> kstep bm cb dev Internal (dev\<lparr>gmpool := gm\<rparr>)"
| map_units: "0 < n \<Longrightarrow> n < 2 ^ 19 \<Longrightarrow> nat n \<le> length us \<Longrightarrow> map_page_units bm mm us n is_page (vm dev) = Inr (a, w) \<Longrightarrow>
    kstep bm cb dev Internal (dev\<lparr>vm := w\<rparr>)"
| unmap: "kgpu_unmap_area bm mm a (vm dev) = Inr w \<Longrightarrow> kstep bm cb dev Internal (dev\<lparr>vm := w\<rparr>)"
| mmap: "512 \<le> length sz \<Longrightarrow> 512 \<le> length bits \<Longrightarrow> kgpu_mmap bm (Some sz) (Some bits) v (vm dev) = Inr (ret, w) \<Longrightarrow>
    kstep bm cb dev Internal (dev\<lparr>vm := w\<rparr>)"
| ioctl: "kgpu_ioctl bm env usr cmd arg dev = Inr (ret, dev') \<Longrightarrow> pool_inv (gmpool dev') \<Longrightarrow>
    kstep bm cb dev Internal dev'"

inductive krun :: "bitmap_ops \<Rightarrow> client \<Rightarrow> kgpu_dev \<Rightarrow> kevent list \<Rightarrow> kgpu_dev \<Rightarrow> bool" for bm cb where
  krun_nil: "krun bm cb dev [] dev"
| krun_cons: "kstep bm cb dev e dev' \<Longrightarrow> krun bm cb dev' es dev'' \<Longrightarrow> krun bm cb dev (e # es) dev''"

fun submitted :: "kevent list \<Rightarrow> nat list" where
  "submitted [] = []"
| "submitted (Submitted x # es) = x # submitted es"
| "submitted (_ # es) = submitted es"

fun delivered :: "kevent list \<Rightarrow> nat list" where
  "delivered [] = []"
| "delivered (Delivered x ku # es) = x # delivered es"
| "delivered (_ # es) = delivered es"

fun completed :: "kevent list \<Rightarrow> nat list" where
  "completed [] = []"
| "completed (Completed x c # es) = x # completed es"
| "completed (_ # es) = completed es"

lemmas trace_simps = submitted.simps delivered.simps completed.simps

text \<open>What one step does to the queues, read off its event.\<close>

definition queue_effect :: "kevent \<Rightarrow> kgpu_dev \<Rightarrow> kgpu_dev \<Rightarrow> bool" where
  "queue_effect e dev dev' \<longleftrightarrow>
     (case e of
        Submitted x \<Rightarrow> reqs dev' = reqs dev @ [x] \<and> rtdreqs dev' = rtdreqs dev
      | Delivered x ku \<Rightarrow> reqs dev = x # reqs dev' \<and> rtdreqs dev' = rtdreqs dev @ [x]
      | Completed x c \<Rightarrow> reqs dev' = reqs dev \<and> x \<in> set (rtdreqs dev) \<and> rtdreqs dev' = remove1 x (rtdreqs dev)
      | Internal \<Rightarrow> reqs dev' = reqs dev \<and> rtdreqs dev' = rtdreqs dev)"

lemma pool_step: "dev_inv dev \<Longrightarrow> pool_inv gm \<Longrightarrow> dev_inv (dev\<lparr>gmpool := gm\<rparr>)"
  by (simp add: dev_inv_def caches_ok_def queue_def)

lemma vm_step: "dev_inv dev \<Longrightarrow> vm_inv w \<Longrightarrow> dev_inv (dev\<lparr>vm := w\<rparr>)"
  by (simp add: dev_inv_def caches_ok_def queue_def)

lemma ioctl_step:
  assumes "kgpu_ioctl bm env usr cmd arg dev = Inr (ret, dev')" and "pool_inv (gmpool dev')" and "dev_inv dev"
  shows "dev_inv dev' \<and> queue_effect Internal dev dev'"
proof -
  have "dev' = dev \<or> (\<exists>s. dev' = dev\<lparr>dev_state := s\<rparr>) \<or> (\<exists>gm. dev' = dev\<lparr>gmpool := gm\<rparr>)"
    using assms(1)
    by (auto simp: kgpu_ioctl_def dump_gpu_bufs_def terminate_all_requests_def andThen_eq_Inr Let_def split: if_splits)
  then show ?thesis using assms(2,3) by (auto simp: dev_inv_def caches_ok_def queue_def queue_effect_def)
qed

lemma kstep_law:
  assumes "bitmap_lib bm" and "kgpu_client cb" and "kstep bm cb dev e dev'" and inv: "dev_inv dev"
  shows "dev_inv dev' \<and> queue_effect e dev dev'"
  using assms(3)
proof (cases rule: kstep.cases)
  case (call_async p k ch ret)
  then show ?thesis using call_async_law[OF inv, of p ch] by (auto simp: queue_effect_def split: if_splits)
next
  case (call_sync p chd chi d)
  then show ?thesis using sync_submit_law[OF inv call_sync(2-5)] by (auto simp: queue_effect_def)
next
  case (call_sync_refused chd chi p ret)
  then show ?thesis using sync_refused_law[OF inv] by (auto simp: queue_effect_def)
next
  case (call_sync_returns p d ret)
  then show ?thesis using sync_finish_law[OF inv call_sync_returns(2-4)] by (auto simp: queue_effect_def)
next
  case (helper_read nonblock signalled fpos ret ku fpos')
  then obtain x xs where q: "reqs dev = x # xs" by (cases "reqs dev") (auto simp: kgpu_read_def split: if_splits)
  then show ?thesis using read_law[OF inv q, of nonblock signalled fpos] helper_read by (auto simp: queue_effect_def)
next
  case (helper_write resp x len fpos ret fpos')
  then show ?thesis
    using kgpu_client.write_found[OF assms(2) inv helper_write(2,3), of fpos] by (auto simp: queue_effect_def)
next
  case (helper_write_refused len resp fpos ret fpos')
  then show ?thesis using inv by (auto simp: kgpu_write_def find_request_def queue_effect_def split: if_splits)
next
  case (alloc_request ch q)
  then show ?thesis using alloc_request_law[OF inv alloc_request(2)] by (simp add: queue_effect_def)
next
  case (free_request p)
  then show ?thesis using free_request_law[OF inv free_request(2-4)] by (auto simp: queue_effect_def)
next
  case (fill_request p r)
  then show ?thesis using put_request_law[OF inv, of p r] by (auto simp: queue_effect_def)
next
  case (vmalloc n a gm)
  have "pool_inv gm" using bitmap_lib.vmalloc_law[OF assms(1), of "gmpool dev" n] vmalloc inv by (auto simp: dev_inv_def)
  then show ?thesis using pool_step[OF inv] vmalloc by (simp add: queue_effect_def)
next
  case (vfree a gm)
  have "pool_inv gm" using bitmap_lib.vfree_law[OF assms(1), of "gmpool dev" a] vfree inv by (auto simp: dev_inv_def)
  then show ?thesis using pool_step[OF inv] vfree by (simp add: queue_effect_def)
next
  case (map_units n us mm is_page a w)
  have "vm_inv w" using bitmap_lib.map_units_total[OF assms(1), of "vm dev" n us mm is_page] map_units inv
    by (auto simp: dev_inv_def)
  then show ?thesis using vm_step[OF inv] map_units by (simp add: queue_effect_def)
next
  case (unmap mm a w)
  have "vm_inv w" using bitmap_lib.unmap_total[OF assms(1), of "vm dev" mm a] unmap inv by (auto simp: dev_inv_def)
  then show ?thesis using vm_step[OF inv] unmap by (simp add: queue_effect_def)
next
  case (mmap sz bits v ret w)
  have "vm_inv w" using bitmap_lib.mmap_law[OF assms(1) mmap(3,4) _ mmap(5)] inv by (simp add: dev_inv_def)
  then show ?thesis using vm_step[OF inv] mmap by (simp add: queue_effect_def)
next
  case (ioctl env usr cmd arg ret)
  then show ?thesis using ioctl_step[OF _ _ inv] by blast
qed

lemma krun_law:
  assumes "bitmap_lib bm" and "kgpu_client cb"
  shows "krun bm cb dev es dev' \<Longrightarrow> dev_inv dev \<Longrightarrow> dev_inv dev' \<and>
    reqs dev @ submitted es = delivered es @ reqs dev' \<and>
    mset (rtdreqs dev) + mset (delivered es) = mset (completed es) + mset (rtdreqs dev')"
proof (induction rule: krun.induct)
  case (krun_cons dev e dev' es dev'')
  have s: "dev_inv dev'" "queue_effect e dev dev'" using kstep_law[OF assms krun_cons(1,4)] by auto
  with krun_cons.IH have ih: "reqs dev' @ submitted es = delivered es @ reqs dev''"
    "mset (rtdreqs dev') + mset (delivered es) = mset (completed es) + mset (rtdreqs dev'')" "dev_inv dev''"
    by auto
  show ?case
  proof (cases e)
    case (Completed x c)
    then have "mset (rtdreqs dev) = add_mset x (mset (rtdreqs dev'))" "reqs dev' = reqs dev"
      using s(2) by (simp_all add: queue_effect_def)
    then show ?thesis using ih Completed by simp
  qed (use ih s(2) in \<open>auto simp: queue_effect_def\<close>)
qed simp


section \<open>The test client callgpu\<close>

text \<open>
  \<^verbatim>\<open>services/test/callgpu/callgpu.c\<close>: \<open>mycb\<close> frees the buffer and the request; \<open>minit\<close> submits a request
  for a service that does not exist. \<open>strcpy\<close> into the name array writes the string and its terminator.
\<close>

definition callgpu_mycb :: "bitmap_ops \<Rightarrow> client" where
  "callgpu_mycb bm k req dev =
     andThen (get_request req dev) (\<lambda>r.
     andThen (kgpu_vfree bm (rq_in r) (gmpool dev)) (\<lambda>gm.
     case req of
       None \<Rightarrow> Inl NullDeref
     | Some p \<Rightarrow> kgpu_free_request p (dev\<lparr>gmpool := gm\<rparr>)))"

definition strcpy_name :: "string \<Rightarrow> string \<Rightarrow> string" where
  "strcpy_name src dst = src @ [CHR 0x00] @ drop (length src + 1) dst"

definition callgpu_minit :: "bitmap_ops \<Rightarrow> slab_choice \<Rightarrow> slab_choice \<Rightarrow> kgpu_dev \<Rightarrow> fault + kgpu_dev" where
  "callgpu_minit bm ch chi dev =
     (case kgpu_alloc_request ch dev of
        (None, dev1) \<Rightarrow> Inr dev1
      | (Some p, dev1) \<Rightarrow>
          andThen (kgpu_vmalloc bm (1024 * 2) (gmpool dev1)) (\<lambda>(a, gm).
          andThen (get_request (Some p) dev1) (\<lambda>r.
          andThen (put_request (Some p) (r\<lparr>rq_in := a\<rparr>) (dev1\<lparr>gmpool := gm\<rparr>)) (\<lambda>dev2.
          if a = 0 then kgpu_free_request p dev2
          else
            andThen (put_request (Some p) (r\<lparr>rq_in := a, rq_insize := 1024, rq_out := a + 1024,
              rq_outsize := 1024, rq_service_name := strcpy_name ''nonexist service'' (rq_service_name r),
              rq_callback := ClientCallback 0\<rparr>) dev2) (\<lambda>dev3.
            andThen (kgpu_call_async chi (Some p) dev3) (\<lambda>(ret, dev4). Inr dev4))))))"

context bitmap_lib
begin

lemma callgpu_mycb_law:
  assumes inv: "dev_inv dev" and p: "p \<in> inuse (request_cache dev)" "\<not> pending p dev"
    and cb: "rq_callback (objs (request_cache dev) ! p) = ClientCallback k"
  shows "\<exists>dev'. callgpu_mycb bm k (Some p) dev = Inr dev' \<and> dev_inv dev' \<and> reqs dev' = reqs dev \<and>
    rtdreqs dev' = rtdreqs dev \<and> item_cache dev' = item_cache dev"
proof -
  let ?a = "rq_in (objs (request_cache dev) ! p)"
  have ok: "slab_ok (request_cache dev)" using inv by (simp add: dev_inv_def caches_ok_def)
  obtain gm where gm: "kgpu_vfree bm ?a (gmpool dev) = Inr gm" "pool_inv gm"
    using vfree_law[of "gmpool dev" ?a] inv by (auto simp: dev_inv_def)
  let ?dev = "dev\<lparr>gmpool := gm\<rparr>"
  have "\<not> pending p ?dev" using p(2) by (simp add: pending_def queue_def)
  then obtain dev' where "kgpu_free_request p ?dev = Inr dev'" "dev_inv dev'" "reqs dev' = reqs dev"
    "rtdreqs dev' = rtdreqs dev" "item_cache dev' = item_cache dev"
    using free_request_law[OF pool_step[OF inv gm(2)], of p] p cb by auto
  then show ?thesis using gm ok p by (simp add: callgpu_mycb_def get_request_def)
qed

end

sublocale bitmap_lib \<subseteq> callgpu: kgpu_client "callgpu_mycb bm"
  by unfold_locales (rule callgpu_mycb_law)

section \<open>Properties\<close>

lemma idle_dev_inv: "dev_inv idle_dev"
  using two_unit_pool_inv
  by (simp add: dev_inv_def queue_inv_def sync_inv_def sync_at_def queue_def)
    (simp add: idle_dev_def zero_request_def)


definition filled_dev :: kgpu_dev where
  "filled_dev = idle_dev\<lparr>request_cache :=
     \<lparr>objs = [zero_request\<lparr>rq_id := 1, rq_callback := ClientCallback 0\<rparr>], inuse = {0}\<rparr>\<rparr>"

lemma filled_dev_inv: "dev_inv filled_dev"
  using two_unit_pool_inv
  by (simp add: dev_inv_def queue_inv_def sync_inv_def sync_at_def queue_def filled_dev_def caches_ok_def)
    (simp add: idle_dev_def zero_request_def slab_ok_def empty_slab_def)

definition queued_dev :: kgpu_dev where
  "queued_dev = filled_dev\<lparr>item_cache := \<lparr>objs = [\<lparr>item_r = Some 0\<rparr>], inuse = {0}\<rparr>, reqs := [0]\<rparr>"

lemma queued_dev_steps:
  "kgpu_call_async (Grow 1) (Some 0) filled_dev = Inr (0, queued_dev)"
  "\<exists>ku fpos. kgpu_read True False sizeof_ku_request 0 queued_dev =
     Some (Inr (88, Some ku, fpos, queued_dev\<lparr>reqs := [], rtdreqs := [0]\<rparr>))"
  "find_item (queued_dev\<lparr>reqs := [], rtdreqs := [0]\<rparr>) 1 [0] = Inr (Some 0)"
proof -
  show "kgpu_call_async (Grow 1) (Some 0) filled_dev = Inr (0, queued_dev)"
    by (simp add: kgpu_call_async_def queued_dev_def filled_dev_def alloc_item_def slab_alloc_def slab_growth_def
        enqueue_item_def slab_put_def write_arr_def Let_def)
      (simp add: idle_dev_def empty_slab_def KGPU_OK_def KGPU_TERMINATED_def)
  have s: "sint sizeof_ku_request = 88" by code_simp
  show "\<exists>ku fpos. kgpu_read True False sizeof_ku_request 0 queued_dev =
     Some (Inr (88, Some ku, fpos, queued_dev\<lparr>reqs := [], rtdreqs := [0]\<rparr>))"
    by (simp add: kgpu_read_def queued_dev_def filled_dev_def slab_get_def read_arr_def get_request_def s)
      (simp add: idle_dev_def)
  show "find_item (queued_dev\<lparr>reqs := [], rtdreqs := [0]\<rparr>) 1 [0] = Inr (Some 0)"
    by (simp add: queued_dev_def filled_dev_def slab_get_def read_arr_def get_request_def)
qed




text \<open>
  C13: A response is matched by its identifier: too short a write is \<open>-EINVAL\<close>, an identifier that no
  delivered request has is \<open>-EFAULT\<close>, both without effect; otherwise the first delivered item with that
  identifier leaves \<open>rtdreqs\<close> and is released, and the number of bytes is returned.
\<close>

theorem write_matches_identifier:
  assumes "kgpu_client cb" and "dev_inv dev"
  shows "if len < 8 then kgpu_write cb resp len fpos dev = Inr (- EINVAL, fpos, dev)
    else case find (\<lambda>x. rq_id (objs (request_cache dev) ! the (item_r (objs (item_cache dev) ! x))) = resp_id resp)
        (rtdreqs dev) of
      None \<Rightarrow> kgpu_write cb resp len fpos dev = Inr (- EFAULT, fpos, dev)
    | Some x \<Rightarrow> \<exists>dev'. kgpu_write cb resp len fpos dev = Inr (sint len, fpos + len, dev') \<and> dev_inv dev' \<and>
        reqs dev' = reqs dev \<and> rtdreqs dev' = remove1 x (rtdreqs dev) \<and>
        inuse (item_cache dev') = inuse (item_cache dev) - {x}"
proof -
  let ?P = "\<lambda>x. rq_id (objs (request_cache dev) ! the (item_r (objs (item_cache dev) ! x))) = resp_id resp"
  have "slab_ok (item_cache dev)" "slab_ok (request_cache dev)" using assms(2) by (auto simp: dev_inv_def caches_ok_def)
  then have f: "find_item dev (resp_id resp) (rtdreqs dev) = Inr (find ?P (rtdreqs dev))"
    using find_item_find rtd_queue_inv[OF assms(2)] by blast
  show ?thesis
  proof (cases "find ?P (rtdreqs dev)")
    case None
    then show ?thesis using f by (simp add: kgpu_write_def find_request_def sizeof_ku_response_def)
  next
    case (Some x)
    have "\<not> len < 8 \<Longrightarrow> ?thesis"
      using kgpu_client.write_found[OF assms, of resp x len fpos] f Some by (auto simp: sizeof_ku_response_def)
    then show ?thesis by (cases "len < 8") (simp_all add: kgpu_write_def sizeof_ku_response_def)
  qed
qed

theorem write_matches_identifier_witness:
  "kgpu_write (callgpu_mycb ref_bitmap) \<lparr>resp_id = 5, resp_errcode = 0\<rparr> 7 0 filled_dev = Inr (- EINVAL, 0, filled_dev) \<and>
   kgpu_write (callgpu_mycb ref_bitmap) \<lparr>resp_id = 5, resp_errcode = 0\<rparr> 8 0 filled_dev = Inr (- EFAULT, 0, filled_dev)"
proof -
  have "rtdreqs filled_dev = []" by (simp add: filled_dev_def idle_dev_def)
  then show ?thesis
    using write_matches_identifier[OF ref_bm.callgpu.kgpu_client_axioms filled_dev_inv,
        of 7 "\<lparr>resp_id = 5, resp_errcode = 0\<rparr>" 0]
      write_matches_identifier[OF ref_bm.callgpu.kgpu_client_axioms filled_dev_inv,
        of 8 "\<lparr>resp_id = 5, resp_errcode = 0\<rparr>" 0]
    by simp
qed

end
