(* ===== verification/Intrusive_List.thy ===== *)
theory Intrusive_List
  imports Prelude
begin

text \<open>
  The circular doubly linked lists of \<^verbatim>\<open>kgpu/include/list.h\<close>, on an explicit heap of \<open>list_head\<close>
  nodes: the two link fields of every node and whether the object that embeds the node is still
  allocated. Pointers are \<open>'n option\<close> (\<open>None\<close> is \<open>NULL\<close>). The operations are the statements of
  the header in their order; the abstraction \<open>rings\<close> reads a heap as a family of HOL lists, one per
  list head, and every operation is shown to be the corresponding operation on that family.
\<close>

section \<open>The operations of list.h\<close>

record 'n list_heap =
  nxt :: "'n \<Rightarrow> 'n option"
  prv :: "'n \<Rightarrow> 'n option"
  alive :: "'n \<Rightarrow> bool"

definition deref :: "'n list_heap \<Rightarrow> 'n option \<Rightarrow> fault + 'n" where
  "deref h p = (case p of None \<Rightarrow> Inl NullDeref
     | Some a \<Rightarrow> if alive h a then Inr a else Inl UseAfterFree)"

definition get_next :: "'n option \<Rightarrow> 'n list_heap \<Rightarrow> fault + 'n option" where
  "get_next p h = andThen (deref h p) (\<lambda>a. Inr (nxt h a))"

definition get_prev :: "'n option \<Rightarrow> 'n list_heap \<Rightarrow> fault + 'n option" where
  "get_prev p h = andThen (deref h p) (\<lambda>a. Inr (prv h a))"

definition set_next :: "'n option \<Rightarrow> 'n option \<Rightarrow> 'n list_heap \<Rightarrow> fault + 'n list_heap" where
  "set_next p v h = andThen (deref h p) (\<lambda>a. Inr (h\<lparr>nxt := (nxt h)(a := v)\<rparr>))"

definition set_prev :: "'n option \<Rightarrow> 'n option \<Rightarrow> 'n list_heap \<Rightarrow> fault + 'n list_heap" where
  "set_prev p v h = andThen (deref h p) (\<lambda>a. Inr (h\<lparr>prv := (prv h)(a := v)\<rparr>))"

definition INIT_LIST_HEAD :: "'n option \<Rightarrow> 'n list_heap \<Rightarrow> fault + 'n list_heap" where
  "INIT_LIST_HEAD l h = andThen (set_next l l h) (set_prev l l)"

definition raw_list_add ::
  "'n option \<Rightarrow> 'n option \<Rightarrow> 'n option \<Rightarrow> 'n list_heap \<Rightarrow> fault + 'n list_heap" where
  "raw_list_add new p n h =
     andThen (set_prev n new h) (\<lambda>h.
     andThen (set_next new n h) (\<lambda>h.
     andThen (set_prev new p h) (\<lambda>h.
     set_next p new h)))"

definition list_add :: "'n option \<Rightarrow> 'n option \<Rightarrow> 'n list_heap \<Rightarrow> fault + 'n list_heap" where
  "list_add new head h = andThen (get_next head h) (\<lambda>n. raw_list_add new head n h)"

definition list_add_tail :: "'n option \<Rightarrow> 'n option \<Rightarrow> 'n list_heap \<Rightarrow> fault + 'n list_heap" where
  "list_add_tail new head h = andThen (get_prev head h) (\<lambda>p. raw_list_add new p head h)"

definition raw_list_del :: "'n option \<Rightarrow> 'n option \<Rightarrow> 'n list_heap \<Rightarrow> fault + 'n list_heap" where
  "raw_list_del p n h = andThen (set_prev n p h) (set_next p n)"

definition list_del :: "'n option \<Rightarrow> 'n list_heap \<Rightarrow> fault + 'n list_heap" where
  "list_del entry h =
     andThen (get_prev entry h) (\<lambda>p.
     andThen (get_next entry h) (\<lambda>n.
     andThen (raw_list_del p n h) (\<lambda>h.
     andThen (set_next entry None h) (\<lambda>h.
     set_prev entry None h))))"

definition list_empty :: "'n option \<Rightarrow> 'n list_heap \<Rightarrow> fault + bool" where
  "list_empty head h = andThen (get_next head h) (\<lambda>n. Inr (n = head))"

text \<open>
  The iteration macros. \<open>list_for_each\<close> counts in \<open>list_size\<close>; a heap whose links do not lead
  back to the head would make it run for ever, hence \<open>partial_function (option)\<close> with \<open>None\<close> for
  a loop that does not end. \<open>list_for_each_safe\<close> reads the successor of the current node before
  the body runs; the body may stop the loop (\<open>break\<close>, the Boolean).
\<close>

partial_function (option) list_size_loop ::
  "'n list_heap \<Rightarrow> 'n option \<Rightarrow> 'n option \<Rightarrow> nat \<Rightarrow> (fault + nat) option" where
  "list_size_loop h head p s =
     (if p = head then Some (Inr s)
      else case get_next p h of
        Inl e \<Rightarrow> Some (Inl e)
      | Inr p' \<Rightarrow> list_size_loop h head p' (Suc s))"

definition list_size :: "'n option \<Rightarrow> 'n list_heap \<Rightarrow> (fault + nat) option" where
  "list_size head h =
     (case get_next head h of Inl e \<Rightarrow> Some (Inl e) | Inr p \<Rightarrow> list_size_loop h head p 0)"

partial_function (option) for_each_safe_loop ::
  "('s \<Rightarrow> 'n list_heap) \<Rightarrow> ('n \<Rightarrow> 's \<Rightarrow> fault + ('s \<times> bool)) \<Rightarrow> 'n option \<Rightarrow>
   'n option \<Rightarrow> 'n option \<Rightarrow> 's \<Rightarrow> (fault + 's) option" where
  "for_each_safe_loop hp body head pos n s =
     (if pos = head then Some (Inr s)
      else case pos of
        None \<Rightarrow> Some (Inl NullDeref)
      | Some a \<Rightarrow>
          (case body a s of
             Inl e \<Rightarrow> Some (Inl e)
           | Inr r \<Rightarrow>
               (if snd r then Some (Inr (fst r))
                else case get_next n (hp (fst r)) of
                  Inl e \<Rightarrow> Some (Inl e)
                | Inr n' \<Rightarrow> for_each_safe_loop hp body head n n' (fst r))))"

definition list_for_each_safe ::
  "('s \<Rightarrow> 'n list_heap) \<Rightarrow> ('n \<Rightarrow> 's \<Rightarrow> fault + ('s \<times> bool)) \<Rightarrow> 'n option \<Rightarrow> 's \<Rightarrow>
   (fault + 's) option" where
  "list_for_each_safe hp body head s =
     (case get_next head (hp s) of
        Inl e \<Rightarrow> Some (Inl e)
      | Inr pos \<Rightarrow>
          (case get_next pos (hp s) of
             Inl e \<Rightarrow> Some (Inl e)
           | Inr n \<Rightarrow> for_each_safe_loop hp body head pos n s))"

text \<open>Allocation and release of the object a node is embedded in.\<close>

definition alloc_node :: "'n \<Rightarrow> 'n list_heap \<Rightarrow> 'n list_heap" where
  "alloc_node a h = h\<lparr>alive := (alive h)(a := True)\<rparr>"

definition free_node :: "'n \<Rightarrow> 'n list_heap \<Rightarrow> 'n list_heap" where
  "free_node a h = h\<lparr>alive := (alive h)(a := False)\<rparr>"

section \<open>Lists in the heap\<close>

fun chain :: "'n list_heap \<Rightarrow> 'n list \<Rightarrow> bool" where
  "chain h [] = True"
| "chain h [a] = True"
| "chain h (a # b # zs) = (nxt h a = Some b \<and> prv h b = Some a \<and> chain h (b # zs))"

definition ring :: "'n list_heap \<Rightarrow> 'n \<Rightarrow> 'n list \<Rightarrow> bool" where
  "ring h k xs \<longleftrightarrow> chain h (k # xs @ [k]) \<and> distinct (k # xs) \<and> (\<forall>a \<in> set (k # xs). alive h a)"

definition nodes :: "('n \<rightharpoonup> 'n list) \<Rightarrow> 'n set" where
  "nodes L = {a. \<exists>k xs. L k = Some xs \<and> a \<in> set (k # xs)}"

definition rings :: "'n list_heap \<Rightarrow> ('n \<rightharpoonup> 'n list) \<Rightarrow> bool" where
  "rings h L \<longleftrightarrow> (\<forall>k xs. L k = Some xs \<longrightarrow> ring h k xs) \<and>
     (\<forall>k xs k' xs'. L k = Some xs \<longrightarrow> L k' = Some xs' \<longrightarrow> k \<noteq> k' \<longrightarrow>
        set (k # xs) \<inter> set (k' # xs') = {})"

definition same_links :: "'n list_heap \<Rightarrow> 'n list_heap \<Rightarrow> 'n set \<Rightarrow> bool" where
  "same_links h h' A \<longleftrightarrow> (\<forall>a \<in> A. nxt h' a = nxt h a \<and> prv h' a = prv h a \<and> (alive h a \<longrightarrow> alive h' a))"

lemma chain_append: "chain h (as @ a # bs) \<longleftrightarrow> chain h (as @ [a]) \<and> chain h (a # bs)"
proof (induction as)
  case Nil
  show ?case by simp
next
  case (Cons x as)
  then show ?case by (cases as) auto
qed

lemma chain_cong:
  assumes "\<And>a. a \<in> set (butlast zs) \<Longrightarrow> nxt h' a = nxt h a"
    and "\<And>a. a \<in> set (tl zs) \<Longrightarrow> prv h' a = prv h a"
  shows "chain h' zs = chain h zs"
  using assms
proof (induction h zs rule: chain.induct)
  case (3 h a b zs)
  have "chain h' (b # zs) = chain h (b # zs)"
    by (rule 3(1)) (use 3(2,3) in \<open>auto split: if_splits dest: list.set_sel(2)\<close>)
  then show ?case
    using 3(2)[of a] 3(3)[of b] by simp
qed auto


lemma ring_same: "ring h k xs \<Longrightarrow> same_links h h' (set (k # xs)) \<Longrightarrow> ring h' k xs"
  unfolding ring_def same_links_def
  using chain_cong[of "k # xs @ [k]" h' h]
  by (auto simp: butlast_append dest: in_set_butlastD)

text \<open>The links determine the list.\<close>

lemma chain_unique:
  "chain h (a # xs @ [k]) \<Longrightarrow> chain h (a # ys @ [k]) \<Longrightarrow> k \<notin> set xs \<Longrightarrow> k \<notin> set ys \<Longrightarrow> xs = ys"
proof (induction xs arbitrary: a ys)
  case Nil
  then show ?case by (cases ys) auto
next
  case (Cons x xs)
  then show ?case by (cases ys) auto
qed

lemma ring_unique: "ring h k xs \<Longrightarrow> ring h k ys \<Longrightarrow> xs = ys"
  using chain_unique[of h k xs k ys] by (simp add: ring_def)

lemma ring_ends:
  assumes "ring h k xs"
  shows "nxt h k = Some (hd (xs @ [k]))" and "prv h k = Some (last (k # xs))"
    and "\<And>a. a \<in> set (k # xs) \<Longrightarrow> alive h a"
proof -
  show "nxt h k = Some (hd (xs @ [k]))"
    using assms by (cases xs) (auto simp: ring_def)
  have "chain h (butlast (k # xs) @ last (k # xs) # [k])"
    using assms append_butlast_last_id[of "k # xs"]
    by (metis append.assoc append_Cons append_Nil list.discI ring_def)
  then show "prv h k = Some (last (k # xs))"
    by (subst (asm) chain_append) simp
  show "\<And>a. a \<in> set (k # xs) \<Longrightarrow> alive h a"
    using assms by (auto simp: ring_def)
qed

lemmas heap_ops = deref_def get_next_def get_prev_def set_next_def set_prev_def

lemma ring_snoc:
  assumes r: "ring h k xs" and x: "x \<notin> set (k # xs)" and p: "p = last (k # xs)"
    and al: "alive h' = alive h" "alive h x"
    and nx: "nxt h' = (nxt h)(x := Some k, p := Some x)"
    and pv: "prv h' = (prv h)(k := Some x, x := Some p)"
  shows "ring h' k (xs @ [x])"
proof -
  define ys where "ys = butlast (k # xs)"
  have split: "k # xs = ys @ [p]"
    unfolding ys_def p by (rule append_butlast_last_id [symmetric]) simp
  have dist: "distinct (ys @ [p])"
    using r split by (metis ring_def)
  have old: "chain h (ys @ [p])"
    using r chain_append[of h ys p "[k]"] split by (metis append.assoc append_Cons append_Nil ring_def)
  have "chain h' (ys @ [p])"
  proof (subst chain_cong[where h = h])
    fix a assume "a \<in> set (butlast (ys @ [p]))"
    then have "a \<noteq> p" "a \<noteq> x" using dist x split by auto
    then show "nxt h' a = nxt h a" by (simp add: nx)
  next
    fix a assume a: "a \<in> set (tl (ys @ [p]))"
    have tl: "tl (ys @ [p]) = xs" using split by (metis list.sel(3))
    have "a \<noteq> k" "a \<noteq> x" using a r x tl by (auto simp: ring_def)
    then show "prv h' a = prv h a" by (simp add: pv)
  qed (rule old)
  moreover have "x \<noteq> k" "x \<noteq> p"
    using x last_in_set[of "k # xs"] p by auto
  then have "chain h' [p, x, k]"
    by (simp add: nx pv)
  ultimately have "chain h' ((k # xs) @ [x, k])"
    using chain_append[of h' ys p "[x, k]"] split by simp
  then show ?thesis
    using r x al by (auto simp: ring_def)
qed

lemma list_add_tail_ring:
  assumes "ring h k xs" and "x \<notin> set (k # xs)" and "alive h x"
  shows "\<exists>h'. list_add_tail (Some x) (Some k) h = Inr h' \<and> ring h' k (xs @ [x]) \<and>
    same_links h h' (- set (x # k # xs)) \<and> alive h' = alive h"
proof -
  let ?p = "last (k # xs)"
  let ?h = "h\<lparr>nxt := (nxt h)(x := Some k, ?p := Some x), prv := (prv h)(k := Some x, x := Some ?p)\<rparr>"
  have p: "?p \<in> set (k # xs)" by (rule last_in_set) simp
  have "list_add_tail (Some x) (Some k) h = Inr ?h"
    using assms ring_ends[OF assms(1)] p
    by (simp add: list_add_tail_def raw_list_add_def heap_ops)
  moreover have "ring ?h k (xs @ [x])"
    by (rule ring_snoc[OF assms(1,2) refl]) (simp_all add: assms(3))
  moreover have "same_links h ?h (- set (x # k # xs))"
    using p by (auto simp: same_links_def)
  ultimately show ?thesis by (intro exI[of _ ?h]) simp
qed

text \<open>
  Deleting \<open>x\<close> between its neighbours \<open>p\<close> and \<open>n\<close> keeps the part of the ring before it and the part behind it.
\<close>

lemma chain_before:
  assumes ch: "chain h (k # as)" and d: "distinct (k # as)" "x \<notin> set (k # as)" and n: "n \<notin> set as"
    and nx: "nxt h' = (nxt h)(last (k # as) := Some n, x := None)"
    and pv: "prv h' = (prv h)(n := Some (last (k # as)), x := None)"
  shows "chain h' (k # as)"
proof (subst chain_cong[where h = h])
  fix a assume a: "a \<in> set (butlast (k # as))"
  have "k # as = butlast (k # as) @ [last (k # as)]" by simp
  then have "distinct (butlast (k # as) @ [last (k # as)])" using d(1) by metis
  then have "a \<noteq> last (k # as)" using a by (metis distinct_append disjoint_insert(2) list.simps(15))
  moreover have "a \<noteq> x" using in_set_butlastD[OF a] d(2) by metis
  ultimately show "nxt h' a = nxt h a" by (simp only: nx fun_upd_apply if_False)
qed (use ch d n pv in auto)

lemma chain_behind:
  assumes ch: "chain h (bs @ [k])" and d: "distinct (bs @ [k])" "x \<notin> set (bs @ [k])" and p: "p \<notin> set bs"
    and nx: "nxt h' = (nxt h)(p := Some (hd (bs @ [k])), x := None)"
    and pv: "prv h' = (prv h)(hd (bs @ [k]) := Some p, x := None)"
  shows "chain h' (bs @ [k])"
proof (subst chain_cong[where h = h])
  fix a assume a: "a \<in> set (butlast (bs @ [k]))"
  then have "a \<noteq> p" "a \<noteq> x" using d p by auto
  then show "nxt h' a = nxt h a" by (simp add: nx)
next
  fix a assume "a \<in> set (tl (bs @ [k]))"
  then have "a \<noteq> hd (bs @ [k])" "a \<noteq> x" using d by (cases bs; auto)+
  then show "prv h' a = prv h a" by (simp add: pv)
qed (rule ch)

lemma ring_remove:
  assumes r: "ring h k (as @ x # bs)" and p: "p = last (k # as)" and n: "n = hd (bs @ [k])"
    and al: "alive h' = alive h"
    and nx: "nxt h' = (nxt h)(p := Some n, x := None)"
    and pv: "prv h' = (prv h)(n := Some p, x := None)"
  shows "ring h' k (as @ bs)"
proof -
  define ys where "ys = butlast (k # as)"
  define zs where "zs = tl (bs @ [k])"
  have s1: "k # as = ys @ [p]" unfolding ys_def p by (rule append_butlast_last_id [symmetric]) simp
  have s2: "bs @ [k] = n # zs" unfolding zs_def n by (cases bs) auto
  have all: "k # as @ x # bs @ [k] = ys @ p # x # n # zs"
    using s1 s2 by (metis append.assoc append_Cons append_Nil)
  have dist: "distinct (k # as @ x # bs)" using r by (simp add: ring_def)
  have ch: "chain h (k # as)" "chain h (bs @ [k])"
    unfolding s1 s2 using r all chain_append[of h ys p "x # n # zs"] by (auto simp: ring_def)
  have pn: "p \<in> set (k # as)" "n \<in> set (bs @ [k])" using s1 s2 by auto
  have "chain h' (k # as)"
    by (rule chain_before[OF ch(1) _ _ _ nx[unfolded p] pv[unfolded p]]) (use dist pn in auto)
  moreover have "chain h' (bs @ [k])"
    by (rule chain_behind[OF ch(2) _ _ _ nx[unfolded n] pv[unfolded n]]) (use dist pn in auto)
  moreover have "p \<noteq> x" "n \<noteq> x" using pn dist by auto
  ultimately have "chain h' (ys @ p # n # zs)"
    unfolding s1 s2 by (subst chain_append) (simp add: nx pv)
  then have "chain h' (k # (as @ bs) @ [k])" using s1 s2 by (metis append.assoc append_Cons append_Nil)
  then show ?thesis using r al by (auto simp: ring_def)
qed

lemma chain_mid:
  assumes "chain h (ys @ p # x # n # zs)"
  shows "nxt h x = Some n" and "prv h x = Some p"
  using assms chain_append[of h ys p "x # n # zs"] by auto

lemma list_del_eq:
  assumes "nxt h x = Some n" "prv h x = Some p" "alive h x" "alive h p" "alive h n" "p \<noteq> x" "n \<noteq> x"
  shows "list_del (Some x) h =
    Inr (h\<lparr>nxt := (nxt h)(p := Some n, x := None), prv := (prv h)(n := Some p, x := None)\<rparr>)"
  using assms by (simp add: list_del_def raw_list_del_def heap_ops)

lemma list_del_ring:
  assumes r: "ring h k (as @ x # bs)"
  shows "\<exists>h'. list_del (Some x) h = Inr h' \<and> ring h' k (as @ bs) \<and>
    same_links h h' (- set (k # as @ x # bs)) \<and> alive h' = alive h"
proof -
  let ?p = "last (k # as)" and ?n = "hd (bs @ [k])"
  let ?h = "h\<lparr>nxt := (nxt h)(?p := Some ?n, x := None), prv := (prv h)(?n := Some ?p, x := None)\<rparr>"
  have p: "?p \<in> set (k # as)" by (rule last_in_set) simp
  have n: "?n \<in> set (bs @ [k])" by (cases bs) auto
  have x: "?p \<noteq> x" "?n \<noteq> x"
    using r p n by (auto simp: ring_def)
  have "chain h (butlast (k # as) @ ?p # x # ?n # tl (bs @ [k]))"
  proof -
    have "k # as = butlast (k # as) @ [?p]" by (rule append_butlast_last_id [symmetric]) simp
    moreover have "bs @ [k] = ?n # tl (bs @ [k])" by (cases bs) auto
    moreover have "chain h ((k # as) @ x # (bs @ [k]))" using r by (simp add: ring_def)
    ultimately show ?thesis by (metis append.assoc append_Cons append_Nil)
  qed
  then have links: "nxt h x = Some ?n" "prv h x = Some ?p"
    by (rule chain_mid)+
  have "alive h x" "alive h ?p" "alive h ?n"
    using ring_ends(3)[OF r] p n by auto
  then have "list_del (Some x) h = Inr ?h"
    by (rule list_del_eq[OF links _ _ _ x])
  moreover have "ring ?h k (as @ bs)"
    by (rule ring_remove[OF r refl refl]) simp_all
  moreover have "same_links h ?h (- set (k # as @ x # bs))"
    using p n by (auto simp: same_links_def)
  ultimately show ?thesis by (intro exI[of _ ?h]) simp
qed

text \<open>A node initialised by \<open>INIT_LIST_HEAD\<close> is an empty list of its own.\<close>

lemma init_list_head_ring:
  assumes "alive h k"
  shows "\<exists>h'. INIT_LIST_HEAD (Some k) h = Inr h' \<and> ring h' k [] \<and>
    same_links h h' (- {k}) \<and> alive h' = alive h"
  using assms by (auto simp: INIT_LIST_HEAD_def heap_ops ring_def same_links_def)

lemma list_del_self:
  assumes "ring h k []"
  shows "\<exists>h'. list_del (Some k) h = Inr h' \<and> same_links h h' (- {k}) \<and> alive h' = alive h"
  using assms by (auto simp: list_del_def raw_list_del_def heap_ops ring_def same_links_def)

section \<open>Families of lists\<close>

lemma ringsD: "rings h L \<Longrightarrow> L k = Some xs \<Longrightarrow> ring h k xs"
  by (simp add: rings_def)

lemma rings_disjoint:
  "rings h L \<Longrightarrow> L k = Some xs \<Longrightarrow> L k' = Some xs' \<Longrightarrow> k \<noteq> k' \<Longrightarrow>
   set (k # xs) \<inter> set (k' # xs') = {}"
  unfolding rings_def by blast

lemma in_nodes: "L k = Some xs \<Longrightarrow> a \<in> set (k # xs) \<Longrightarrow> a \<in> nodes L"
  unfolding nodes_def by blast

lemma nodes_upd: "nodes (L(k \<mapsto> xs)) = nodes (L(k := None)) \<union> set (k # xs)"
  by (auto simp: nodes_def split: if_splits)

lemma nodes_del:
  assumes "rings h L" and "L k = Some xs"
  shows "nodes (L(k := None)) = nodes L - set (k # xs)"
proof
  show "nodes (L(k := None)) \<subseteq> nodes L - set (k # xs)"
    using rings_disjoint[OF assms] by (fastforce simp: nodes_def split: if_splits)
next
  have "\<exists>j ys. (L(k := None)) j = Some ys \<and> a \<in> set (j # ys)"
    if "L j = Some ys" "a \<in> set (j # ys)" "a \<notin> set (k # xs)" for j ys a
    using that assms(2) by (intro exI[of _ j] exI[of _ ys]) auto
  then show "nodes L - set (k # xs) \<subseteq> nodes (L(k := None))"
    unfolding nodes_def by blast
qed

lemma rings_restrict: "rings h L \<Longrightarrow> rings h (L(k := None))"
  by (auto simp: rings_def)

lemma rings_same:
  assumes "rings h L" and "same_links h h' (nodes L)"
  shows "rings h' L"
proof -
  have "ring h' k xs" if "L k = Some xs" for k xs
  proof (rule ring_same)
    show "ring h k xs" using assms(1) that by (rule ringsD)
    show "same_links h h' (set (k # xs))"
      using assms(2) in_nodes[of L k xs] that unfolding same_links_def by blast
  qed
  then show ?thesis using assms(1) unfolding rings_def by blast
qed

lemma rings_upd:
  assumes R: "rings h L" and r: "ring h' k xs" and d: "set (k # xs) \<inter> nodes (L(k := None)) = {}"
    and s: "same_links h h' (nodes (L(k := None)))"
  shows "rings h' (L(k \<mapsto> xs))"
proof -
  have R': "rings h' (L(k := None))"
    using rings_same[OF rings_restrict[OF R] s] .
  have other: "(L(k := None)) j = Some ys" if "(L(k \<mapsto> xs)) j = Some ys" "j \<noteq> k" for j ys
    using that by simp
  have sep: "set (k # xs) \<inter> set (j # ys) = {}" if "(L(k := None)) j = Some ys" for j ys
    using d in_nodes[of "L(k := None)" j ys] that by blast
  show ?thesis
    unfolding rings_def
  proof (intro conjI allI impI)
    fix j ys assume j: "(L(k \<mapsto> xs)) j = Some ys"
    show "ring h' j ys"
      by (cases "j = k") (use j r ringsD[OF R'] other in auto)
  next
    fix j ys j' ys'
    assume j: "(L(k \<mapsto> xs)) j = Some ys" and j': "(L(k \<mapsto> xs)) j' = Some ys'" and ne: "j \<noteq> j'"
    show "set (j # ys) \<inter> set (j' # ys') = {}"
    proof (cases "j = k")
      case True
      then have "(L(k := None)) j' = Some ys'" "ys = xs" using j j' ne by auto
      then show ?thesis using sep True by blast
    next
      case False
      note 1 = other[OF j False]
      show ?thesis
      proof (cases "j' = k")
        case True
        then have "ys' = xs" using j' by simp
        then show ?thesis using sep[OF 1] True by blast
      next
        case False
        show ?thesis by (rule rings_disjoint[OF R' 1 other[OF j' False] ne])
      qed
    qed
  qed
qed

text \<open>The operations on a family.\<close>

lemma init_list_head_rings:
  assumes "rings h L" and "k \<notin> nodes L" and "alive h k"
  shows "\<exists>h'. INIT_LIST_HEAD (Some k) h = Inr h' \<and> rings h' (L(k \<mapsto> [])) \<and> alive h' = alive h"
proof -
  obtain h' where h': "INIT_LIST_HEAD (Some k) h = Inr h'" "ring h' k []"
    "same_links h h' (- {k})" "alive h' = alive h"
    using init_list_head_ring[OF assms(3)] by blast
  have sub: "nodes (L(k := None)) \<subseteq> nodes L" by (auto simp: nodes_def split: if_splits)
  have "rings h' (L(k \<mapsto> []))"
    by (rule rings_upd[OF assms(1) h'(2)])
      (use assms(2) sub h'(3) in \<open>auto simp: same_links_def\<close>)
  with h' show ?thesis by blast
qed

lemma list_add_tail_rings:
  assumes "rings h L" and "L k = Some xs" and "x \<notin> nodes L" and "alive h x"
  shows "\<exists>h'. list_add_tail (Some x) (Some k) h = Inr h' \<and> rings h' (L(k \<mapsto> xs @ [x])) \<and>
    alive h' = alive h"
proof -
  have x: "x \<notin> set (k # xs)" using assms(2,3) in_nodes by fast
  obtain h' where h': "list_add_tail (Some x) (Some k) h = Inr h'" "ring h' k (xs @ [x])"
    "same_links h h' (- set (x # k # xs))" "alive h' = alive h"
    using list_add_tail_ring[OF ringsD[OF assms(1,2)] x assms(4)] by blast
  have "rings h' (L(k \<mapsto> xs @ [x]))"
    by (rule rings_upd[OF assms(1) h'(2)])
      (use assms(3) nodes_del[OF assms(1,2)] h'(3) in \<open>auto simp: same_links_def\<close>)
  with h' show ?thesis by blast
qed

lemma list_del_rings:
  assumes "rings h L" and "L k = Some xs" and "x \<in> set xs"
  shows "\<exists>h'. list_del (Some x) h = Inr h' \<and> rings h' (L(k \<mapsto> remove1 x xs)) \<and>
    alive h' = alive h \<and> x \<notin> nodes (L(k \<mapsto> remove1 x xs))"
proof -
  note r = ringsD[OF assms(1,2)]
  have dist: "distinct (k # xs)" using r by (simp add: ring_def)
  from assms(3) obtain as bs where xs: "xs = as @ x # bs" "x \<notin> set as"
    by (meson split_list_first)
  then have rem: "remove1 x xs = as @ bs" by (simp add: remove1_append)
  obtain h' where h': "list_del (Some x) h = Inr h'" "ring h' k (as @ bs)"
    "same_links h h' (- set (k # xs))" "alive h' = alive h"
    using list_del_ring[of h k as x bs] r xs by auto
  have "rings h' (L(k \<mapsto> as @ bs))"
    by (rule rings_upd[OF assms(1) h'(2)])
      (use nodes_del[OF assms(1,2)] xs h'(3) in \<open>auto simp: same_links_def\<close>)
  moreover have "x \<notin> nodes (L(k \<mapsto> as @ bs))"
    unfolding nodes_upd nodes_del[OF assms(1,2)] using dist xs by auto
  ultimately show ?thesis using h' rem by auto
qed


lemma list_del_detached:
  assumes "rings h L" and "L x = Some []"
  shows "\<exists>h'. list_del (Some x) h = Inr h' \<and> rings h' (L(x := None)) \<and> alive h' = alive h \<and>
    x \<notin> nodes (L(x := None))"
proof -
  obtain h' where h': "list_del (Some x) h = Inr h'" "same_links h h' (- {x})" "alive h' = alive h"
    using list_del_self[OF ringsD[OF assms]] by blast
  have n: "nodes (L(x := None)) = nodes L - {x}" using nodes_del[OF assms] by simp
  have "rings h' (L(x := None))"
    by (rule rings_same[OF rings_restrict[OF assms(1)]]) (use h'(2) n in \<open>auto simp: same_links_def\<close>)
  with h' n show ?thesis by blast
qed

lemma ring_cons:
  assumes r: "ring h k xs" and x: "x \<notin> set (k # xs)" and n: "n = hd (xs @ [k])"
    and al: "alive h' = alive h" "alive h x"
    and nx: "nxt h' = (nxt h)(x := Some n, k := Some x)"
    and pv: "prv h' = (prv h)(n := Some x, x := Some k)"
  shows "ring h' k (x # xs)"
proof -
  define zs where "zs = tl (xs @ [k])"
  have split: "xs @ [k] = n # zs" unfolding zs_def n by (cases xs) auto
  have dist: "distinct (n # zs)" using r split[symmetric] by (auto simp: ring_def)
  have "chain h (n # zs)"
    using r split by (cases xs) (auto simp: ring_def)
  moreover have "chain h' (n # zs) = chain h (n # zs)"
  proof (rule chain_cong)
    fix a assume "a \<in> set (butlast (n # zs))"
    then have "a \<in> set xs" using split by (metis butlast_snoc)
    then have "a \<noteq> k" "a \<noteq> x" using r x by (auto simp: ring_def)
    then show "nxt h' a = nxt h a" by (simp add: nx)
  next
    fix a assume a: "a \<in> set (tl (n # zs))"
    then have "a \<in> set (xs @ [k])" using split by auto
    then have "a \<noteq> n" "a \<noteq> x" using a dist x by auto
    then show "prv h' a = prv h a" by (simp add: pv)
  qed
  moreover have "n \<in> set (xs @ [k])" using split by simp
  then have "n \<noteq> x" "k \<noteq> x" using x by auto
  ultimately have "chain h' (k # x # n # zs)" by (simp add: nx pv)
  then have "chain h' (k # (x # xs) @ [k])" using split by simp
  then show ?thesis using r x al by (auto simp: ring_def)
qed

lemma list_add_rings:
  assumes "rings h L" and "L k = Some xs" and "x \<notin> nodes L" and "alive h x"
  shows "\<exists>h'. list_add (Some x) (Some k) h = Inr h' \<and> rings h' (L(k \<mapsto> x # xs)) \<and> alive h' = alive h"
proof -
  note r = ringsD[OF assms(1,2)]
  let ?n = "hd (xs @ [k])"
  let ?h = "h\<lparr>nxt := (nxt h)(x := Some ?n, k := Some x), prv := (prv h)(?n := Some x, x := Some k)\<rparr>"
  have x: "x \<notin> set (k # xs)" using assms(2,3) in_nodes by fast
  have n: "?n \<in> set (k # xs)" by (cases xs) auto
  have "list_add (Some x) (Some k) h = Inr ?h"
    using assms(4) ring_ends[OF r] n x
    by (simp add: list_add_def raw_list_add_def heap_ops)
  moreover have "ring ?h k (x # xs)"
    by (rule ring_cons[OF r x refl]) (simp_all add: assms(4))
  then have "rings ?h (L(k \<mapsto> x # xs))"
    by (rule rings_upd[OF assms(1)])
      (use assms(3) nodes_del[OF assms(1,2)] n in \<open>auto simp: same_links_def\<close>)
  ultimately show ?thesis by (intro exI[of _ ?h]) simp
qed

lemma list_empty_rings:
  assumes "rings h L" and "L k = Some xs"
  shows "list_empty (Some k) h = Inr (xs = [])"
proof -
  note r = ringsD[OF assms]
  have "(hd (xs @ [k]) = k) = (xs = [])"
    using r by (cases xs) (auto simp: ring_def)
  then show ?thesis
    using ring_ends(1,3)[OF r] by (simp add: list_empty_def heap_ops)
qed

lemma chain_walk:
  assumes "chain h (a # zs @ [k])" and "alive h a"
  shows "get_next (Some a) h = Inr (Some (hd (zs @ [k])))"
  using assms by (cases zs) (auto simp: heap_ops)

lemma list_size_loop_chain:
  assumes "chain h (zs @ [k])" and "k \<notin> set zs" and "\<forall>a \<in> set zs. alive h a"
  shows "list_size_loop h (Some k) (Some (hd (zs @ [k]))) s = Some (Inr (s + length zs))"
  using assms
proof (induction zs arbitrary: s)
  case Nil
  show ?case by (simp add: list_size_loop.simps)
next
  case (Cons a zs)
  have "chain h (zs @ [k])" using Cons.prems(1) by (cases zs) auto
  then have "list_size_loop h (Some k) (Some (hd (zs @ [k]))) (Suc s) = Some (Inr (Suc s + length zs))"
    using Cons by simp
  then show ?case
    using Cons.prems chain_walk[of h a zs k] by (subst list_size_loop.simps) auto
qed

lemma list_size_rings:
  assumes "rings h L" and "L k = Some xs"
  shows "list_size (Some k) h = Some (Inr (length xs))"
proof -
  note r = ringsD[OF assms]
  have "chain h (xs @ [k])" using r by (cases xs) (auto simp: ring_def)
  then have "list_size_loop h (Some k) (Some (hd (xs @ [k]))) 0 = Some (Inr (0 + length xs))"
    by (rule list_size_loop_chain) (use r in \<open>auto simp: ring_def\<close>)
  then show ?thesis
    using ring_ends(1,3)[OF r] by (simp add: list_size_def heap_ops)
qed


lemma alloc_node_rings: "rings h L \<Longrightarrow> rings (alloc_node a h) L"
  by (erule rings_same) (auto simp: same_links_def alloc_node_def)

lemma free_node_rings: "rings h L \<Longrightarrow> a \<notin> nodes L \<Longrightarrow> rings (free_node a h) L"
  by (erule rings_same) (auto simp: same_links_def free_node_def)

lemma rings_alive: "rings h L \<Longrightarrow> a \<in> nodes L \<Longrightarrow> alive h a"
  using ringsD ring_ends(3) by (fastforce simp: nodes_def)

text \<open>
  The rule for \<open>list_for_each_safe\<close>: an invariant on the nodes still to be visited. The body may
  unlink (and release) the node it is given, as long as the link from the next node to the one after
  it survives. The loop ends.
\<close>

lemma for_each_safe_loop_rule:
  assumes step: "\<And>a rest s. I (a # rest) s \<Longrightarrow>
      \<exists>s' b. body a s = Inr (s', b) \<and> (if b then Q s' else I rest s')"
    and link: "\<And>a rest s. I (a # rest) s \<Longrightarrow>
      a \<noteq> k \<and> get_next (Some a) (hp s) = Inr (Some (hd (rest @ [k])))"
    and last: "\<And>s. I [] s \<Longrightarrow> Q s \<and> alive (hp s) k"
    and start: "I xs s" and n: "xs \<noteq> [] \<longrightarrow> n = Some (hd (tl xs @ [k]))"
  shows "\<exists>s'. for_each_safe_loop hp body (Some k) (Some (hd (xs @ [k]))) n s = Some (Inr s') \<and> Q s'"
  using start n
proof (induction xs arbitrary: s n)
  case Nil
  then show ?case using last by (simp add: for_each_safe_loop.simps)
next
  case (Cons a rest)
  obtain s' b where b: "body a s = Inr (s', b)" "if b then Q s' else I rest s'"
    using step[OF Cons.prems(1)] by blast
  have n: "n = Some (hd (rest @ [k]))" using Cons.prems(2) by simp
  have a: "a \<noteq> k" using link[OF Cons.prems(1)] by simp
  show ?case
  proof (cases b)
    case True
    then show ?thesis using a b by (simp add: for_each_safe_loop.simps)
  next
    case False
    then have inv: "I rest s'" using b(2) by simp
    obtain n' where n': "get_next n (hp s') = Inr n'" "rest \<noteq> [] \<longrightarrow> n' = Some (hd (tl rest @ [k]))"
    proof (cases rest)
      case Nil
      with inv last have "get_next n (hp s') = Inr (nxt (hp s') k)" using n by (simp add: heap_ops)
      with Nil that show thesis by simp
    next
      case (Cons c rest')
      with inv link n have "get_next n (hp s') = Inr (Some (hd (rest' @ [k])))" by simp
      with Cons that show thesis by simp
    qed
    show ?thesis
      using Cons.IH[OF inv n'(2)] a b n n'(1) False by (simp add: for_each_safe_loop.simps)
  qed
qed

lemma list_for_each_safe_rule:
  assumes step: "\<And>a rest s. I (a # rest) s \<Longrightarrow>
      \<exists>s' b. body a s = Inr (s', b) \<and> (if b then Q s' else I rest s')"
    and link: "\<And>a rest s. I (a # rest) s \<Longrightarrow>
      a \<noteq> k \<and> get_next (Some a) (hp s) = Inr (Some (hd (rest @ [k])))"
    and last: "\<And>s. I [] s \<Longrightarrow> Q s \<and> alive (hp s) k"
    and start: "I xs s" and r: "ring (hp s) k xs"
  shows "\<exists>s'. list_for_each_safe hp body (Some k) s = Some (Inr s') \<and> Q s'"
proof -
  have pos: "get_next (Some k) (hp s) = Inr (Some (hd (xs @ [k])))"
    using ring_ends[OF r] by (simp add: heap_ops)
  obtain n where n: "get_next (Some (hd (xs @ [k]))) (hp s) = Inr n"
    "xs \<noteq> [] \<longrightarrow> n = Some (hd (tl xs @ [k]))"
    using pos link[of "hd xs" "tl xs" s] start by (cases xs) auto
  show ?thesis
    using for_each_safe_loop_rule[where I = I and Q = Q and body = body and hp = hp and k = k,
        OF step link last start n(2)] pos n(1)
    by (simp add: list_for_each_safe_def)
qed

section \<open>The interface clients use\<close>

text \<open>
  What \<^verbatim>\<open>helper.c\<close> and \<^verbatim>\<open>service.c\<close> rely on: adding at the tail and deleting act on a family of
  disjoint lists, and never fault on nodes that are where the family says. The client's idiom, moving
  a node from one list to another with \<open>list_del\<close> and \<open>list_add_tail\<close>, is proved here once.
\<close>

locale list_family =
  fixes repr :: "'h \<Rightarrow> ('n \<rightharpoonup> 'n list) \<Rightarrow> bool"
    and live :: "'h \<Rightarrow> 'n \<Rightarrow> bool"
    and add_tail :: "'n \<Rightarrow> 'n \<Rightarrow> 'h \<Rightarrow> fault + 'h"
    and del :: "'n \<Rightarrow> 'h \<Rightarrow> fault + 'h"
  assumes repr_live: "repr h L \<Longrightarrow> a \<in> nodes L \<Longrightarrow> live h a"
    and add_tail_law: "repr h L \<Longrightarrow> L k = Some xs \<Longrightarrow> x \<notin> nodes L \<Longrightarrow> live h x \<Longrightarrow>
      \<exists>h'. add_tail x k h = Inr h' \<and> repr h' (L(k \<mapsto> xs @ [x])) \<and> live h' = live h"
    and del_law: "repr h L \<Longrightarrow> L k = Some xs \<Longrightarrow> x \<in> set xs \<Longrightarrow>
      \<exists>h'. del x h = Inr h' \<and> repr h' (L(k \<mapsto> remove1 x xs)) \<and> live h' = live h \<and>
        x \<notin> nodes (L(k \<mapsto> remove1 x xs))"
    and del_detached_law: "repr h L \<Longrightarrow> L x = Some [] \<Longrightarrow>
      \<exists>h'. del x h = Inr h' \<and> repr h' (L(x := None)) \<and> live h' = live h \<and> x \<notin> nodes (L(x := None))"
begin

lemma requeue:
  assumes "repr h L" and "L k = Some xs" and "x \<in> set xs" and "L j = Some ys" and "j \<noteq> k"
  shows "\<exists>h'. andThen (del x h) (add_tail x j) = Inr h' \<and>
    repr h' (L(k \<mapsto> remove1 x xs, j \<mapsto> ys @ [x])) \<and> live h' = live h"
proof -
  obtain h1 where h1: "del x h = Inr h1" "repr h1 (L(k \<mapsto> remove1 x xs))" "live h1 = live h"
    "x \<notin> nodes (L(k \<mapsto> remove1 x xs))"
    using del_law[OF assms(1,2,3)] by blast
  have "live h1 x"
    using repr_live[OF assms(1), of x] assms(2,3) h1(3) by (auto simp: nodes_def)
  then show ?thesis
    using add_tail_law[OF h1(2) _ h1(4), of j ys] assms(4,5) h1(1,3) by auto
qed

lemma enqueue_detached:
  assumes "repr h L" and "L x = Some []" and "L j = Some ys" and "j \<noteq> x"
  shows "\<exists>h'. andThen (del x h) (add_tail x j) = Inr h' \<and>
    repr h' ((L(x := None))(j \<mapsto> ys @ [x])) \<and> live h' = live h"
proof -
  obtain h1 where h1: "del x h = Inr h1" "repr h1 (L(x := None))" "live h1 = live h"
    "x \<notin> nodes (L(x := None))"
    using del_detached_law[OF assms(1,2)] by blast
  have "live h1 x"
    using repr_live[OF assms(1), of x] assms(2) h1(3) by (auto simp: nodes_def)
  then show ?thesis
    using add_tail_law[OF h1(2) _ h1(4), of j ys] assms(3,4) h1(1,3) by auto
qed

end

interpretation list_h: list_family rings alive "\<lambda>x k. list_add_tail (Some x) (Some k)"
  "\<lambda>x. list_del (Some x)"
  by unfold_locales
    (blast intro: rings_alive list_add_tail_rings list_del_rings list_del_detached)+

section \<open>Properties\<close>

lemma drain_step:
  assumes "rings h (L(k \<mapsto> a # rest))"
  shows "\<exists>h'. list_del (Some a) h = Inr h' \<and> rings h' (L(k \<mapsto> rest))" and "a \<noteq> k"
    and "get_next (Some a) h = Inr (Some (hd (rest @ [k])))"
proof -
  have r: "ring h k (a # rest)" by (rule ringsD[OF assms]) simp
  show "\<exists>h'. list_del (Some a) h = Inr h' \<and> rings h' (L(k \<mapsto> rest))" using list_del_rings[OF assms, of k "a # rest" a] by auto
  show "a \<noteq> k" using r by (auto simp: ring_def)
  show "get_next (Some a) h = Inr (Some (hd (rest @ [k])))" by (rule chain_walk) (use r in \<open>auto simp: ring_def\<close>)
qed

text \<open>
  C18: Walks over a list end. On a heap that represents a list, \<open>list_size\<close> returns the number of its nodes, and a
  \<open>list_for_each_safe\<close> whose body unlinks the node it is given visits them all and leaves the list empty and
  every other list as it was.
\<close>

theorem list_walks_end:
  assumes "rings h L" and "L k = Some xs"
  shows "list_size (Some k) h = Some (Inr (length xs)) \<and>
    (\<exists>h'. list_for_each_safe id (\<lambda>a h. andThen (list_del (Some a) h) (\<lambda>h'. Inr (h', False))) (Some k) h = Some (Inr h') \<and>
      rings h' (L(k \<mapsto> [])))"
proof -
  let ?I = "\<lambda>rest h'. rings h' (L(k \<mapsto> rest))"
  have L: "L(k \<mapsto> xs) = L" using assms(2) by auto
  have "\<exists>h'. list_for_each_safe id (\<lambda>a h. andThen (list_del (Some a) h) (\<lambda>h'. Inr (h', False))) (Some k) h = Some (Inr h') \<and> ?I [] h'"
  proof (rule list_for_each_safe_rule[where I = ?I and xs = xs])
    fix a rest h' assume i: "?I (a # rest) h'"
    show "\<exists>s' b. andThen (list_del (Some a) h') (\<lambda>h'. Inr (h', False)) = Inr (s', b) \<and> (if b then ?I [] s' else ?I rest s')"
    proof -
      obtain h2 where "list_del (Some a) h' = Inr h2" "?I rest h2" using drain_step(1)[OF i] by (elim exE conjE) (rule that)
      then show ?thesis by (intro exI[of _ h2] exI[of _ False]) simp
    qed
    show "a \<noteq> k \<and> get_next (Some a) (id h') = Inr (Some (hd (rest @ [k])))" using drain_step(2,3)[OF i] by simp
  next
    fix h' assume "?I [] h'"
    moreover from this have "ring h' k []" by (rule ringsD) simp
    ultimately show "?I [] h' \<and> alive (id h') k" by (simp add: ring_def)
  next
    show "?I xs h" unfolding L by (rule assms(1))
    show "ring (id h) k xs" using ringsD[OF assms] by simp
  qed
  then show ?thesis using list_size_rings[OF assms] by blast
qed

definition two_nodes :: "nat list_heap" where
  "two_nodes = \<lparr>nxt = [0 \<mapsto> 1, 1 \<mapsto> 2, 2 \<mapsto> 0], prv = [0 \<mapsto> 2, 1 \<mapsto> 0, 2 \<mapsto> 1], alive = (\<lambda>n. n \<le> 2)\<rparr>"

theorem list_walks_end_witness: "list_size (Some 0) two_nodes = Some (Inr 2)"
proof -
  have "rings two_nodes [0 \<mapsto> [1, 2]]" by (auto simp: rings_def ring_def two_nodes_def)
  then show ?thesis using list_walks_end[of two_nodes "[0 \<mapsto> [1, 2]]" 0 "[1, 2]"] by simp
qed

end
