(* ===== verification/Services.thy ===== *)
theory Services
  imports Intrusive_List
begin

text \<open>
  The service registry of the helper (\<^verbatim>\<open>kgpu/src/userSpace/service.c\<close>) on the lists of \<^verbatim>\<open>list.h\<close>,
  and the two structures the helper and its services share, \<open>struct kgpu_service_request\<close>
  (\<^verbatim>\<open>no_kernel.h\<close>) and \<open>struct kgpu_service\<close> (\<^verbatim>\<open>userSpace/service.h\<close>). Dynamic libraries are parameters.
\<close>

section \<open>Requests and services\<close>

record kgpu_service_request =
  sr_id :: int
  hin :: ulong
  hout :: ulong
  hdata :: ulong
  din :: ulong
  dout :: ulong
  ddata :: ulong
  insize :: ulong
  outsize :: ulong
  datasize :: ulong
  errcode :: int
  sr_s :: "nat option"
  block_x :: int
  block_y :: int
  grid_x :: int
  grid_y :: int
  sr_state :: int
  stream_id :: int
  stream :: ulong

definition zero_sr :: kgpu_service_request where
  "zero_sr = \<lparr>sr_id = 0, hin = 0, hout = 0, hdata = 0, din = 0, dout = 0, ddata = 0, insize = 0, outsize = 0,
     datasize = 0, errcode = 0, sr_s = None, block_x = 0, block_y = 0, grid_x = 0, grid_y = 0, sr_state = 0,
     stream_id = 0, stream = 0\<rparr>"

definition KGPU_REQ_INIT :: int where "KGPU_REQ_INIT = 1"

definition KGPU_REQ_MEM_DONE :: int where "KGPU_REQ_MEM_DONE = 2"

definition KGPU_REQ_PREPARED :: int where "KGPU_REQ_PREPARED = 3"

definition KGPU_REQ_RUNNING :: int where "KGPU_REQ_RUNNING = 4"

definition KGPU_REQ_POST_EXEC :: int where "KGPU_REQ_POST_EXEC = 5"

definition KGPU_REQ_DONE :: int where "KGPU_REQ_DONE = 6"

lemmas req_state_defs = KGPU_REQ_INIT_def KGPU_REQ_MEM_DONE_def KGPU_REQ_PREPARED_def KGPU_REQ_RUNNING_def
  KGPU_REQ_POST_EXEC_def KGPU_REQ_DONE_def

type_synonym service_fn = "kgpu_service_request \<Rightarrow> int \<times> kgpu_service_request"

record kgpu_service =
  svc_name :: string
  svc_sid :: int
  compute_size :: service_fn
  launch :: service_fn
  prepare :: service_fn
  post :: service_fn

section \<open>The registry\<close>

text \<open>
  The nodes of the registry's list: its head and the \<open>list\<close> member of each \<open>struct _kgpu_sitem\<close>. Items
  and services are addressed by numbers; the services are static objects of their libraries.
\<close>

datatype snode = ServicesHead | SItem nat

record sitem =
  si_s :: nat
  libhandle :: "nat option"

record registry =
  sheap :: "snode list_heap"
  sitems :: "nat \<Rightarrow> sitem"
  service_at :: "nat \<Rightarrow> kgpu_service"
  open_libs :: "nat list"

text \<open>\<open>strncmp(a, b, n) == 0\<close>; the end of a list stands for a terminator.\<close>

fun strncmp_eq :: "nat \<Rightarrow> string \<Rightarrow> string \<Rightarrow> bool" where
  "strncmp_eq 0 a b = True"
| "strncmp_eq (Suc n) a b =
     (let x = (case a of [] \<Rightarrow> CHR 0x00 | c # _ \<Rightarrow> c); y = (case b of [] \<Rightarrow> CHR 0x00 | c # _ \<Rightarrow> c) in
      if x \<noteq> y then False else if x = CHR 0x00 then True else strncmp_eq n (tl a) (tl b))"

definition cstr :: "nat \<Rightarrow> string \<Rightarrow> string" where
  "cstr n a = takeWhile (\<lambda>c. c \<noteq> CHR 0x00) (take n a)"

partial_function (option) lookup_loop :: "registry \<Rightarrow> string \<Rightarrow> snode option \<Rightarrow> nat option run" where
  "lookup_loop reg name e =
     (if e = Some ServicesHead then Some (Inr None)
      else case e of
        Some (SItem i) \<Rightarrow>
          (if \<not> alive (sheap reg) (SItem i) then Some (Inl UseAfterFree)
           else if strncmp_eq KGPU_SERVICE_NAME_SIZE name (svc_name (service_at reg (si_s (sitems reg i))))
           then Some (Inr (Some i))
           else case get_next e (sheap reg) of
             Inl f \<Rightarrow> Some (Inl f)
           | Inr e' \<Rightarrow> lookup_loop reg name e')
      | _ \<Rightarrow> Some (Inl NullDeref))"

definition lookup_kgpu_sitem :: "string option \<Rightarrow> registry \<Rightarrow> nat option run" where
  "lookup_kgpu_sitem name reg =
     (case name of
        None \<Rightarrow> Some (Inr None)
      | Some nm \<Rightarrow> bindO (Some (get_next (Some ServicesHead) (sheap reg))) (lookup_loop reg nm))"

definition kh_lookup_service :: "string option \<Rightarrow> registry \<Rightarrow> nat option run" where
  "kh_lookup_service name reg =
     bindO (lookup_kgpu_sitem name reg) (\<lambda>i. Some (Inr (map_option (\<lambda>i. si_s (sitems reg i)) i)))"

text \<open>\<open>m\<close> is what \<open>malloc\<close> returns.\<close>

definition kh_register_service :: "nat option \<Rightarrow> nat option \<Rightarrow> nat option \<Rightarrow> registry \<Rightarrow> fault + (int \<times> registry)" where
  "kh_register_service m s lib reg =
     (case s of
        None \<Rightarrow> Inr (1, reg)
      | Some sv \<Rightarrow>
          (case m of
             None \<Rightarrow> Inr (1, reg)
           | Some i \<Rightarrow>
               let reg1 = reg\<lparr>sheap := alloc_node (SItem i) (sheap reg),
                              sitems := (sitems reg)(i := \<lparr>si_s = sv, libhandle = lib\<rparr>)\<rparr> in
               andThen (INIT_LIST_HEAD (Some (SItem i)) (sheap reg1)) (\<lambda>h.
               andThen (list_add_tail (Some (SItem i)) (Some ServicesHead) h) (\<lambda>h'.
               Inr (0, reg1\<lparr>sheap := h'\<rparr>)))))"

definition unregister_sitem :: "nat option \<Rightarrow> registry \<Rightarrow> fault + (int \<times> registry)" where
  "unregister_sitem q reg =
     (case q of
        None \<Rightarrow> Inr (1, reg)
      | Some i \<Rightarrow>
          andThen (list_del (Some (SItem i)) (sheap reg)) (\<lambda>h.
          Inr (0, reg\<lparr>sheap := free_node (SItem i) h\<rparr>)))"

definition kh_unregister_service :: "string option \<Rightarrow> registry \<Rightarrow> (int \<times> registry) run" where
  "kh_unregister_service name reg =
     bindO (lookup_kgpu_sitem name reg) (\<lambda>q. Some (unregister_sitem q reg))"

text \<open>
  The dynamic linker: what \<open>dlopen\<close> returns for a path, and the \<open>init_service\<close> and \<open>finit_service\<close>
  functions \<open>dlsym\<close> finds in a library. They call back into the registry.
\<close>

record linker =
  dlopen :: "string \<Rightarrow> nat option"
  dl_init :: "nat \<Rightarrow> (registry \<Rightarrow> (int \<times> registry) run) option"
  dl_finit :: "nat \<Rightarrow> (registry \<Rightarrow> (int \<times> registry) run) option"

definition dlclose :: "nat \<Rightarrow> registry \<Rightarrow> registry" where
  "dlclose lh reg = reg\<lparr>open_libs := remove1 lh (open_libs reg)\<rparr>"

definition kh_load_service :: "linker \<Rightarrow> string \<Rightarrow> registry \<Rightarrow> (int \<times> registry) run" where
  "kh_load_service dl libpath reg =
     (case dlopen dl libpath of
        None \<Rightarrow> Some (Inr (1, reg))
      | Some lh \<Rightarrow>
          let reg1 = reg\<lparr>open_libs := lh # open_libs reg\<rparr> in
          (case dl_init dl lh of
             None \<Rightarrow> Some (Inr (1, dlclose lh reg1))
           | Some init \<Rightarrow>
               bindO (init reg1) (\<lambda>(e, reg2).
               Some (Inr (if e \<noteq> 0 then (1, dlclose lh reg2) else (0, reg2))))))"

text \<open>\<open>paths\<close> is what \<open>glob\<close> finds for \<^verbatim>\<open>libsrv_*\<close>.\<close>

fun kh_load_all_services :: "linker \<Rightarrow> string list \<Rightarrow> registry \<Rightarrow> (int \<times> registry) run" where
  "kh_load_all_services dl [] reg = Some (Inr (0, reg))"
| "kh_load_all_services dl (p # ps) reg =
     bindO (kh_load_service dl p reg) (\<lambda>(e, reg1).
     bindO (kh_load_all_services dl ps reg1) (\<lambda>(e', reg2). Some (Inr (e + e', reg2))))"

definition unload_sitem :: "linker \<Rightarrow> nat option \<Rightarrow> registry \<Rightarrow> (int \<times> registry) run" where
  "unload_sitem dl q reg =
     (case q of
        None \<Rightarrow> Some (Inr (1, reg))
      | Some i \<Rightarrow>
          (if \<not> alive (sheap reg) (SItem i) then Some (Inl UseAfterFree)
           else case libhandle (sitems reg i) of
             Some lh \<Rightarrow>
               (case dl_finit dl lh of
                  Some finit \<Rightarrow>
                    bindO (finit reg) (\<lambda>(e, reg1).
                    if e \<noteq> 0 \<and> \<not> alive (sheap reg1) (SItem i) then Some (Inl UseAfterFree)
                    else Some (Inr (if e \<noteq> 0 then 1 else 0, dlclose lh reg1)))
                | None \<Rightarrow>
                    bindO (Some (unregister_sitem (Some i) reg)) (\<lambda>(e, reg1). Some (Inr (0, dlclose lh reg1))))
           | None \<Rightarrow> bindO (Some (unregister_sitem (Some i) reg)) (\<lambda>(e, reg1). Some (Inr (0, reg1)))))"

definition kh_unload_service :: "linker \<Rightarrow> string option \<Rightarrow> registry \<Rightarrow> (int \<times> registry) run" where
  "kh_unload_service dl name reg = bindO (lookup_kgpu_sitem name reg) (\<lambda>q. unload_sitem dl q reg)"

partial_function (option) unload_all_loop :: "linker \<Rightarrow> snode option \<Rightarrow> snode option \<Rightarrow> int \<Rightarrow> registry \<Rightarrow>
  (int \<times> registry) run" where
  "unload_all_loop dl p n e reg =
     (if p = Some ServicesHead then Some (Inr (e, reg))
      else case p of
        Some (SItem i) \<Rightarrow>
          (case unload_sitem dl (Some i) reg of
             None \<Rightarrow> None
           | Some (Inl f) \<Rightarrow> Some (Inl f)
           | Some (Inr (r, reg1)) \<Rightarrow>
               (case get_next n (sheap reg1) of
                  Inl f \<Rightarrow> Some (Inl f)
                | Inr n' \<Rightarrow> unload_all_loop dl n n' (e + r) reg1))
      | _ \<Rightarrow> Some (Inl NullDeref))"

declare lookup_loop.simps [code] unload_all_loop.simps [code]

definition kh_unload_all_services :: "linker \<Rightarrow> registry \<Rightarrow> (int \<times> registry) run" where
  "kh_unload_all_services dl reg =
     bindO (Some (get_next (Some ServicesHead) (sheap reg))) (\<lambda>p.
     bindO (Some (get_next p (sheap reg))) (\<lambda>n. unload_all_loop dl p n 0 reg))"


section \<open>The registry as a list\<close>

text \<open>The items in order of registration.\<close>

definition registered :: "registry \<Rightarrow> nat list \<Rightarrow> bool" where
  "registered reg xs \<longleftrightarrow> rings (sheap reg) [ServicesHead \<mapsto> map SItem xs]"

definition item_name :: "registry \<Rightarrow> nat \<Rightarrow> string" where
  "item_name reg i = cstr KGPU_SERVICE_NAME_SIZE (svc_name (service_at reg (si_s (sitems reg i))))"

lemma strncmp_eq_cstr: "strncmp_eq n a b \<longleftrightarrow> cstr n a = cstr n b"
proof (induction n arbitrary: a b)
  case 0
  show ?case by (simp add: cstr_def)
next
  case (Suc n)
  show ?case using Suc[of "tl a" "tl b"] by (cases a; cases b) (auto simp: cstr_def Let_def)
qed

lemma lookup_loop_chain:
  assumes "chain (sheap reg) (map SItem xs @ [ServicesHead])" and "\<forall>i \<in> set xs. alive (sheap reg) (SItem i)"
  shows "lookup_loop reg name (Some (hd (map SItem xs @ [ServicesHead]))) =
    Some (Inr (find (\<lambda>i. cstr KGPU_SERVICE_NAME_SIZE name = item_name reg i) xs))"
  using assms
proof (induction xs)
  case Nil
  show ?case by (simp add: lookup_loop.simps)
next
  case (Cons i xs)
  have "chain (sheap reg) (map SItem xs @ [ServicesHead])" using Cons.prems(1) by (cases xs) auto
  then have ih: "lookup_loop reg name (Some (hd (map SItem xs @ [ServicesHead]))) =
      Some (Inr (find (\<lambda>i. cstr KGPU_SERVICE_NAME_SIZE name = item_name reg i) xs))" using Cons by simp
  have "get_next (Some (SItem i)) (sheap reg) = Inr (Some (hd (map SItem xs @ [ServicesHead])))"
    using chain_walk[of "sheap reg" "SItem i" "map SItem xs" ServicesHead] Cons.prems by simp
  then show ?case using ih Cons.prems(2)
    by (subst lookup_loop.simps) (simp add: strncmp_eq_cstr item_name_def)
qed

lemma lookup_sitem_find:
  assumes "registered reg xs"
  shows "lookup_kgpu_sitem (Some name) reg =
    Some (Inr (find (\<lambda>i. cstr KGPU_SERVICE_NAME_SIZE name = item_name reg i) xs))"
proof -
  have r: "ring (sheap reg) ServicesHead (map SItem xs)"
    using ringsD[of "sheap reg"] assms by (simp add: registered_def)
  have "chain (sheap reg) (map SItem xs @ [ServicesHead])" using r by (cases xs) (auto simp: ring_def)
  moreover have "\<forall>i \<in> set xs. alive (sheap reg) (SItem i)" using r by (auto simp: ring_def)
  ultimately show ?thesis
    using lookup_loop_chain ring_ends[OF r] by (simp add: lookup_kgpu_sitem_def heap_ops)
qed

lemma nodes_registered: "nodes [ServicesHead \<mapsto> map SItem xs] = insert ServicesHead (SItem ` set xs)"
  by (auto simp: nodes_def split: if_splits)

lemma register_law:
  assumes "registered reg xs" and "i \<notin> set xs"
  shows "\<exists>reg'. kh_register_service (Some i) (Some s) lib reg = Inr (0, reg') \<and> registered reg' (xs @ [i]) \<and>
    sitems reg' = (sitems reg)(i := \<lparr>si_s = s, libhandle = lib\<rparr>) \<and> service_at reg' = service_at reg"
proof -
  let ?L = "[ServicesHead \<mapsto> map SItem xs]"
  let ?h = "alloc_node (SItem i) (sheap reg)"
  have n: "SItem i \<notin> nodes ?L" using assms(2) by (auto simp: nodes_registered)
  have al: "alive ?h (SItem i)" by (simp add: alloc_node_def)
  have R: "rings ?h ?L" using assms(1) alloc_node_rings by (simp add: registered_def)
  obtain h1 where h1: "INIT_LIST_HEAD (Some (SItem i)) ?h = Inr h1" "rings h1 (?L(SItem i \<mapsto> []))" "alive h1 = alive ?h"
    using init_list_head_rings[OF R n al] by blast
  have "?L(SItem i \<mapsto> [], SItem i := None) = ?L" by (auto simp: fun_eq_iff)
  then have R1: "rings h1 ?L" using rings_restrict[OF h1(2), of "SItem i"] by simp
  obtain h2 where h2: "list_add_tail (Some (SItem i)) (Some ServicesHead) h1 = Inr h2"
    "rings h2 (?L(ServicesHead \<mapsto> map SItem xs @ [SItem i]))"
    using list_add_tail_rings[OF R1 _ n, of ServicesHead] al h1(3) by auto
  then show ?thesis using h1 by (simp add: kh_register_service_def registered_def Let_def)
qed

lemma unregister_law:
  assumes "registered reg xs" and "i \<in> set xs"
  shows "\<exists>reg'. unregister_sitem (Some i) reg = Inr (0, reg') \<and> registered reg' (remove1 i xs) \<and>
    \<not> alive (sheap reg') (SItem i) \<and> sitems reg' = sitems reg \<and> service_at reg' = service_at reg"
proof -
  let ?L = "[ServicesHead \<mapsto> map SItem xs]"
  have rem: "remove1 (SItem i) (map SItem xs) = map SItem (remove1 i xs)"
    by (induction xs) auto
  obtain h' where h': "list_del (Some (SItem i)) (sheap reg) = Inr h'"
    "rings h' [ServicesHead \<mapsto> map SItem (remove1 i xs)]" "SItem i \<notin> nodes [ServicesHead \<mapsto> map SItem (remove1 i xs)]"
    using list_del_rings[of "sheap reg" ?L ServicesHead "map SItem xs" "SItem i"] assms rem
    by (auto simp: registered_def)
  have "rings (free_node (SItem i) h') [ServicesHead \<mapsto> map SItem (remove1 i xs)]"
    using free_node_rings[OF h'(2,3)] .
  then show ?thesis using h'(1) by (simp add: unregister_sitem_def registered_def free_node_def)
qed


section \<open>What the helper relies on\<close>

text \<open>
  A directory of services: its contents are a list, a lookup ends without a fault and finds the first entry
  whose name agrees with the wanted one.
\<close>

locale service_directory =
  fixes repr :: "'r \<Rightarrow> nat list \<Rightarrow> bool"
    and entry_name :: "'r \<Rightarrow> nat \<Rightarrow> string"
    and entry_service :: "'r \<Rightarrow> nat \<Rightarrow> nat"
    and key :: "string \<Rightarrow> string"
    and lookup :: "string \<Rightarrow> 'r \<Rightarrow> nat option run"
  assumes lookup_law: "repr r xs \<Longrightarrow>
    lookup nm r = Some (Inr (map_option (entry_service r) (find (\<lambda>i. key nm = entry_name r i) xs)))"
begin

lemma lookup_ends: "repr r xs \<Longrightarrow> \<exists>q. lookup nm r = Some (Inr q)"
  by (simp add: lookup_law)

lemma lookup_absent:
  "repr r xs \<Longrightarrow> lookup nm r = Some (Inr None) \<longleftrightarrow> (\<forall>i \<in> set xs. key nm \<noteq> entry_name r i)"
  by (auto simp: lookup_law find_None_iff)

end

interpretation registry: service_directory registered item_name "\<lambda>reg i. si_s (sitems reg i)"
  "cstr KGPU_SERVICE_NAME_SIZE" "\<lambda>nm. kh_lookup_service (Some nm)"
  by unfold_locales (simp add: kh_lookup_service_def lookup_sitem_find)

section \<open>The test service library\<close>

text \<open>\<^verbatim>\<open>services/test/libsrv_test/srv_test.c\<close>: one service whose functions do nothing and succeed.\<close>

definition empty_srv :: kgpu_service where
  "empty_srv = \<lparr>svc_name = ''empty_service'', svc_sid = 1, compute_size = (\<lambda>sr. (0, sr)),
     launch = (\<lambda>sr. (0, sr)), prepare = (\<lambda>sr. (0, sr)), post = (\<lambda>sr. (0, sr))\<rparr>"

definition init_service :: "nat option \<Rightarrow> nat \<Rightarrow> nat \<Rightarrow> registry \<Rightarrow> (int \<times> registry) run" where
  "init_service m s lh reg =
     Some (kh_register_service m (Some s) (Some lh) (reg\<lparr>service_at := (service_at reg)(s := empty_srv)\<rparr>))"

definition finit_service :: "registry \<Rightarrow> (int \<times> registry) run" where
  "finit_service reg = kh_unregister_service (Some (svc_name empty_srv)) reg"

section \<open>Properties\<close>

definition boot_registry :: registry where
  "boot_registry = \<lparr>sheap = \<lparr>nxt = (\<lambda>_. None)(ServicesHead \<mapsto> ServicesHead),
       prv = (\<lambda>_. None)(ServicesHead \<mapsto> ServicesHead), alive = (\<lambda>n. n = ServicesHead)\<rparr>,
     sitems = (\<lambda>_. \<lparr>si_s = 0, libhandle = None\<rparr>),
     service_at = (\<lambda>s. empty_srv\<lparr>svc_name := if s = 0 then ''hash'' else ''crypt''\<rparr>), open_libs = []\<rparr>"

lemma boot_registry_empty: "registered boot_registry []"
  by (simp add: registered_def rings_def ring_def boot_registry_def)

text \<open>
  C25: The registry is a list in order of registration. \<open>kh_register_service\<close> appends an item,
  \<open>kh_lookup_service\<close> ends and returns the first registered service whose name agrees up to the terminator or
  32 characters (\<open>NULL\<close> when there is none), and \<open>kh_unregister_service\<close> removes and frees exactly the first
  item with the name, or reports 1.
\<close>

theorem registry_refines_list:
  assumes reg: "registered reg xs" and i: "i \<notin> set xs"
  shows "(\<exists>reg'. kh_register_service (Some i) (Some s) lib reg = Inr (0, reg') \<and> registered reg' (xs @ [i]) \<and>
      si_s (sitems reg' i) = s) \<and>
    kh_lookup_service (Some nm) reg =
      Some (Inr (map_option (\<lambda>j. si_s (sitems reg j)) (find (\<lambda>j. cstr 32 nm = item_name reg j) xs))) \<and>
    (case find (\<lambda>j. cstr 32 nm = item_name reg j) xs of
       None \<Rightarrow> kh_unregister_service (Some nm) reg = Some (Inr (1, reg))
     | Some j \<Rightarrow> \<exists>reg'. kh_unregister_service (Some nm) reg = Some (Inr (0, reg')) \<and>
         registered reg' (remove1 j xs) \<and> \<not> alive (sheap reg') (SItem j))"
proof -
  note find = lookup_sitem_find[OF reg, of nm, unfolded KGPU_SERVICE_NAME_SIZE_def]
  have reg': "\<exists>reg'. kh_register_service (Some i) (Some s) lib reg = Inr (0, reg') \<and> registered reg' (xs @ [i]) \<and>
      si_s (sitems reg' i) = s"
    using register_law[OF reg i, of s lib] by auto
  have unreg: "case find (\<lambda>j. cstr 32 nm = item_name reg j) xs of
       None \<Rightarrow> kh_unregister_service (Some nm) reg = Some (Inr (1, reg))
     | Some j \<Rightarrow> \<exists>reg'. kh_unregister_service (Some nm) reg = Some (Inr (0, reg')) \<and>
         registered reg' (remove1 j xs) \<and> \<not> alive (sheap reg') (SItem j)"
  proof (cases "find (\<lambda>j. cstr 32 nm = item_name reg j) xs")
    case None
    then show ?thesis using find by (simp add: kh_unregister_service_def unregister_sitem_def)
  next
    case (Some j)
    then have "j \<in> set xs" by (auto simp: find_Some_iff)
    from unregister_law[OF reg this] show ?thesis using find Some by (auto simp: kh_unregister_service_def)
  qed
  show ?thesis
    using reg' unreg registry.lookup_law[OF reg, of nm] by (simp add: KGPU_SERVICE_NAME_SIZE_def)
qed

theorem registry_refines_list_witness:
  "(\<exists>reg'. kh_register_service (Some 3) (Some 0) None boot_registry = Inr (0, reg') \<and> registered reg' ([] @ [3]) \<and>
      si_s (sitems reg' 3) = 0) \<and>
   kh_lookup_service (Some ''hash'') boot_registry = Some (Inr None) \<and>
   kh_unregister_service (Some ''hash'') boot_registry = Some (Inr (1, boot_registry))"
  using registry_refines_list[OF boot_registry_empty, of 3 0 None "''hash''"] by simp

text \<open>
  \<open>kh_load_service\<close> succeeds exactly when the library opens, has an \<open>init_service\<close> function and this
  function returns 0; then the library stays open. In every other case (the function not faulting) it
  returns 1 and the library has been closed again.
\<close>

theorem load_service_outcome:
  assumes "\<And>lh f reg. dl_init dl lh = Some f \<Longrightarrow> \<exists>e reg'. f reg = Some (Inr (e, reg')) \<and> open_libs reg' = open_libs reg"
  shows "\<exists>r reg'. kh_load_service dl path reg = Some (Inr (r, reg')) \<and>
    (if \<exists>lh f reg1. dlopen dl path = Some lh \<and> dl_init dl lh = Some f \<and>
        f (reg\<lparr>open_libs := lh # open_libs reg\<rparr>) = Some (Inr (0, reg1))
     then r = 0 \<and> open_libs reg' = the (dlopen dl path) # open_libs reg
     else r = 1 \<and> open_libs reg' = open_libs reg)"
proof (cases "dlopen dl path")
  case None
  then show ?thesis by (simp add: kh_load_service_def)
next
  case (Some lh)
  show ?thesis
  proof (cases "dl_init dl lh")
    case None
    then show ?thesis using Some by (simp add: kh_load_service_def dlclose_def)
  next
    case (Some f)
    obtain e reg1 where "f (reg\<lparr>open_libs := lh # open_libs reg\<rparr>) = Some (Inr (e, reg1))"
      "open_libs reg1 = lh # open_libs reg"
      using assms[OF Some, of "reg\<lparr>open_libs := lh # open_libs reg\<rparr>"] by auto
    then show ?thesis using Some \<open>dlopen dl path = Some lh\<close> by (auto simp: kh_load_service_def dlclose_def)
  qed
qed

definition test_linker :: linker where
  "test_linker = \<lparr>dlopen = (\<lambda>p. if p = ''libsrv_test'' then Some 7 else None),
     dl_init = (\<lambda>lh. Some (\<lambda>reg. Some (Inr (0, reg)))), dl_finit = (\<lambda>lh. Some finit_service)\<rparr>"

theorem load_service_outcome_witness:
  "\<exists>r reg'. kh_load_service test_linker ''libsrv_test'' boot_registry = Some (Inr (r, reg')) \<and>
    r = 0 \<and> open_libs reg' = 7 # open_libs boot_registry"
  using load_service_outcome[of test_linker "''libsrv_test''" boot_registry] by (auto simp: test_linker_def)

definition finit_both :: "registry \<Rightarrow> (int \<times> registry) run" where
  "finit_both reg = bindO (kh_unregister_service (Some ''hash'') reg)
     (\<lambda>(e, reg1). kh_unregister_service (Some ''crypt'') reg1)"

definition two_services :: "fault + (int \<times> registry)" where
  "two_services = andThen (kh_register_service (Some 0) (Some 0) (Some 7) boot_registry)
     (\<lambda>(e, reg). kh_register_service (Some 1) (Some 1) (Some 7) reg)"

lemma two_services_registered: "\<exists>reg. two_services = Inr (0, reg) \<and> registered reg [0, 1]"
proof -
  obtain r1 where r1: "kh_register_service (Some 0) (Some 0) (Some 7) boot_registry = Inr (0, r1)" "registered r1 [0]"
    using register_law[OF boot_registry_empty, of 0 0 "Some 7"] by auto
  obtain r2 where "kh_register_service (Some 1) (Some 1) (Some 7) r1 = Inr (0, r2)" "registered r2 [0, 1]"
    using register_law[OF r1(2), of 1 1 "Some 7"] by auto
  with r1 show ?thesis by (simp add: two_services_def)
qed

lemma two_services_unload:
  "case two_services of Inl f \<Rightarrow> False
   | Inr (e, reg) \<Rightarrow> fault_of (kh_unload_all_services (test_linker\<lparr>dl_finit := \<lambda>lh. Some finit_both\<rparr>) reg) =
       Some UseAfterFree"
  by code_simp


end
