(* ===== verification/Gpu.thy ===== *)
theory Gpu
  imports Services
begin

text \<open>
  The OpenCL back end of the helper (\<^verbatim>\<open>kgpu/src/gpuSpace/openCLOperations.c\<close>): set-up and release of the
  OpenCL objects, streams, device addresses of a request's buffers, and the merging of the page ranges to
  pin. What the OpenCL library and \<open>malloc\<close> answer is a parameter.
\<close>

section \<open>State\<close>

definition MAX_STREAM_NR :: nat where "MAX_STREAM_NR = 8"

definition CL_SUCCESS :: int where "CL_SUCCESS = 0"

definition NO_SPACE_ON_HOST :: int where "NO_SPACE_ON_HOST = - 999"

text \<open>
  The two arrays of streams, which both back ends have, and the helper's two host buffers. \<open>openCLData\<close> points to an allocated object, \<open>cl_devices\<close> is its member \<open>devices\<close>. \<open>cl_live\<close> are the
  objects that have been allocated and not freed.
\<close>

record gpu_common =
  streams :: "ulong list"
  streamuses :: "int list"
  hostbuf :: kgpu_gpu_mem_info
  hostvma :: kgpu_gpu_mem_info

record gpu_state = gpu_common +
  initialized :: int
  openCLData :: "nat option"
  cl_devices :: "nat option"
  cl_next :: nat
  cl_live :: "nat set"
  deviceBuffer :: ulong
  deviceBufferForVMA :: ulong

record cl_answers =
  malloc_data :: bool
  platform_count_status :: int
  malloc_platforms :: bool
  platform_status :: int
  device_count_status :: int
  malloc_devices :: bool
  device_status :: int
  context_status :: int
  buffer_status :: int
  buffer_handle :: ulong
  vma_buffer_status :: int
  vma_buffer_handle :: ulong
  queue_handles :: "ulong list"
  pinned_status :: int
  pinned_handle :: ulong
  pinned_info_status :: int
  pinned_pointer :: ulong
  release_status :: int
  vma_release_status :: int

definition cl_alloc :: "gpu_state \<Rightarrow> nat \<times> gpu_state" where
  "cl_alloc gs = (cl_next gs, gs\<lparr>cl_next := Suc (cl_next gs), cl_live := insert (cl_next gs) (cl_live gs)\<rparr>)"

definition cl_free :: "nat option \<Rightarrow> gpu_state \<Rightarrow> fault + gpu_state" where
  "cl_free q gs =
     (case q of None \<Rightarrow> Inr gs
      | Some p \<Rightarrow> if p \<in> cl_live gs then Inr (gs\<lparr>cl_live := cl_live gs - {p}\<rparr>) else Inl DoubleFree)"

definition cl_deref :: "gpu_state \<Rightarrow> fault + unit" where
  "cl_deref gs = (case openCLData gs of None \<Rightarrow> Inl NullDeref
     | Some p \<Rightarrow> if p \<in> cl_live gs then Inr () else Inl UseAfterFree)"

section \<open>Initialisation\<close>

definition initializePlatform :: "cl_answers \<Rightarrow> gpu_state \<Rightarrow> int \<times> nat option \<times> gpu_state" where
  "initializePlatform cl gs =
     (if platform_count_status cl \<noteq> CL_SUCCESS then (platform_count_status cl, None, gs)
      else if \<not> malloc_platforms cl then (NO_SPACE_ON_HOST, None, gs)
      else let (p, gs1) = cl_alloc gs in (platform_status cl, Some p, gs1))"

definition initializeDevice :: "cl_answers \<Rightarrow> gpu_state \<Rightarrow> int \<times> gpu_state" where
  "initializeDevice cl gs =
     (if device_count_status cl \<noteq> CL_SUCCESS then (device_count_status cl, gs)
      else if \<not> malloc_devices cl then (NO_SPACE_ON_HOST, gs\<lparr>cl_devices := None\<rparr>)
      else let (p, gs1) = cl_alloc gs in (device_status cl, gs1\<lparr>cl_devices := Some p\<rparr>))"

definition initializeContext :: "cl_answers \<Rightarrow> gpu_state \<Rightarrow> int \<times> gpu_state" where
  "initializeContext cl gs = (context_status cl, gs)"

definition initializeOpenCL :: "cl_answers \<Rightarrow> gpu_state \<Rightarrow> fault + (int \<times> gpu_state)" where
  "initializeOpenCL cl gs =
     andThen (if openCLData gs \<noteq> None then cl_free (openCLData gs) gs else Inr gs) (\<lambda>gs0.
     if \<not> malloc_data cl then Inr (NO_SPACE_ON_HOST, gs0\<lparr>openCLData := None\<rparr>)
     else
       let (p, gs1) = cl_alloc gs0;
           gs2 = gs1\<lparr>openCLData := Some p\<rparr>;
           (status, platforms, gs3) = initializePlatform cl gs2 in
       if status \<noteq> CL_SUCCESS then
         andThen (cl_free (openCLData gs3) gs3) (\<lambda>gs4. Inr (status, gs4))
       else
         let (status, gs4) = initializeDevice cl gs3 in
         if status \<noteq> CL_SUCCESS then
           andThen (cl_free platforms gs4) (\<lambda>gs5.
           andThen (cl_free (openCLData gs5) gs5) (\<lambda>gs6. Inr (status, gs6)))
         else
           let (status, gs5) = initializeContext cl gs4 in
           if status \<noteq> CL_SUCCESS then
             andThen (cl_free (cl_devices gs5) gs5) (\<lambda>gs6.
             andThen (cl_free platforms gs6) (\<lambda>gs7.
             andThen (cl_free (openCLData gs7) gs7) (\<lambda>gs8. Inr (status, gs8))))
           else Inr (status, gs5))"

definition gpu_init :: "cl_answers \<Rightarrow> gpu_state \<Rightarrow> fault + gpu_state" where
  "gpu_init cl gs =
     andThen (if initialized gs = 0
              then andThen (initializeOpenCL cl gs) (\<lambda>(status, gs1).
                   Inr (status, if status = CL_SUCCESS then gs1\<lparr>initialized := 1\<rparr> else gs1))
              else Inr (CL_SUCCESS, gs)) (\<lambda>(status, gs1).
     if status \<noteq> CL_SUCCESS then Inr gs1
     else
       andThen (cl_deref gs1) (\<lambda>_.
       let gs2 = gs1\<lparr>deviceBuffer := buffer_handle cl\<rparr> in
       if buffer_status cl \<noteq> CL_SUCCESS then Inr gs2
       else
         let gs3 = gs2\<lparr>deviceBufferForVMA := vma_buffer_handle cl\<rparr> in
         if vma_buffer_status cl \<noteq> CL_SUCCESS then Inr gs3
         else Inr (gs3\<lparr>streams := map (\<lambda>i. queue_handles cl ! i) [0 ..< MAX_STREAM_NR],
                       streamuses := replicate MAX_STREAM_NR 0\<rparr>)))"

definition gpu_finit :: "cl_answers \<Rightarrow> gpu_state \<Rightarrow> fault + gpu_state" where
  "gpu_finit cl gs =
     (if release_status cl \<noteq> CL_SUCCESS then Inr gs
      else if vma_release_status cl \<noteq> CL_SUCCESS then Inr gs
      else cl_free (openCLData gs) gs)"

text \<open>
  \<open>gpu_alloc_pinned_mem\<close>; the result \<open>None\<close> stands for the \<open>return\<close> without a value. The size it is asked
  for is not used.
\<close>

definition gpu_alloc_pinned_mem :: "cl_answers \<Rightarrow> ulong \<Rightarrow> gpu_state \<Rightarrow> fault + (ulong option \<times> gpu_state)" where
  "gpu_alloc_pinned_mem cl sz gs =
     andThen (if openCLData gs = None \<and> initialized gs = 0
              then andThen (initializeOpenCL cl gs) (\<lambda>(status, gs1).
                   Inr (status, if status = CL_SUCCESS then gs1\<lparr>initialized := 1\<rparr> else gs1))
              else Inr (CL_SUCCESS, gs)) (\<lambda>(status, gs1).
     if status \<noteq> CL_SUCCESS then Inr (None, gs1)
     else
       andThen (cl_deref gs1) (\<lambda>_.
       if pinned_status cl \<noteq> CL_SUCCESS then Inr (Some (pinned_handle cl), gs1)
       else if pinned_info_status cl \<noteq> CL_SUCCESS then Inr (Some 0, gs1)
       else Inr (Some (pinned_pointer cl), gs1)))"

section \<open>Streams\<close>

definition gpu_get_stream :: "int \<Rightarrow> 'x gpu_common_scheme \<Rightarrow> ulong" where
  "gpu_get_stream sid gs = (if sid < 0 \<or> sid \<ge> int MAX_STREAM_NR then 0 else streams gs ! nat sid)"

fun find_stream :: "int list \<Rightarrow> nat \<Rightarrow> nat \<Rightarrow> nat option" where
  "find_stream us i 0 = None"
| "find_stream us i (Suc k) = (if us ! i = 0 then Some i else find_stream us (Suc i) k)"

definition gpu_alloc_stream :: "kgpu_service_request \<Rightarrow> 'x gpu_common_scheme \<Rightarrow> int \<times> kgpu_service_request \<times> 'x gpu_common_scheme" where
  "gpu_alloc_stream sreq gs =
     (case find_stream (streamuses gs) 0 MAX_STREAM_NR of
        Some i \<Rightarrow> (0, sreq\<lparr>stream_id := int i, stream := streams gs ! i\<rparr>, gs\<lparr>streamuses := (streamuses gs)[i := 1]\<rparr>)
      | None \<Rightarrow> (1, sreq, gs))"

definition gpu_free_stream :: "kgpu_service_request \<Rightarrow> 'x gpu_common_scheme \<Rightarrow> 'x gpu_common_scheme" where
  "gpu_free_stream sreq gs =
     (if stream_id sreq \<ge> 0 \<and> stream_id sreq < int MAX_STREAM_NR
      then gs\<lparr>streamuses := (streamuses gs)[nat (stream_id sreq) := 0]\<rparr> else gs)"

definition check_stream_done :: "ulong \<Rightarrow> int" where
  "check_stream_done s = 0"

text \<open>Both functions pass a local variable that was never assigned, here \<open>s\<close>.\<close>

definition gpu_execution_finished :: "ulong \<Rightarrow> kgpu_service_request \<Rightarrow> int" where
  "gpu_execution_finished s sreq = check_stream_done s"

definition gpu_post_finished :: "ulong \<Rightarrow> kgpu_service_request \<Rightarrow> int" where
  "gpu_post_finished s sreq = check_stream_done s"

section \<open>Ranges to pin\<close>

definition merge_2ranges :: "ulong \<Rightarrow> ulong \<Rightarrow> ulong \<Rightarrow> ulong \<Rightarrow> (ulong \<times> ulong) option" where
  "merge_2ranges r1 s1 r2 s2 =
     (if r1 < r2 then
        if r1 + s1 \<ge> r2 then Some (r1, max (r1 + s1) (r2 + s2) - r1) else None
      else if r1 = r2 then Some (r1, max s1 s2)
      else
        if r2 + s2 \<ge> r1 then Some (r2, max (r1 + s1) (r2 + s2) - r2) else None)"

definition merge_ranges :: "ulong list \<Rightarrow> ulong list \<Rightarrow> nat \<Rightarrow> nat \<times> ulong list \<times> ulong list" where
  "merge_ranges ad0 sz0 n =
     (let ad = map (\<lambda>i. if i < n then round_down (ad0 ! i) PAGE_SIZE else ad0 ! i) [0 ..< length ad0];
          sz = map (\<lambda>i. if i < n then round_up (sz0 ! i) PAGE_SIZE else sz0 ! i) [0 ..< length sz0] in
      if n = 0 then (0, ad, sz)
      else if n = 1 then (1, ad, sz)
      else if n = 2 then
        (case merge_2ranges (ad ! 0) (sz ! 0) (ad ! 1) (sz ! 1) of
           Some (e, s) \<Rightarrow> (1, ad[0 := e], sz[0 := s])
         | None \<Rightarrow> (2, ad, sz))
      else if n = 3 then
        (case merge_2ranges (ad ! 0) (sz ! 0) (ad ! 1) (sz ! 1) of
           Some (e, s) \<Rightarrow>
             (case merge_2ranges e s (ad ! 2) (sz ! 2) of
                Some (e', s') \<Rightarrow> (1, ad[0 := e'], sz[0 := s'])
              | None \<Rightarrow> (2, ad[0 := e, 1 := ad ! 2], sz[0 := s, 1 := sz ! 2]))
         | None \<Rightarrow>
             (case merge_2ranges (ad ! 0) (sz ! 0) (ad ! 2) (sz ! 2) of
                Some (e, s) \<Rightarrow>
                  (case merge_2ranges e s (ad ! 1) (sz ! 1) of
                     Some (e', s') \<Rightarrow> (1, ad[0 := e'], sz[0 := s'])
                   | None \<Rightarrow> (2, ad[0 := e], sz[0 := s]))
              | None \<Rightarrow>
                  (case merge_2ranges (ad ! 2) (sz ! 2) (ad ! 1) (sz ! 1) of
                     Some (e, s) \<Rightarrow>
                       (case merge_2ranges (ad ! 0) (sz ! 0) e s of
                          Some (e', s') \<Rightarrow> (1, ad[0 := e', 1 := e], sz[0 := s', 1 := s])
                        | None \<Rightarrow> (2, ad[1 := e], sz[1 := s]))
                   | None \<Rightarrow> (3, ad, sz))))
      else (0, ad, sz))"

section \<open>Device memory of a request\<close>

text \<open>Neither function does anything besides rounding the size: \<open>cudaHostRegister\<close> was not ported.\<close>

definition gpu_pin_mem :: "ulong \<Rightarrow> ulong \<Rightarrow> gpu_state \<Rightarrow> gpu_state" where
  "gpu_pin_mem p sz gs = gs"

definition gpu_unpin_mem :: "ulong \<Rightarrow> gpu_state \<Rightarrow> gpu_state" where
  "gpu_unpin_mem p gs = gs"

definition add_pin :: "ulong \<Rightarrow> ulong \<Rightarrow> ulong list \<times> ulong list \<times> nat \<Rightarrow> ulong list \<times> ulong list \<times> nat" where
  "add_pin a s pins = (case pins of (ad, sz, n) \<Rightarrow> (ad[n := a], sz[n := s], Suc n))"

text \<open>
  The base addresses of the two device buffers are asked for by passing the null pointers themselves, so
  they stay 0 whatever the library answers.
\<close>

definition device_address :: "gpu_state \<Rightarrow> ulong \<Rightarrow> ulong" where
  "device_address gs a =
     (if ADDR_WITHIN a (mi_uva (hostbuf gs)) (mi_size (hostbuf gs))
      then ADDR_REBASE 0 (mi_uva (hostbuf gs)) a else ADDR_REBASE 0 (mi_uva (hostvma gs)) a)"

definition alloc_pins :: "'x gpu_common_scheme \<Rightarrow> kgpu_service_request \<Rightarrow> ulong list \<times> ulong list \<times> nat" where
  "alloc_pins gs sreq =
     (let inbuf = (\<lambda>a. ADDR_WITHIN a (mi_uva (hostbuf gs)) (mi_size (hostbuf gs)));
          p0 = ([0, 0, 0], [0, 0, 0], 0);
          p1 = (if inbuf (hin sreq) then p0 else add_pin (hin sreq) (insize sreq) p0);
          p2 = (if inbuf (hout sreq) then p1 else add_pin (hout sreq) (outsize sreq) p1) in
      if \<not> inbuf (hdata sreq) \<and> ADDR_WITHIN (hdata sreq) (mi_uva (hostvma gs)) (mi_size (hostvma gs))
      then add_pin (hdata sreq) (datasize sreq) p2 else p2)"

definition gpu_alloc_device_mem :: "kgpu_service_request \<Rightarrow> gpu_state \<Rightarrow> int \<times> kgpu_service_request \<times> gpu_state" where
  "gpu_alloc_device_mem sreq gs =
     (let inbuf = (\<lambda>a. ADDR_WITHIN a (mi_uva (hostbuf gs)) (mi_size (hostbuf gs)));
          invma = (\<lambda>a. ADDR_WITHIN a (mi_uva (hostvma gs)) (mi_size (hostvma gs)));
          sreq' = sreq\<lparr>din := device_address gs (hin sreq), dout := device_address gs (hout sreq),
            ddata := (if inbuf (hdata sreq) \<or> invma (hdata sreq) then device_address gs (hdata sreq)
                      else ddata sreq)\<rparr>;
          (pa, ps, npins) = alloc_pins gs sreq;
          (npins', pa', ps') = merge_ranges pa ps npins in
      (0, sreq', fold (\<lambda>i. gpu_pin_mem (pa' ! i) (ps' ! i)) [0 ..< npins'] gs))"

definition free_pins :: "'x gpu_common_scheme \<Rightarrow> kgpu_service_request \<Rightarrow> ulong list \<times> ulong list \<times> nat" where
  "free_pins gs sreq =
     (let invma = (\<lambda>a. ADDR_WITHIN a (mi_uva (hostvma gs)) (mi_size (hostvma gs)));
          p0 = ([0, 0, 0], [0, 0, 0], 0);
          p1 = (if invma (hin sreq) then add_pin (hin sreq) (insize sreq) p0 else p0);
          p2 = (if invma (hout sreq) then add_pin (hout sreq) (outsize sreq) p1 else p1) in
      if invma (hdata sreq) then add_pin (hdata sreq) (datasize sreq) p2 else p2)"

definition gpu_free_device_mem :: "kgpu_service_request \<Rightarrow> gpu_state \<Rightarrow> kgpu_service_request \<times> gpu_state" where
  "gpu_free_device_mem sreq gs =
     (let sreq' = sreq\<lparr>din := 0, dout := 0, ddata := 0\<rparr>;
          (pa, ps, npins) = free_pins gs sreq';
          (npins', pa', ps') = merge_ranges pa ps npins in
      (sreq', fold (\<lambda>i. gpu_unpin_mem (pa' ! i)) [0 ..< npins'] gs))"


section \<open>The contract of a stream pool\<close>

text \<open>
  What the helper relies on: a request gets a stream that nobody has, or none when all are taken; giving a
  stream back frees that one; a request without a stream gives nothing back.
\<close>

locale stream_pool =
  fixes busy :: "'g \<Rightarrow> nat set"
    and ok :: "'g \<Rightarrow> bool"
    and limit :: nat
    and sid :: "'r \<Rightarrow> int"
    and acquire :: "'r \<Rightarrow> 'g \<Rightarrow> int \<times> 'r \<times> 'g"
    and release :: "'r \<Rightarrow> 'g \<Rightarrow> 'g"
  assumes acquire_law: "ok g \<Longrightarrow> busy g \<noteq> {..< limit} \<Longrightarrow> \<exists>i r' g'. acquire r g = (0, r', g') \<and> i < limit \<and>
      i \<notin> busy g \<and> sid r' = int i \<and> ok g' \<and> busy g' = insert i (busy g)"
    and acquire_full: "ok g \<Longrightarrow> busy g = {..< limit} \<Longrightarrow> acquire r g = (1, r, g)"
    and release_law: "ok g \<Longrightarrow> sid r = int i \<Longrightarrow> i < limit \<Longrightarrow> ok (release r g) \<and> busy (release r g) = busy g - {i}"
    and release_none: "sid r = - 1 \<Longrightarrow> release r g = g"
begin

lemma acquire_cases:
  assumes "ok g"
  obtains (got) i r' g' where "acquire r g = (0, r', g')" "i < limit" "i \<notin> busy g" "sid r' = int i" "ok g'"
      "busy g' = insert i (busy g)"
    | (full) "acquire r g = (1, r, g)" "busy g = {..< limit}"
  using acquire_law[OF assms] acquire_full[OF assms] by (cases "busy g = {..< limit}") blast+

lemma acquire_release:
  assumes "ok g" and "acquire r g = (0, r', g')"
  shows "ok (release r' g') \<and> busy (release r' g') = busy g"
  using assms(1)
proof (cases rule: acquire_cases[where r = r])
  case (got i r'' g'')
  then show ?thesis using release_law[of g'' r'' i] assms(2) by auto
qed (use assms(2) in auto)

end

definition busy_streams :: "'x gpu_common_scheme \<Rightarrow> nat set" where
  "busy_streams gs = {i. i < MAX_STREAM_NR \<and> streamuses gs ! i \<noteq> 0}"

definition streams_ok :: "'x gpu_common_scheme \<Rightarrow> bool" where
  "streams_ok gs \<longleftrightarrow> length (streamuses gs) = MAX_STREAM_NR \<and> length (streams gs) = MAX_STREAM_NR"

lemma find_stream_Some:
  "find_stream us i k = Some j \<Longrightarrow> i \<le> j \<and> j < i + k \<and> us ! j = 0 \<and> (\<forall>m. i \<le> m \<and> m < j \<longrightarrow> us ! m \<noteq> 0)"
proof (induction us i k rule: find_stream.induct)
  case (2 us i k)
  show ?case
  proof (cases "us ! i = 0")
    case False
    then have ih: "Suc i \<le> j \<and> j < Suc i + k \<and> us ! j = 0 \<and> (\<forall>m. Suc i \<le> m \<and> m < j \<longrightarrow> us ! m \<noteq> 0)"
      using 2 by simp
    have "m = i \<or> Suc i \<le> m" if "i \<le> m" for m using that by auto
    then show ?thesis using False ih by (metis Suc_leD add_Suc_right add_Suc)
  qed (use "2.prems" in auto)
qed simp

lemma find_stream_None: "find_stream us i k = None \<Longrightarrow> (\<forall>m. i \<le> m \<and> m < i + k \<longrightarrow> us ! m \<noteq> 0)"
proof (induction us i k rule: find_stream.induct)
  case (2 us i k)
  then have "us ! i \<noteq> 0" "\<forall>m. Suc i \<le> m \<and> m < Suc i + k \<longrightarrow> us ! m \<noteq> 0" by (auto split: if_splits)
  moreover have "m = i \<or> Suc i \<le> m" if "i \<le> m" for m using that by auto
  ultimately show ?case by (metis add_Suc_right add_Suc)
qed simp

interpretation cl_streams: stream_pool busy_streams streams_ok MAX_STREAM_NR stream_id
  gpu_alloc_stream gpu_free_stream
proof unfold_locales
  fix g :: "'x gpu_common_scheme" and r :: kgpu_service_request
  assume ok: "streams_ok g" and nf: "busy_streams g \<noteq> {..< MAX_STREAM_NR}"
  then obtain m where "m < MAX_STREAM_NR" "streamuses g ! m = 0" by (auto simp: busy_streams_def)
  then obtain i where i: "find_stream (streamuses g) 0 MAX_STREAM_NR = Some i"
    using find_stream_None[of "streamuses g" 0 MAX_STREAM_NR] by (cases "find_stream (streamuses g) 0 MAX_STREAM_NR") auto
  note f = find_stream_Some[OF i]
  let ?r = "r\<lparr>stream_id := int i, stream := streams g ! i\<rparr>" and ?g = "g\<lparr>streamuses := (streamuses g)[i := 1]\<rparr>"
  have "gpu_alloc_stream r g = (0, ?r, ?g)" using i by (simp add: gpu_alloc_stream_def)
  moreover have "busy_streams ?g = insert i (busy_streams g)" "i \<notin> busy_streams g"
    using f ok by (auto simp: busy_streams_def streams_ok_def nth_list_update)
  ultimately show "\<exists>i r' g'. gpu_alloc_stream r g = (0, r', g') \<and> i < MAX_STREAM_NR \<and> i \<notin> busy_streams g \<and>
      stream_id r' = int i \<and> streams_ok g' \<and> busy_streams g' = insert i (busy_streams g)"
    using f ok by (intro exI[of _ i] exI[of _ ?r] exI[of _ ?g]) (simp add: streams_ok_def)
next
  fix g :: "'x gpu_common_scheme" and r :: kgpu_service_request
  assume ok: "streams_ok g" and full: "busy_streams g = {..< MAX_STREAM_NR}"
  have "find_stream (streamuses g) 0 MAX_STREAM_NR = None"
  proof (cases "find_stream (streamuses g) 0 MAX_STREAM_NR")
    case (Some i)
    then have "i < MAX_STREAM_NR" "streamuses g ! i = 0" using find_stream_Some by fastforce+
    then show ?thesis using full by (auto simp: busy_streams_def)
  qed
  then show "gpu_alloc_stream r g = (1, r, g)" by (simp add: gpu_alloc_stream_def)
next
  fix g :: "'x gpu_common_scheme" and r :: kgpu_service_request and i
  assume "streams_ok g" "stream_id r = int i" "i < MAX_STREAM_NR"
  then show "streams_ok (gpu_free_stream r g) \<and> busy_streams (gpu_free_stream r g) = busy_streams g - {i}"
    by (auto simp: gpu_free_stream_def streams_ok_def busy_streams_def nth_list_update)
qed (simp add: gpu_free_stream_def)

section \<open>Merging ranges\<close>

definition byte_range :: "ulong \<Rightarrow> ulong \<Rightarrow> nat set" where
  "byte_range a s = {unat a ..< unat a + unat s}"

definition no_wrap :: "ulong \<Rightarrow> ulong \<Rightarrow> bool" where
  "no_wrap a s \<longleftrightarrow> unat a + unat s < 2 ^ 64"

definition apart :: "ulong \<Rightarrow> ulong \<Rightarrow> ulong \<Rightarrow> ulong \<Rightarrow> bool" where
  "apart a s b t \<longleftrightarrow> unat a + unat s < unat b \<or> unat b + unat t < unat a"

lemma no_wrap_add: "no_wrap a s \<Longrightarrow> unat (a + s) = unat a + unat s"
  unfolding no_wrap_def by (subst unat_add_small) simp_all

lemma unat_max_minus:
  assumes "no_wrap r1 s1" and "no_wrap r2 s2" and "r \<le> r1 + s1"
  shows "unat (max (r1 + s1) (r2 + s2) - r) = max (unat r1 + unat s1) (unat r2 + unat s2) - unat r"
proof -
  have "unat (max (r1 + s1) (r2 + s2)) = max (unat r1 + unat s1) (unat r2 + unat s2)"
    using no_wrap_add[OF assms(1)] no_wrap_add[OF assms(2)] by (simp add: max_def word_le_nat_alt)
  moreover have "r \<le> max (r1 + s1) (r2 + s2)" using assms(3) by (simp add: le_max_iff_disj)
  ultimately show ?thesis by (simp add: unat_sub)
qed

lemma merge_2ranges_Some:
  assumes nw: "no_wrap r1 s1" "no_wrap r2 s2" and m: "merge_2ranges r1 s1 r2 s2 = Some (e, s)"
  shows "no_wrap e s" and "byte_range e s = byte_range r1 s1 \<union> byte_range r2 s2"
proof -
  note a = no_wrap_add[OF nw(1)] no_wrap_add[OF nw(2)]
  have "no_wrap e s \<and> byte_range e s = byte_range r1 s1 \<union> byte_range r2 s2"
  proof (cases r1 r2 rule: linorder_cases)
    case less
    then have "(if r2 \<le> r1 + s1 then Some (r1, max (r1 + s1) (r2 + s2) - r1) else None) = Some (e, s)"
      using m by (simp add: merge_2ranges_def)
    then have es: "r2 \<le> r1 + s1" "e = r1" "s = max (r1 + s1) (r2 + s2) - r1"
      by (auto split: if_splits)
    have c: "unat r1 < unat r2" "unat r2 \<le> unat r1 + unat s1"
      using a less es(1) by (simp_all add: word_less_nat_alt word_le_nat_alt)
    moreover have "unat s = max (unat r1 + unat s1) (unat r2 + unat s2) - unat r1"
      unfolding es(3) by (rule unat_max_minus[OF nw]) (use a c in \<open>simp add: word_le_nat_alt\<close>)
    ultimately show ?thesis using nw es(2) by (auto simp: no_wrap_def byte_range_def)
  next
    case equal
    then have es: "e = r1" "s = max s1 s2" using m unfolding merge_2ranges_def by simp_all
    then have "unat s = max (unat s1) (unat s2)" by (simp add: max_def word_le_nat_alt)
    then show ?thesis using nw equal es by (auto simp: no_wrap_def byte_range_def)
  next
    case greater
    then have "\<not> r1 < r2" "r1 \<noteq> r2" by auto
    then have "(if r1 \<le> r2 + s2 then Some (r2, max (r1 + s1) (r2 + s2) - r2) else None) = Some (e, s)"
      using m by (simp add: merge_2ranges_def)
    then have es: "r1 \<le> r2 + s2" "e = r2" "s = max (r1 + s1) (r2 + s2) - r2"
      by (auto split: if_splits)
    have c: "unat r2 < unat r1" "unat r1 \<le> unat r2 + unat s2"
      using a greater es(1) by (simp_all add: word_less_nat_alt word_le_nat_alt)
    moreover have "unat s = max (unat r2 + unat s2) (unat r1 + unat s1) - unat r2"
      unfolding es(3) max.commute[of "r1 + s1"]
      by (rule unat_max_minus[OF nw(2,1)]) (use a c in \<open>simp add: word_le_nat_alt\<close>)
    ultimately show ?thesis using nw es(2) by (auto simp: no_wrap_def byte_range_def)
  qed
  then show "no_wrap e s" "byte_range e s = byte_range r1 s1 \<union> byte_range r2 s2" by auto
qed

lemma merge_2ranges_None:
  assumes "no_wrap r1 s1" "no_wrap r2 s2" and "merge_2ranges r1 s1 r2 s2 = None"
  shows "apart r1 s1 r2 s2" and "apart r2 s2 r1 s1"
  using assms no_wrap_add[OF assms(1)] no_wrap_add[OF assms(2)]
  by (auto simp: merge_2ranges_def apart_def word_less_nat_alt word_le_nat_alt split: if_splits)


definition merged_union :: "nat \<times> ulong list \<times> ulong list \<Rightarrow> nat set" where
  "merged_union m = (case m of (k, ad, sz) \<Rightarrow> \<Union>i < k. byte_range (ad ! i) (sz ! i))"

definition merged_apart :: "nat \<times> ulong list \<times> ulong list \<Rightarrow> bool" where
  "merged_apart m = (case m of (k, ad, sz) \<Rightarrow>
     \<forall>i < k. \<forall>j < k. i \<noteq> j \<longrightarrow> apart (ad ! i) (sz ! i) (ad ! j) (sz ! j))"

lemma lessThan_small: "{..< Suc 0} = {0}" "{..< 1 :: nat} = {0}" "{..< 2 :: nat} = {0, 1}" "{..< 3 :: nat} = {0, 1, 2}"
  by auto

lemma all_less_small:
  "(\<forall>i < Suc 0. P i) \<longleftrightarrow> P (0 :: nat)" "(\<forall>i < 1. P i) \<longleftrightarrow> P (0 :: nat)" "(\<forall>i < 2. P i) \<longleftrightarrow> P (0 :: nat) \<and> P 1"
  "(\<forall>i < 3. P i) \<longleftrightarrow> P (0 :: nat) \<and> P 1 \<and> P 2"
  by (auto simp: less_Suc_eq numeral_2_eq_2 numeral_3_eq_3)

lemma list3: "length (xs :: 'a list) = 3 \<Longrightarrow> \<exists>a b c. xs = [a, b, c]"
  by (auto simp: numeral_3_eq_3 length_Suc_conv)

lemmas merge_facts = merged_union_def merged_apart_def lessThan_small all_less_small Un_assoc Un_commute Un_left_commute

lemma merge_2ranges_cases:
  assumes "no_wrap a0 s0" "no_wrap a1 s1"
  obtains (apart) "merge_2ranges a0 s0 a1 s1 = None" "apart a0 s0 a1 s1" "apart a1 s1 a0 s0"
  | (joined) e s where "merge_2ranges a0 s0 a1 s1 = Some (e, s)" "no_wrap e s"
      "byte_range e s = byte_range a0 s0 \<union> byte_range a1 s1"
proof (cases "merge_2ranges a0 s0 a1 s1")
  case None
  then show ?thesis using merge_2ranges_None[OF assms None] that(1) by blast
next
  case (Some p)
  then have "merge_2ranges a0 s0 a1 s1 = Some (fst p, snd p)" by simp
  then show ?thesis using merge_2ranges_Some[OF assms] that(2) by blast
qed

lemma merge_three:
  assumes nw: "no_wrap a0 s0" "no_wrap a1 s1" "no_wrap a2 s2"
    and ad: "map (\<lambda>i. if i < 3 then round_down (ad0 ! i) PAGE_SIZE else ad0 ! i) [0 ..< length ad0] = [a0, a1, a2]"
    and sz: "map (\<lambda>i. if i < 3 then round_up (sz0 ! i) PAGE_SIZE else sz0 ! i) [0 ..< length sz0] = [s0, s1, s2]"
  shows "merged_union (merge_ranges ad0 sz0 3) = byte_range a0 s0 \<union> byte_range a1 s1 \<union> byte_range a2 s2 \<and>
    merged_apart (merge_ranges ad0 sz0 3)"
  using nw(1,2)
proof (cases rule: merge_2ranges_cases)
  note run = merge_ranges_def ad sz Let_def merge_facts
  case (joined e s)
  from joined(2) nw(3) show ?thesis
    by (cases rule: merge_2ranges_cases) (use joined in \<open>simp_all add: run\<close>)
next
  note run = merge_ranges_def ad sz Let_def merge_facts
  case n01: apart
  from nw(1,3) show ?thesis
  proof (cases rule: merge_2ranges_cases)
    case (joined e s)
    from joined(2) nw(2) show ?thesis
      by (cases rule: merge_2ranges_cases) (use n01 joined in \<open>simp_all add: run\<close>)
  next
    case n02: apart
    from nw(3,2) show ?thesis
    proof (cases rule: merge_2ranges_cases)
      case apart
      then show ?thesis using n01 n02 by (simp add: run)
    next
      case (joined e s)
      from nw(1) joined(2) show ?thesis
        by (cases rule: merge_2ranges_cases) (use n01 n02 joined in \<open>simp_all add: run\<close>)
    qed
  qed
qed


section \<open>Properties\<close>

text \<open>
  C26: \<open>merge_ranges\<close>, given up to three ranges, returns at most as many ranges whose bytes are exactly the bytes
  of the page-rounded arguments and of which no two overlap or even touch, so no page is pinned twice (ranges
  that do not wrap around the address space).
\<close>

theorem merge_ranges_correct:
  assumes len: "length ad = 3" "length sz = 3" and n: "n \<le> 3"
    and nw: "\<And>i. i < n \<Longrightarrow> no_wrap (round_down (ad ! i) PAGE_SIZE) (round_up (sz ! i) PAGE_SIZE)"
  shows "(\<Union>i < fst (merge_ranges ad sz n).
        byte_range (fst (snd (merge_ranges ad sz n)) ! i) (snd (snd (merge_ranges ad sz n)) ! i)) =
      (\<Union>i < n. byte_range (round_down (ad ! i) PAGE_SIZE) (round_up (sz ! i) PAGE_SIZE)) \<and>
    merged_apart (merge_ranges ad sz n) \<and> fst (merge_ranges ad sz n) \<le> n"
proof -
  obtain a0 a1 a2 s0 s1 s2 where l: "ad = [a0, a1, a2]" "sz = [s0, s1, s2]"
    using list3[OF len(1)] list3[OF len(2)] by blast
  let ?d = "\<lambda>a. round_down a PAGE_SIZE" and ?u = "\<lambda>s. round_up s PAGE_SIZE"
  have up: "[0 ..< length ad] = [0, 1, 2]" "[0 ..< length sz] = [0, 1, 2]" using len by (simp_all add: upt_rec)
  have U: "(\<Union>i < fst m. byte_range (fst (snd m) ! i) (snd (snd m) ! i)) = merged_union m" for m
    by (simp add: merged_union_def split: prod.splits)
  consider "n = 0" | "n = 1" | "n = 2" | "n = 3" using n by linarith
  then have "merged_union (merge_ranges ad sz n) = (\<Union>i < n. byte_range (?d (ad ! i)) (?u (sz ! i))) \<and>
      merged_apart (merge_ranges ad sz n) \<and> fst (merge_ranges ad sz n) \<le> n"
  proof cases
    case 1
    then show ?thesis by (simp add: merge_ranges_def merged_union_def merged_apart_def Let_def)
  next
    case 2
    then show ?thesis using l up by (simp add: merge_ranges_def merge_facts Let_def)
  next
    case 3
    then have w: "no_wrap (?d a0) (?u s0)" "no_wrap (?d a1) (?u s1)" using nw[of 0] nw[of 1] l by simp_all
    show ?thesis
    proof (cases "merge_2ranges (?d a0) (?u s0) (?d a1) (?u s1)")
      case None
      then show ?thesis using 3 l up merge_2ranges_None[OF w None] by (simp add: merge_ranges_def merge_facts Let_def)
    next
      case (Some p)
      then obtain e s where es: "merge_2ranges (?d a0) (?u s0) (?d a1) (?u s1) = Some (e, s)" by (cases p) auto
      show ?thesis using 3 l up es merge_2ranges_Some[OF w es] by (simp add: merge_ranges_def merge_facts Let_def)
    qed
  next
    case 4
    then have w: "no_wrap (?d a0) (?u s0)" "no_wrap (?d a1) (?u s1)" "no_wrap (?d a2) (?u s2)"
      using nw[of 0] nw[of 1] nw[of 2] l by simp_all
    have "merged_union (merge_ranges ad sz 3) = byte_range (?d a0) (?u s0) \<union> byte_range (?d a1) (?u s1) \<union>
        byte_range (?d a2) (?u s2) \<and> merged_apart (merge_ranges ad sz 3)"
      using w by (rule merge_three) (use l up in simp_all)
    moreover have "fst (merge_ranges ad sz 3) \<le> 3" by (simp add: merge_ranges_def Let_def split: option.splits prod.splits)
    ultimately show ?thesis using 4 l by (simp add: lessThan_small Un_assoc)
  qed
  then show ?thesis unfolding U .
qed

theorem merge_ranges_correct_witness:
  "(\<Union>i < fst (merge_ranges [0x2000, 0x5010, 0x3000] [0x1000, 5, 0x800] 3).
        byte_range (fst (snd (merge_ranges [0x2000, 0x5010, 0x3000] [0x1000, 5, 0x800] 3)) ! i)
          (snd (snd (merge_ranges [0x2000, 0x5010, 0x3000] [0x1000, 5, 0x800] 3)) ! i)) =
      (\<Union>i < 3. byte_range (round_down ([0x2000, 0x5010, 0x3000] ! i) PAGE_SIZE)
        (round_up ([0x1000, 5, 0x800] ! i) PAGE_SIZE)) \<and>
    merged_apart (merge_ranges [0x2000, 0x5010, 0x3000] [0x1000, 5, 0x800] 3) \<and>
    fst (merge_ranges [0x2000, 0x5010, 0x3000] [0x1000, 5, 0x800] 3) \<le> 3"
proof (rule merge_ranges_correct)
  have "round_down 0x2000 PAGE_SIZE = 0x2000" "round_up 0x1000 PAGE_SIZE = 0x1000"
    "round_down 0x5010 PAGE_SIZE = 0x5000" "round_up 5 PAGE_SIZE = 0x1000"
    "round_down 0x3000 PAGE_SIZE = 0x3000" "round_up 0x800 PAGE_SIZE = 0x1000" by code_simp+
  then have "no_wrap (round_down 0x2000 PAGE_SIZE) (round_up 0x1000 PAGE_SIZE)"
    "no_wrap (round_down 0x5010 PAGE_SIZE) (round_up 5 PAGE_SIZE)"
    "no_wrap (round_down 0x3000 PAGE_SIZE) (round_up 0x800 PAGE_SIZE)" by (simp_all add: no_wrap_def)
  then show "no_wrap (round_down ([0x2000, 0x5010, 0x3000] ! i) PAGE_SIZE) (round_up ([0x1000, 5, 0x800] ! i) PAGE_SIZE)"
    if "i < 3" for i :: nat
    using that by (auto simp: less_Suc_eq numeral_3_eq_3)
qed simp_all

text \<open>
  Rounding the address down and the size up separately can miss the last page of a buffer: for the two bytes
  at 4095 only the first page is to be pinned.
\<close>

theorem pin_misses_last_page:
  "merge_ranges [4095, 0, 0] [2, 0, 0] 1 = (1, [0, 0, 0], [4096, 0, 0]) \<and>
   4096 \<in> byte_range 4095 2 \<and> 4096 \<notin> merged_union (merge_ranges [4095, 0, 0] [2, 0, 0] 1)"
proof -
  have m: "merge_ranges [4095, 0, 0] [2, 0, 0] 1 = (1, [0, 0, 0], [4096, 0, 0])" by code_simp
  show ?thesis unfolding m by (simp add: merged_union_def byte_range_def)
qed

text \<open>
  C27: Streams are exclusive: \<open>gpu_alloc_stream\<close> gives a request a stream below \<open>MAX_STREAM_NR\<close> that was free and
  is then taken, or returns 1 and changes nothing when all eight are taken; giving the stream back restores the
  set of taken streams, and a request that never got one (\<open>stream_id = -1\<close>) gives nothing back.
\<close>

theorem streams_exclusive:
  assumes "streams_ok gs"
  shows "(if busy_streams gs = {..< 8} then gpu_alloc_stream sr gs = (1, sr, gs)
     else \<exists>i sr' gs'. gpu_alloc_stream sr gs = (0, sr', gs') \<and> i < 8 \<and> i \<notin> busy_streams gs \<and>
       sr' = sr\<lparr>stream_id := int i, stream := streams gs ! i\<rparr> \<and> streams_ok gs' \<and>
       busy_streams gs' = insert i (busy_streams gs) \<and>
       busy_streams (gpu_free_stream sr' gs') = busy_streams gs) \<and>
    gpu_free_stream (sr\<lparr>stream_id := - 1\<rparr>) gs = gs"
proof -
  have none: "gpu_free_stream (sr\<lparr>stream_id := - 1\<rparr>) gs = gs" by (rule cl_streams.release_none) simp
  show ?thesis
    using assms
  proof (cases rule: cl_streams.acquire_cases[where r = sr])
    case (got i r' g')
    obtain j where "r' = sr\<lparr>stream_id := int j, stream := streams gs ! j\<rparr>"
      using got(1) by (auto simp: gpu_alloc_stream_def split: option.splits)
    then have e: "r' = sr\<lparr>stream_id := int i, stream := streams gs ! i\<rparr>" using got(4) by simp
    have nf: "busy_streams gs \<noteq> {..< 8}" "i < 8" using got by (auto simp: MAX_STREAM_NR_def)
    have f: "busy_streams (gpu_free_stream r' g') = busy_streams gs"
      using cl_streams.acquire_release[OF assms got(1)] by blast
    have "\<exists>i sr' gs'. gpu_alloc_stream sr gs = (0, sr', gs') \<and> i < 8 \<and> i \<notin> busy_streams gs \<and>
       sr' = sr\<lparr>stream_id := int i, stream := streams gs ! i\<rparr> \<and> streams_ok gs' \<and>
       busy_streams gs' = insert i (busy_streams gs) \<and> busy_streams (gpu_free_stream sr' gs') = busy_streams gs"
      using got(1,3,5,6) nf(2) e f by blast
    then show ?thesis using nf(1) none by (simp only: if_False simp_thms)
  qed (use none in \<open>simp add: MAX_STREAM_NR_def\<close>)
qed

definition idle_gpu :: gpu_state where
  "idle_gpu = \<lparr>streams = [1, 2, 3, 4, 5, 6, 7, 8], streamuses = replicate 8 0,
     hostbuf = \<lparr>mi_uva = 0x7000000, mi_size = KGPU_BUF_SIZE\<rparr>, hostvma = \<lparr>mi_uva = 0x9000000, mi_size = KGPU_BUF_SIZE\<rparr>,
     initialized = 1, openCLData = Some 0,
     cl_devices = Some 2, cl_next = 3, cl_live = {0, 1, 2}, deviceBuffer = 0x10, deviceBufferForVMA = 0x20\<rparr>"

theorem streams_exclusive_witness:
  "(if busy_streams idle_gpu = {..< 8} then gpu_alloc_stream zero_sr idle_gpu = (1, zero_sr, idle_gpu)
     else \<exists>i sr' gs'. gpu_alloc_stream zero_sr idle_gpu = (0, sr', gs') \<and> i < 8 \<and> i \<notin> busy_streams idle_gpu \<and>
       sr' = zero_sr\<lparr>stream_id := int i, stream := streams idle_gpu ! i\<rparr> \<and> streams_ok gs' \<and>
       busy_streams gs' = insert i (busy_streams idle_gpu) \<and>
       busy_streams (gpu_free_stream sr' gs') = busy_streams idle_gpu) \<and>
    gpu_free_stream (zero_sr\<lparr>stream_id := - 1\<rparr>) idle_gpu = idle_gpu"
  by (rule streams_exclusive) (simp add: streams_ok_def idle_gpu_def MAX_STREAM_NR_def)

text \<open>
  When OpenCL cannot be set up for want of a platform, \<open>initializeOpenCL\<close> frees \<open>openCLData\<close> without
  resetting the pointer: a second attempt (\<open>gpu_alloc_pinned_mem\<close> and then \<open>gpu_init\<close>, as \<open>kh_init\<close> does)
  frees it again.
\<close>

theorem failed_init_double_free:
  assumes "openCLData gs = None" and "initialized gs = 0" and "malloc_data cl" and "platform_count_status cl \<noteq> CL_SUCCESS"
    and "cl_live gs \<subseteq> {..< cl_next gs}"
  shows "\<exists>gs1. gpu_alloc_pinned_mem cl sz gs = Inr (None, gs1) \<and> initialized gs1 = 0 \<and>
    gpu_init cl' gs1 = Inl DoubleFree"
proof -
  let ?gs1 = "gs\<lparr>openCLData := Some (cl_next gs), cl_next := Suc (cl_next gs), cl_live := cl_live gs\<rparr>"
  have "cl_next gs \<notin> cl_live gs" using assms(5) by auto
  then have i: "initializeOpenCL cl gs = Inr (platform_count_status cl, ?gs1)"
    using assms by (simp add: initializeOpenCL_def initializePlatform_def cl_alloc_def cl_free_def Let_def)
  have "gpu_init cl' ?gs1 = Inl DoubleFree"
    using assms(2) \<open>cl_next gs \<notin> cl_live gs\<close> by (simp add: gpu_init_def initializeOpenCL_def cl_free_def)
  then show ?thesis using i assms(1,2,4) by (intro exI[of _ ?gs1]) (simp add: gpu_alloc_pinned_mem_def)
qed

definition no_platform :: cl_answers where
  "no_platform = \<lparr>malloc_data = True, platform_count_status = - 1001, malloc_platforms = True, platform_status = 0,
     device_count_status = 0, malloc_devices = True, device_status = 0, context_status = 0, buffer_status = 0,
     buffer_handle = 0, vma_buffer_status = 0, vma_buffer_handle = 0, queue_handles = replicate 8 0, pinned_status = 0,
     pinned_handle = 0, pinned_info_status = 0, pinned_pointer = 0, release_status = 0, vma_release_status = 0\<rparr>"

theorem failed_init_double_free_witness:
  "\<exists>gs1. gpu_alloc_pinned_mem no_platform 4096
      (idle_gpu\<lparr>openCLData := None, initialized := 0, cl_live := {}, cl_next := 0\<rparr>) = Inr (None, gs1) \<and>
    initialized gs1 = 0 \<and> gpu_init no_platform gs1 = Inl DoubleFree"
  by (rule failed_init_double_free) (simp_all add: no_platform_def CL_SUCCESS_def)

end
