(* ===== verification/Helper.thy ===== *)
theory Helper
  imports Gpu "HOL-Library.Multiset"
begin

text \<open>
  The helper process (\<^verbatim>\<open>kgpu/src/userSpace/helper.c\<close>): service requests move through six state lists, on the
  explicit heap of \<^verbatim>\<open>list.h\<close>, while each is also on \<open>all_reqs\<close>. The GPU back end is the interface of
  \<^verbatim>\<open>gpuSpace/gpuOperations.h\<close>, with the OpenCL one as the instance; the services are plug-ins; the system calls'
  results are given by an environment.
\<close>

section \<open>State\<close>

datatype hnode = AllReqs | InitReqs | MemdoneReqs | PreparedReqs | RunningReqs | PostExecReqs | DoneReqs
  | ListOf nat | GlistOf nat

text \<open>
  \<open>sr_at i\<close> is the member \<open>sr\<close> of the item at address \<open>i\<close>, the nodes \<open>ListOf i\<close> and \<open>GlistOf i\<close> its members
  \<open>list\<close> and \<open>glist\<close>. \<open>responses\<close> are the responses written to the device file, the oldest first.
\<close>

record 'x helper =
  hheap :: "hnode list_heap"
  sr_at :: "nat \<Rightarrow> kgpu_service_request"
  gpu :: "'x gpu_common_scheme"
  reg :: registry
  responses :: "kgpu_ku_response list"

text \<open>
  The functions of \<^verbatim>\<open>gpuOperations.h\<close>, over the state \<open>'x gpu_common_scheme\<close> of a back end; those that call
  the GPU's library may abort.
\<close>

record 'x gpu_backend =
  be_alloc_mem :: "kgpu_service_request \<Rightarrow> 'x gpu_common_scheme \<Rightarrow> fault + (int \<times> kgpu_service_request \<times> 'x gpu_common_scheme)"
  be_free_mem :: "kgpu_service_request \<Rightarrow> 'x gpu_common_scheme \<Rightarrow> fault + (kgpu_service_request \<times> 'x gpu_common_scheme)"
  be_alloc_stream :: "kgpu_service_request \<Rightarrow> 'x gpu_common_scheme \<Rightarrow> int \<times> kgpu_service_request \<times> 'x gpu_common_scheme"
  be_free_stream :: "kgpu_service_request \<Rightarrow> 'x gpu_common_scheme \<Rightarrow> 'x gpu_common_scheme"
  be_execution_finished :: "kgpu_service_request \<Rightarrow> 'x gpu_common_scheme \<Rightarrow> fault + int"
  be_post_finished :: "kgpu_service_request \<Rightarrow> 'x gpu_common_scheme \<Rightarrow> fault + int"

text \<open>The OpenCL back end; the argument is the uninitialised local variable of its last two functions.\<close>

definition opencl_backend :: "ulong \<Rightarrow> unit gpu_state_ext gpu_backend" where
  "opencl_backend s = \<lparr>be_alloc_mem = (\<lambda>sr gs. Inr (gpu_alloc_device_mem sr gs)),
     be_free_mem = (\<lambda>sr gs. Inr (gpu_free_device_mem sr gs)),
     be_alloc_stream = gpu_alloc_stream, be_free_stream = gpu_free_stream,
     be_execution_finished = (\<lambda>sr gs. Inr (gpu_execution_finished s sr)),
     be_post_finished = (\<lambda>sr gs. Inr (gpu_post_finished s sr))\<rparr>"

text \<open>
  The results of the system calls in one round of the main loop: \<open>write\<close> for a response, \<open>poll\<close> (the Boolean
  tells whether it blocks) with its events, \<open>malloc\<close> (given what is allocated), and \<open>read\<close> with \<open>errno\<close> and what it read.
\<close>

record round_env =
  write_ret :: "kgpu_ku_response \<Rightarrow> int"
  poll_ret :: "bool \<Rightarrow> int"
  poll_in :: bool
  malloc_ret :: "hnode list_heap \<Rightarrow> nat option"
  read_ret :: int
  read_errno :: int
  read_req :: kgpu_ku_request

section \<open>Operations\<close>

definition safe_syscall :: "int \<Rightarrow> fault + int" where
  "safe_syscall r = (if r < 0 then Inl Aborted else Inr r)"

definition get_sr :: "nat \<Rightarrow> 'x helper \<Rightarrow> fault + kgpu_service_request" where
  "get_sr i h = (if alive (hheap h) (ListOf i) then Inr (sr_at h i) else Inl UseAfterFree)"

definition put_sr :: "nat \<Rightarrow> kgpu_service_request \<Rightarrow> 'x helper \<Rightarrow> 'x helper" where
  "put_sr i sr h = h\<lparr>sr_at := (sr_at h)(i := sr)\<rparr>"

definition kh_send_response :: "round_env \<Rightarrow> kgpu_ku_response \<Rightarrow> 'x helper \<Rightarrow> fault + (int \<times> 'x helper)" where
  "kh_send_response env resp h =
     andThen (safe_syscall (write_ret env resp)) (\<lambda>_. Inr (0, h\<lparr>responses := responses h @ [resp]\<rparr>))"

text \<open>\<open>list_del(&sreq->list); list_add_tail(&sreq->list, head)\<close>\<close>

definition move_to :: "nat \<Rightarrow> hnode \<Rightarrow> 'x helper \<Rightarrow> fault + 'x helper" where
  "move_to i head h =
     andThen (andThen (list_del (Some (ListOf i)) (hheap h)) (list_add_tail (Some (ListOf i)) (Some head))) (\<lambda>hp.
     Inr (h\<lparr>hheap := hp\<rparr>))"

definition kh_fail_request :: "nat \<Rightarrow> int \<Rightarrow> 'x helper \<Rightarrow> fault + 'x helper" where
  "kh_fail_request i serr h =
     andThen (get_sr i h) (\<lambda>sr.
     move_to i DoneReqs (put_sr i (sr\<lparr>sr_state := KGPU_REQ_DONE, errcode := serr\<rparr>) h))"

definition kh_alloc_service_request :: "nat option \<Rightarrow> 'x helper \<Rightarrow> fault + (nat option \<times> 'x helper)" where
  "kh_alloc_service_request m h =
     (case m of
        None \<Rightarrow> Inr (None, h)
      | Some i \<Rightarrow>
          let h1 = put_sr i zero_sr (h\<lparr>hheap := alloc_node (ListOf i) (alloc_node (GlistOf i) (hheap h))\<rparr>) in
          andThen (INIT_LIST_HEAD (Some (ListOf i)) (hheap h1)) (\<lambda>hp.
          andThen (INIT_LIST_HEAD (Some (GlistOf i)) hp) (\<lambda>hp'. Inr (Some i, h1\<lparr>hheap := hp'\<rparr>))))"

definition kh_free_service_request :: "nat \<Rightarrow> 'x helper \<Rightarrow> fault + 'x helper" where
  "kh_free_service_request i h =
     (if alive (hheap h) (ListOf i)
      then Inr (h\<lparr>hheap := free_node (ListOf i) (free_node (GlistOf i) (hheap h))\<rparr>) else Inl DoubleFree)"

definition kh_init_service_request :: "nat \<Rightarrow> kgpu_ku_request \<Rightarrow> 'x helper \<Rightarrow> 'x helper run" where
  "kh_init_service_request i kureq h =
     bindO (Some (list_add_tail (Some (GlistOf i)) (Some AllReqs) (hheap h))) (\<lambda>hp.
     bindO (kh_lookup_service (Some (ku_service_name kureq)) (reg h)) (\<lambda>s.
     let sr = zero_sr\<lparr>sr_id := ku_id kureq, hin := ku_in kureq, hout := ku_out kureq, hdata := ku_data kureq,
            insize := ku_insize kureq, outsize := ku_outsize kureq, datasize := ku_datasize kureq,
            stream_id := - 1, sr_s := s\<rparr>;
         h1 = put_sr i sr (h\<lparr>hheap := hp\<rparr>) in
     case s of
       None \<Rightarrow> Some (kh_fail_request i KGPU_NO_SERVICE h1)
     | Some sv \<Rightarrow>
         let sr1 = snd (compute_size (service_at (reg h) sv) sr);
             h2 = put_sr i (sr1\<lparr>sr_state := KGPU_REQ_INIT, errcode := 0\<rparr>) h1 in
         bindO (Some (list_add_tail (Some (ListOf i)) (Some InitReqs) (hheap h2))) (\<lambda>hp2.
         Some (Inr (h2\<lparr>hheap := hp2\<rparr>)))))"

definition kh_get_next_service_request :: "round_env \<Rightarrow> 'x helper \<Rightarrow> (int \<times> 'x helper) run" where
  "kh_get_next_service_request env h =
     bindO (Some (list_empty (Some AllReqs) (hheap h))) (\<lambda>empty.
     let err = poll_ret env empty in
     if err = 0 \<or> (err \<noteq> 0 \<and> \<not> poll_in env) then Some (Inr (- 1, h))
     else if err = 1 \<and> poll_in env then
       bindO (Some (kh_alloc_service_request (malloc_ret env (hheap h)) h)) (\<lambda>(q, h1).
       case q of
         None \<Rightarrow> Some (Inr (- 1, h1))
       | Some i \<Rightarrow>
           if read_ret env \<le> 0 then
             if read_errno env = EAGAIN \<or> read_ret env = 0
             then bindO (Some (kh_free_service_request i h1)) (\<lambda>h2. Some (Inr (- 1, h2)))
             else Some (Inl Aborted)
           else bindO (kh_init_service_request i (read_req env) h1) (\<lambda>h2. Some (Inr (0, h2))))
     else Some (Inl Aborted))"

definition service_of :: "kgpu_service_request \<Rightarrow> 'x helper \<Rightarrow> fault + kgpu_service" where
  "service_of sr h = (case sr_s sr of None \<Rightarrow> Inl NullDeref | Some sv \<Rightarrow> Inr (service_at (reg h) sv))"

definition kh_request_alloc_mem :: "'x gpu_backend \<Rightarrow> nat \<Rightarrow> 'x helper \<Rightarrow> fault + (int \<times> 'x helper)" where
  "kh_request_alloc_mem be i h =
     andThen (get_sr i h) (\<lambda>sr.
     andThen (be_alloc_mem be sr (gpu h)) (\<lambda>(r, sr1, g).
     let h1 = put_sr i sr1 (h\<lparr>gpu := g\<rparr>) in
     if r \<noteq> 0 then Inr (- 1, h1)
     else andThen (move_to i MemdoneReqs (put_sr i (sr1\<lparr>sr_state := KGPU_REQ_MEM_DONE\<rparr>) h1)) (\<lambda>h2. Inr (0, h2))))"

definition kh_prepare_exec :: "'x gpu_backend \<Rightarrow> nat \<Rightarrow> 'x helper \<Rightarrow> fault + (int \<times> 'x helper)" where
  "kh_prepare_exec be i h =
     andThen (get_sr i h) (\<lambda>sr.
     let (e, sr1, g) = be_alloc_stream be sr (gpu h); h1 = put_sr i sr1 (h\<lparr>gpu := g\<rparr>) in
     if e \<noteq> 0 then Inr (- 1, h1)
     else
       andThen (service_of sr1 h1) (\<lambda>s.
       let (r, sr2) = prepare s sr1; h2 = put_sr i sr2 h1 in
       if r \<noteq> 0 then andThen (kh_fail_request i r h2) (\<lambda>h3. Inr (r, h3))
       else andThen (move_to i PreparedReqs (put_sr i (sr2\<lparr>sr_state := KGPU_REQ_PREPARED\<rparr>) h2)) (\<lambda>h3. Inr (r, h3))))"

definition kh_launch_exec :: "nat \<Rightarrow> 'x helper \<Rightarrow> fault + (int \<times> 'x helper)" where
  "kh_launch_exec i h =
     andThen (get_sr i h) (\<lambda>sr.
     andThen (service_of sr h) (\<lambda>s.
     let (r, sr1) = launch s sr; h1 = put_sr i sr1 h in
     if r \<noteq> 0 then andThen (kh_fail_request i r h1) (\<lambda>h2. Inr (0, h2))
     else andThen (move_to i RunningReqs (put_sr i (sr1\<lparr>sr_state := KGPU_REQ_RUNNING\<rparr>) h1)) (\<lambda>h2. Inr (0, h2))))"

definition kh_post_exec :: "'x gpu_backend \<Rightarrow> nat \<Rightarrow> 'x helper \<Rightarrow> fault + (int \<times> 'x helper)" where
  "kh_post_exec be i h =
     andThen (get_sr i h) (\<lambda>sr.
     andThen (be_execution_finished be sr (gpu h)) (\<lambda>fin.
     if fin \<noteq> 0 then
       andThen (service_of sr h) (\<lambda>s.
       let (r, sr1) = post s sr; h1 = put_sr i sr1 h in
       if r = 0
       then andThen (move_to i PostExecReqs (put_sr i (sr1\<lparr>sr_state := KGPU_REQ_POST_EXEC\<rparr>) h1)) (\<lambda>h2. Inr (r, h2))
       else andThen (kh_fail_request i r h1) (\<lambda>h2. Inr (r, h2)))
     else Inr (1, h)))"

definition kh_finish_post :: "'x gpu_backend \<Rightarrow> nat \<Rightarrow> 'x helper \<Rightarrow> fault + (int \<times> 'x helper)" where
  "kh_finish_post be i h =
     andThen (get_sr i h) (\<lambda>sr.
     andThen (be_post_finished be sr (gpu h)) (\<lambda>fin.
     if fin \<noteq> 0
     then andThen (move_to i DoneReqs (put_sr i (sr\<lparr>sr_state := KGPU_REQ_DONE\<rparr>) h)) (\<lambda>h1. Inr (0, h1))
     else Inr (1, h)))"

definition kh_service_done :: "'x gpu_backend \<Rightarrow> round_env \<Rightarrow> nat \<Rightarrow> 'x helper \<Rightarrow> fault + (int \<times> 'x helper)" where
  "kh_service_done be env i h =
     andThen (get_sr i h) (\<lambda>sr.
     andThen (kh_send_response env \<lparr>resp_id = sr_id sr, resp_errcode = errcode sr\<rparr> h) (\<lambda>(_, h1).
     andThen (list_del (Some (ListOf i)) (hheap h1)) (\<lambda>hp.
     andThen (list_del (Some (GlistOf i)) hp) (\<lambda>hp'.
     andThen (be_free_mem be sr (gpu h1)) (\<lambda>(sr1, g1).
     let g2 = be_free_stream be sr1 g1 in
     andThen (kh_free_service_request i (put_sr i sr1 (h1\<lparr>hheap := hp', gpu := g2\<rparr>))) (\<lambda>h2. Inr (0, h2)))))))"

text \<open>\<open>__kh_process_request\<close>: the state of the loop is the last result and the helper.\<close>

definition process_body :: "(nat \<Rightarrow> 'x helper \<Rightarrow> fault + (int \<times> 'x helper)) \<Rightarrow> bool \<Rightarrow> hnode \<Rightarrow> int \<times> 'x helper \<Rightarrow>
  fault + ((int \<times> 'x helper) \<times> bool)" where
  "process_body op once pos st =
     (case pos of
        ListOf i \<Rightarrow> andThen (op i (snd st)) (\<lambda>(r, h). Inr ((r, h), r = 0 \<and> once))
      | _ \<Rightarrow> Inl OutOfBounds)"

definition kh_process_request :: "(nat \<Rightarrow> 'x helper \<Rightarrow> fault + (int \<times> 'x helper)) \<Rightarrow> hnode \<Rightarrow> bool \<Rightarrow> 'x helper \<Rightarrow>
  (int \<times> 'x helper) run" where
  "kh_process_request op lst once h =
     list_for_each_safe (\<lambda>st. hheap (snd st)) (process_body op once) (Some lst) (0, h)"

definition main_passes :: "'x gpu_backend \<Rightarrow> round_env \<Rightarrow> 'x helper \<Rightarrow> 'x helper run" where
  "main_passes be env h =
     bindO (kh_process_request (kh_service_done be env) DoneReqs False h) (\<lambda>(_, h1).
     bindO (kh_process_request (kh_finish_post be) PostExecReqs False h1) (\<lambda>(_, h2).
     bindO (kh_process_request (kh_post_exec be) RunningReqs True h2) (\<lambda>(_, h3).
     bindO (kh_process_request kh_launch_exec PreparedReqs True h3) (\<lambda>(_, h4).
     bindO (kh_process_request (kh_prepare_exec be) MemdoneReqs True h4) (\<lambda>(_, h5).
     bindO (kh_process_request (kh_request_alloc_mem be) InitReqs False h5) (\<lambda>(_, h6). Some (Inr h6)))))))"

definition main_round :: "'x gpu_backend \<Rightarrow> round_env \<Rightarrow> 'x helper \<Rightarrow> 'x helper run" where
  "main_round be env h =
     bindO (main_passes be env h) (\<lambda>h6. bindO (kh_get_next_service_request env h6) (\<lambda>(_, h7). Some (Inr h7)))"

text \<open>
  \<open>kh_main_loop\<close>, for as many rounds as \<open>kh_loop_continue\<close> stays set. The GPU's answers and those of the system
  calls are given for each round.
\<close>

fun kh_main_loop :: "('x gpu_backend \<times> round_env) list \<Rightarrow> 'x helper \<Rightarrow> 'x helper run" where
  "kh_main_loop [] h = Some (Inr h)"
| "kh_main_loop ((be, env) # rounds) h = bindO (main_round be env h) (kh_main_loop rounds)"


section \<open>The contracts the helper relies on\<close>

text \<open>
  The GPU back end: its streams are a stream pool, and its memory functions change nothing of a request but the
  device addresses, and no stream.
\<close>

definition same_request :: "kgpu_service_request \<Rightarrow> kgpu_service_request \<Rightarrow> bool" where
  "same_request sr sr' \<longleftrightarrow> sr_id sr' = sr_id sr \<and> sr_s sr' = sr_s sr \<and> stream_id sr' = stream_id sr \<and>
     sr_state sr' = sr_state sr \<and> errcode sr' = errcode sr"

locale gpu_contract =
  stream_pool busy_streams streams_ok MAX_STREAM_NR stream_id "be_alloc_stream be" "be_free_stream be"
  for be :: "'x gpu_backend" +
  assumes alloc_stream_keeps: "be_alloc_stream be sr g = (r, sr', g') \<Longrightarrow>
      sr_id sr' = sr_id sr \<and> sr_s sr' = sr_s sr \<and> (r \<noteq> 0 \<longrightarrow> same_request sr sr')"
    and alloc_mem_law: "\<exists>r sr' g'. be_alloc_mem be sr g = Inr (r, sr', g') \<and> same_request sr sr' \<and>
      busy_streams g' = busy_streams g \<and> streams_ok g' = streams_ok g"
    and free_mem_law: "\<exists>sr' g'. be_free_mem be sr g = Inr (sr', g') \<and> same_request sr sr' \<and>
      busy_streams g' = busy_streams g \<and> streams_ok g' = streams_ok g"
    and finished_law: "\<exists>r. be_execution_finished be sr g = Inr r" "\<exists>r. be_post_finished be sr g = Inr r"
begin

lemma finishedE:
  obtains r r' where "be_execution_finished be sr g = Inr r" "be_post_finished be sr g = Inr r'"
  using finished_law[of sr g] by blast

end

text \<open>A service: its functions keep the identifier, the service pointer and the stream of a request.\<close>

locale service_plugin =
  fixes sv :: kgpu_service
  assumes fn_keeps: "f \<in> {compute_size sv, prepare sv, launch sv, post sv} \<Longrightarrow> f sr = (r, sr') \<Longrightarrow>
    sr_id sr' = sr_id sr \<and> sr_s sr' = sr_s sr \<and> stream_id sr' = stream_id sr"
begin

lemma keeps:
  "compute_size sv sr = (r, sr') \<Longrightarrow> sr_id sr' = sr_id sr \<and> sr_s sr' = sr_s sr \<and> stream_id sr' = stream_id sr"
  "prepare sv sr = (r, sr') \<Longrightarrow> sr_id sr' = sr_id sr \<and> sr_s sr' = sr_s sr \<and> stream_id sr' = stream_id sr"
  "launch sv sr = (r, sr') \<Longrightarrow> sr_id sr' = sr_id sr \<and> sr_s sr' = sr_s sr \<and> stream_id sr' = stream_id sr"
  "post sv sr = (r, sr') \<Longrightarrow> sr_id sr' = sr_id sr \<and> sr_s sr' = sr_s sr \<and> stream_id sr' = stream_id sr"
  using fn_keeps[of "compute_size sv"] fn_keeps[of "prepare sv"] fn_keeps[of "launch sv"] fn_keeps[of "post sv"]
  by blast+

end

interpretation empty_service: service_plugin empty_srv
  by unfold_locales (auto simp: empty_srv_def)

lemma fold_pin [simp]: "fold (\<lambda>i. gpu_pin_mem (f i) (k i)) xs gs = gs" "fold (\<lambda>i. gpu_unpin_mem (f i)) xs gs = gs"
  by (induction xs) (simp_all add: gpu_pin_mem_def gpu_unpin_mem_def)

lemma opencl_streams: "stream_pool busy_streams streams_ok MAX_STREAM_NR stream_id
    (be_alloc_stream (opencl_backend s)) (be_free_stream (opencl_backend s))"
  using cl_streams.stream_pool_axioms by (simp add: opencl_backend_def)

interpretation opencl: gpu_contract "opencl_backend s"
  by (intro gpu_contract.intro gpu_contract_axioms.intro opencl_streams)
    (auto simp: opencl_backend_def gpu_alloc_stream_def gpu_alloc_device_mem_def gpu_free_device_mem_def
      same_request_def Let_def split: prod.splits option.splits)

section \<open>Invariant\<close>

text \<open>
  A function from list heads to the items on them says which item is where: \<open>P AllReqs\<close> through the member
  \<open>glist\<close>, the six state lists through \<open>list\<close>.
\<close>

definition stages :: "hnode set" where
  "stages = {InitReqs, MemdoneReqs, PreparedReqs, RunningReqs, PostExecReqs, DoneReqs}"

type_synonym pipeline = "hnode \<Rightarrow> nat list"

definition family :: "pipeline \<Rightarrow> hnode \<rightharpoonup> hnode list" where
  "family P k = (if k = AllReqs then Some (map GlistOf (P AllReqs))
     else if k \<in> stages then Some (map ListOf (P k)) else None)"

definition state_of :: "hnode \<Rightarrow> int" where
  "state_of k = (case k of InitReqs \<Rightarrow> KGPU_REQ_INIT | MemdoneReqs \<Rightarrow> KGPU_REQ_MEM_DONE
     | PreparedReqs \<Rightarrow> KGPU_REQ_PREPARED | RunningReqs \<Rightarrow> KGPU_REQ_RUNNING | PostExecReqs \<Rightarrow> KGPU_REQ_POST_EXEC
     | _ \<Rightarrow> KGPU_REQ_DONE)"

text \<open>
  An item's state agrees with its list; before it is done it has a service; it holds no stream before it is
  prepared and holds one from then until it is done.
\<close>

definition item_ok :: "hnode \<Rightarrow> kgpu_service_request \<Rightarrow> bool" where
  "item_ok k sr \<longleftrightarrow> sr_state sr = state_of k \<and> (k \<noteq> DoneReqs \<longrightarrow> sr_s sr \<noteq> None) \<and>
     (k \<in> {InitReqs, MemdoneReqs} \<longrightarrow> stream_id sr = - 1) \<and>
     (k \<in> {PreparedReqs, RunningReqs, PostExecReqs} \<longrightarrow> stream_id sr \<noteq> - 1)"

definition holders :: "(nat \<Rightarrow> kgpu_service_request) \<Rightarrow> nat set \<Rightarrow> nat set" where
  "holders f A = {i \<in> A. stream_id (f i) \<noteq> - 1}"

text \<open>The streams in use are exactly those of the requests that hold one, and no two hold the same.\<close>

definition streams_inv :: "'x gpu_common_scheme \<Rightarrow> (nat \<Rightarrow> kgpu_service_request) \<Rightarrow> nat set \<Rightarrow> bool" where
  "streams_inv g f A \<longleftrightarrow> streams_ok g \<and>
     (\<forall>i \<in> holders f A. 0 \<le> stream_id (f i) \<and> stream_id (f i) < int MAX_STREAM_NR) \<and>
     inj_on (\<lambda>i. stream_id (f i)) (holders f A) \<and>
     busy_streams g = (\<lambda>i. nat (stream_id (f i))) ` holders f A"

definition hinv :: "'x helper \<Rightarrow> pipeline \<Rightarrow> bool" where
  "hinv h P \<longleftrightarrow> rings (hheap h) (family P) \<and> set (P AllReqs) = (\<Union>k \<in> stages. set (P k)) \<and>
     (\<forall>k \<in> stages. \<forall>i \<in> set (P k). item_ok k (sr_at h i)) \<and>
     streams_inv (gpu h) (sr_at h) (set (P AllReqs)) \<and>
     (\<exists>xs. registered (reg h) xs) \<and> (\<forall>s. service_plugin (service_at (reg h) s))"

lemma stages_not_all [simp]: "AllReqs \<notin> stages" "k \<in> stages \<Longrightarrow> k \<noteq> AllReqs" "ListOf i \<notin> stages" "GlistOf i \<notin> stages"
  by (auto simp: stages_def)

lemma in_stages [simp]: "InitReqs \<in> stages" "MemdoneReqs \<in> stages" "PreparedReqs \<in> stages" "RunningReqs \<in> stages"
  "PostExecReqs \<in> stages" "DoneReqs \<in> stages"
  by (auto simp: stages_def)

lemma family_stage: "k \<in> stages \<Longrightarrow> family P k = Some (map ListOf (P k))"
  by (auto simp: family_def)

lemma family_all: "family P AllReqs = Some (map GlistOf (P AllReqs))"
  by (simp add: family_def)

lemma family_upd: "k \<in> stages \<Longrightarrow> family (P(k := xs)) = (family P)(k \<mapsto> map ListOf xs)"
  by (auto simp: family_def fun_eq_iff)

lemma family_upd_all: "family (P(AllReqs := xs)) = (family P)(AllReqs \<mapsto> map GlistOf xs)"
  by (auto simp: family_def fun_eq_iff)

lemma in_family_nodes:
  "ListOf i \<in> nodes (family P) \<longleftrightarrow> (\<exists>k \<in> stages. i \<in> set (P k))"
  "GlistOf i \<in> nodes (family P) \<longleftrightarrow> i \<in> set (P AllReqs)"
  "k \<in> stages \<Longrightarrow> k \<in> nodes (family P)" "AllReqs \<in> nodes (family P)"
proof -
  show "ListOf i \<in> nodes (family P) \<longleftrightarrow> (\<exists>k \<in> stages. i \<in> set (P k))"
    unfolding nodes_def family_def by (auto simp: stages_def split: if_splits)
  show "GlistOf i \<in> nodes (family P) \<longleftrightarrow> i \<in> set (P AllReqs)"
    unfolding nodes_def family_def by (auto simp: stages_def split: if_splits)
  show "k \<in> stages \<Longrightarrow> k \<in> nodes (family P)" using in_nodes[of "family P" k] by (simp add: family_stage)
  show "AllReqs \<in> nodes (family P)" using in_nodes[of "family P" AllReqs] by (simp add: family_all)
qed

lemma map_remove1_inj: "inj f \<Longrightarrow> remove1 (f x) (map f xs) = map f (remove1 x xs)"
  by (induction xs) (auto simp: inj_eq)

lemma node_inj: "inj ListOf" "inj GlistOf"
  by (auto simp: inj_def)

lemma stage_distinct:
  assumes "rings hp (family P)" and "k \<in> stages"
  shows "distinct (P k)"
  using ringsD[OF assms(1) family_stage[OF assms(2)]] by (simp add: ring_def distinct_map)

lemma all_distinct: "rings hp (family P) \<Longrightarrow> distinct (P AllReqs)"
  using ringsD[of hp "family P" AllReqs] by (simp add: family_all ring_def distinct_map)

lemma stage_disjoint:
  assumes "rings hp (family P)" and "k \<in> stages" and "j \<in> stages" and "k \<noteq> j"
  shows "set (P k) \<inter> set (P j) = {}"
  using rings_disjoint[OF assms(1) family_stage[OF assms(2)] family_stage[OF assms(3)] assms(4)] by auto

lemma move_rings:
  assumes R: "rings hp (family P)" and k: "k \<in> stages" "j \<in> stages" "j \<noteq> k" and i: "i \<in> set (P k)"
  shows "\<exists>hp'. andThen (list_del (Some (ListOf i)) hp) (list_add_tail (Some (ListOf i)) (Some j)) = Inr hp' \<and>
    rings hp' (family (P(k := remove1 i (P k), j := P j @ [i]))) \<and> alive hp' = alive hp"
proof -
  have "ListOf i \<in> set (map ListOf (P k))" using i by simp
  from list_h.requeue[OF R family_stage[OF k(1)] this family_stage[OF k(2)] k(3)]
  show ?thesis using k by (simp add: family_upd map_remove1_inj[OF node_inj(1)])
qed


section \<open>Steps of one item\<close>

lemma put_sr_simps [simp]:
  "hheap (put_sr i sr h) = hheap h" "gpu (put_sr i sr h) = gpu h" "reg (put_sr i sr h) = reg h"
  "responses (put_sr i sr h) = responses h" "sr_at (put_sr i sr h) = (sr_at h)(i := sr)"
  "put_sr i sr (put_sr i sr' h) = put_sr i sr h" "(put_sr i sr h)\<lparr>gpu := g\<rparr> = put_sr i sr (h\<lparr>gpu := g\<rparr>)"
  by (simp_all add: put_sr_def)

lemma hinv_alive:
  assumes "hinv h P" and "k \<in> stages" and "i \<in> set (P k)"
  shows "alive (hheap h) (ListOf i)"
  using rings_alive[of "hheap h" "family P" "ListOf i"] assms in_family_nodes(1) by (auto simp: hinv_def)

text \<open>
  The frame of a step of item \<open>i\<close>: the heap, the item and the back end may change, the identifiers, the other
  items, the responses, the registry and the list of all requests do not.
\<close>

definition step_frame :: "nat \<Rightarrow> 'x helper \<Rightarrow> 'x helper \<Rightarrow> bool" where
  "step_frame i h h' \<longleftrightarrow> responses h' = responses h \<and> reg h' = reg h \<and> (\<forall>j. j \<noteq> i \<longrightarrow> sr_at h' j = sr_at h j) \<and>
     sr_id (sr_at h' i) = sr_id (sr_at h i)"

lemma moved_union:
  assumes "k \<in> stages" "j \<in> stages" "i \<in> set (P k)" "distinct (P k)"
  shows "(\<Union>a \<in> stages. set ((P(k := remove1 i (P k), j := P j @ [i])) a)) = (\<Union>a \<in> stages. set (P a))"
    (is "(\<Union>a \<in> stages. set (?P a)) = ?U")
proof
  have "set (?P a) \<subseteq> insert i (set (P a))" for a by (auto dest: notin_set_remove1)
  then show "(\<Union>a \<in> stages. set (?P a)) \<subseteq> ?U" using assms(1,3) by blast
  have "set (P a) \<subseteq> set (?P a) \<union> set (?P j)" for a using assms(4) by auto
  then show "?U \<subseteq> (\<Union>a \<in> stages. set (?P a))" using assms(2) by blast
qed

lemma moved_items:
  assumes inv: "hinv h P" and k: "k \<in> stages" "j \<in> stages" "j \<noteq> k" and i: "i \<in> set (P k)"
    and ok: "item_ok j sr" and a: "a \<in> stages" "b \<in> set ((P(k := remove1 i (P k), j := P j @ [i])) a)"
  shows "item_ok a (((sr_at h)(i := sr)) b)"
proof -
  have R: "rings (hheap h) (family P)" using inv by (simp add: hinv_def)
  have d: "distinct (P k)" using stage_distinct[OF R k(1)] .
  show ?thesis
  proof (cases "b = i")
    case True
    then have "a = j" using a k d stage_disjoint[OF R _ k(1), of a] i by (auto split: if_splits)
    then show ?thesis using ok True by simp
  next
    case False
    then have "b \<in> set (P a)" using a d by (auto split: if_splits dest: notin_set_remove1)
    then show ?thesis using inv a(1) False by (simp add: hinv_def)
  qed
qed

lemma advance:
  assumes inv: "hinv h P" and k: "k \<in> stages" "j \<in> stages" "j \<noteq> k" and i: "i \<in> set (P k)"
    and ok: "item_ok j sr" and st: "streams_inv g ((sr_at h)(i := sr)) (set (P AllReqs))"
    and id: "sr_id sr = sr_id (sr_at h i)"
  shows "\<exists>h'. move_to i j (put_sr i sr (h\<lparr>gpu := g\<rparr>)) = Inr h' \<and>
    hinv h' (P(k := remove1 i (P k), j := P j @ [i])) \<and> step_frame i h h'"
proof -
  let ?P = "P(k := remove1 i (P k), j := P j @ [i])"
  have R: "rings (hheap h) (family P)" using inv by (simp add: hinv_def)
  obtain hp where hp: "andThen (list_del (Some (ListOf i)) (hheap h)) (list_add_tail (Some (ListOf i)) (Some j)) = Inr hp"
    "rings hp (family ?P)" using move_rings[OF R k i] by blast
  let ?h = "(put_sr i sr (h\<lparr>gpu := g\<rparr>))\<lparr>hheap := hp\<rparr>"
  have run: "move_to i j (put_sr i sr (h\<lparr>gpu := g\<rparr>)) = Inr ?h" using hp(1) by (simp add: move_to_def)
  have un: "(\<Union>a \<in> stages. set (?P a)) = (\<Union>a \<in> stages. set (P a))"
    by (rule moved_union[where P = P, OF k(1,2) i stage_distinct[OF R k(1)]])
  have items: "item_ok a (((sr_at h)(i := sr)) b)" if "a \<in> stages" "b \<in> set (?P a)" for a b
    by (rule moved_items[where P = P, OF inv k i ok that])
  have "?P AllReqs = P AllReqs" using stages_not_all(2)[OF k(1)] stages_not_all(2)[OF k(2)] by auto
  then have "hinv ?h ?P"
    using inv hp(2) un items st by (simp add: hinv_def)
  then show ?thesis using run id by (auto simp: step_frame_def)
qed

lemma stay:
  assumes inv: "hinv h P" and k: "k \<in> stages" and i: "i \<in> set (P k)"
    and ok: "item_ok k sr" and st: "streams_inv g ((sr_at h)(i := sr)) (set (P AllReqs))"
  shows "hinv (put_sr i sr (h\<lparr>gpu := g\<rparr>)) P"
proof -
  have R: "rings (hheap h) (family P)" using inv by (simp add: hinv_def)
  have "item_ok a (((sr_at h)(i := sr)) b)" if a: "a \<in> stages" "b \<in> set (P a)" for a b
  proof (cases "b = i")
    case True
    then have "a = k" using a k i stage_disjoint[OF R a(1) k] by auto
    then show ?thesis using ok True by simp
  qed (use inv a in \<open>simp add: hinv_def\<close>)
  then show ?thesis using inv st by (simp add: hinv_def)
qed

lemma streams_inv_same:
  assumes "streams_inv g f A" and "stream_id sr = stream_id (f i)" and "busy_streams g' = busy_streams g"
    and "streams_ok g'"
  shows "streams_inv g' (f(i := sr)) A"
proof -
  have "stream_id ((f(i := sr)) j) = stream_id (f j)" for j using assms(2) by simp
  then show ?thesis using assms(1,3,4) unfolding streams_inv_def holders_def inj_on_def by simp
qed

lemma streams_inv_acquire:
  assumes inv: "streams_inv g f A" and i: "i \<in> A" "stream_id (f i) = - 1"
    and n: "n < MAX_STREAM_NR" "n \<notin> busy_streams g" and sr: "stream_id sr = int n"
    and g': "streams_ok g'" "busy_streams g' = insert n (busy_streams g)"
  shows "streams_inv g' (f(i := sr)) A"
proof -
  have H: "holders (f(i := sr)) A = insert i (holders f A)" "i \<notin> holders f A"
    using i sr by (auto simp: holders_def)
  have fresh: "stream_id (f j) \<noteq> int n" if "j \<in> holders f A" for j
    using inv n(2) that by (force simp: streams_inv_def)
  have "inj_on (\<lambda>j. stream_id ((f(i := sr)) j)) (insert i (holders f A))"
  proof -
    have "inj_on (\<lambda>j. stream_id ((f(i := sr)) j)) (holders f A)"
      using inv H(2) by (auto simp: streams_inv_def inj_on_def)
    moreover have "stream_id ((f(i := sr)) i) \<notin> (\<lambda>j. stream_id ((f(i := sr)) j)) ` holders f A"
    proof
      assume "stream_id ((f(i := sr)) i) \<in> (\<lambda>j. stream_id ((f(i := sr)) j)) ` holders f A"
      then obtain j where "j \<in> holders f A" "stream_id ((f(i := sr)) i) = stream_id ((f(i := sr)) j)" by (rule imageE)
      moreover have "j \<noteq> i" using calculation(1) H(2) by blast
      ultimately show False using fresh[of j] sr by simp
    qed
    ultimately show ?thesis using H(2) by (simp add: inj_on_insert)
  qed
  moreover have "(\<lambda>j. nat (stream_id ((f(i := sr)) j))) ` insert i (holders f A) = insert n (busy_streams g)"
    using inv H(2) sr by (auto simp: streams_inv_def)
  ultimately show ?thesis using inv n(1) sr g' H by (auto simp: streams_inv_def)
qed

lemma streams_inv_remove:
  assumes inv: "streams_inv g f A"
    and g': "streams_ok g'" "busy_streams g' = (if stream_id (f i) = - 1 then busy_streams g
      else busy_streams g - {nat (stream_id (f i))})"
    and i: "i \<in> A"
  shows "streams_inv g' (f(i := sr)) (A - {i})"
proof -
  have H: "holders (f(i := sr)) (A - {i}) = holders f A - {i}" by (auto simp: holders_def)
  have img: "(\<lambda>j. nat (stream_id (f j))) ` (holders f A - {i}) = busy_streams g'"
  proof (cases "i \<in> holders f A")
    case True
    have inj: "inj_on (\<lambda>j. nat (stream_id (f j))) (holders f A)"
    proof (rule inj_onI)
      fix x y assume "x \<in> holders f A" "y \<in> holders f A" "nat (stream_id (f x)) = nat (stream_id (f y))"
      moreover have "0 \<le> stream_id (f x)" "0 \<le> stream_id (f y)" using calculation inv by (auto simp: streams_inv_def)
      ultimately have "stream_id (f x) = stream_id (f y)" "x \<in> holders f A" "y \<in> holders f A"
        by (simp_all add: eq_nat_nat_iff)
      then show "x = y" using inv unfolding streams_inv_def inj_on_def by blast
    qed
    have "stream_id (f i) \<noteq> - 1" using True by (simp add: holders_def)
    then show ?thesis using inj_on_image_set_diff[OF inj, of "holders f A" "{i}"] True inv g'(2)
      by (auto simp: streams_inv_def)
  next
    case False
    then have "stream_id (f i) = - 1" using i by (simp add: holders_def)
    then show ?thesis using False inv g'(2) by (simp add: streams_inv_def)
  qed
  have "(\<lambda>j. nat (stream_id ((f(i := sr)) j))) ` (holders f A - {i}) = (\<lambda>j. nat (stream_id (f j))) ` (holders f A - {i})"
    by auto
  moreover have "inj_on (\<lambda>j. stream_id ((f(i := sr)) j)) (holders f A - {i})"
    using inv by (auto simp: streams_inv_def inj_on_def)
  ultimately show ?thesis using inv g'(1) H img by (auto simp: streams_inv_def)
qed


lemma fail_law:
  assumes inv: "hinv h P" and k: "k \<in> stages" "k \<noteq> DoneReqs" and i: "i \<in> set (P k)"
    and st: "streams_inv g ((sr_at h)(i := sr)) (set (P AllReqs))" and id: "sr_id sr = sr_id (sr_at h i)"
  shows "\<exists>h'. kh_fail_request i e (put_sr i sr (h\<lparr>gpu := g\<rparr>)) = Inr h' \<and>
    hinv h' (P(k := remove1 i (P k), DoneReqs := P DoneReqs @ [i])) \<and> step_frame i h h'"
proof -
  let ?sr = "sr\<lparr>sr_state := KGPU_REQ_DONE, errcode := e\<rparr>"
  have ok: "item_ok DoneReqs ?sr" by (simp add: item_ok_def state_of_def)
  have "streams_inv g ((sr_at h)(i := sr, i := ?sr)) (set (P AllReqs))"
    by (rule streams_inv_same[OF st]) (use st in \<open>simp_all add: streams_inv_def\<close>)
  then show ?thesis
    using advance[OF inv k(1) _ _ i ok, of g] k(2) id hinv_alive[OF inv k(1) i]
    by (auto simp: kh_fail_request_def get_sr_def)
qed

text \<open>
  What an operation does to the place of an item: it leaves it when \<open>stuck\<close> holds, and otherwise moves it to the end of a later
  list. The rank of a list counts the lists an item may still go through.
\<close>

definition rank :: "hnode \<Rightarrow> nat" where
  "rank k = (case k of InitReqs \<Rightarrow> 6 | MemdoneReqs \<Rightarrow> 5 | PreparedReqs \<Rightarrow> 4 | RunningReqs \<Rightarrow> 3 | PostExecReqs \<Rightarrow> 2
     | _ \<Rightarrow> 1)"

definition moved :: "hnode \<Rightarrow> bool \<Rightarrow> nat \<Rightarrow> pipeline \<Rightarrow> pipeline \<Rightarrow> bool" where
  "moved k stuck i P P' \<longleftrightarrow> (if stuck then P' = P
     else (\<exists>j \<in> stages. rank j < rank k \<and> P' = P(k := remove1 i (P k), j := P j @ [i])))"

definition stage_op :: "hnode \<Rightarrow> (nat \<Rightarrow> 'x helper \<Rightarrow> bool) \<Rightarrow> (nat \<Rightarrow> 'x helper \<Rightarrow> fault + (int \<times> 'x helper)) \<Rightarrow> bool" where
  "stage_op k stuck op \<longleftrightarrow> (\<forall>h P i. hinv h P \<longrightarrow> i \<in> set (P k) \<longrightarrow>
     (\<exists>r h' P'. op i h = Inr (r, h') \<and> hinv h' P' \<and> step_frame i h h' \<and> moved k (stuck i h) i P P'))"

lemma movedI: "j \<in> stages \<Longrightarrow> rank j < rank k \<Longrightarrow> moved k False i P (P(k := remove1 i (P k), j := P j @ [i]))"
  by (auto simp: moved_def)

lemma moved_stuck: "moved k True i P P"
  by (simp add: moved_def)

lemma rank_less [simp]: "rank MemdoneReqs < rank InitReqs" "rank PreparedReqs < rank MemdoneReqs"
  "rank RunningReqs < rank PreparedReqs" "rank PostExecReqs < rank RunningReqs" "rank DoneReqs < rank PostExecReqs"
  "rank DoneReqs < rank MemdoneReqs" "rank DoneReqs < rank PreparedReqs" "rank DoneReqs < rank RunningReqs"
  by (simp_all add: rank_def)

lemma hinv_item:
  assumes "hinv h P" and "k \<in> stages" and "i \<in> set (P k)"
  shows "item_ok k (sr_at h i)" and "i \<in> set (P AllReqs)" and "get_sr i h = Inr (sr_at h i)"
  using assms hinv_alive[OF assms] by (auto simp: hinv_def get_sr_def)

lemma hinv_streams: "hinv h P \<Longrightarrow> streams_inv (gpu h) (sr_at h) (set (P AllReqs))"
  unfolding hinv_def by blast

lemma hinv_plugin: "hinv h P \<Longrightarrow> service_plugin (service_at (reg h) s)"
  by (simp add: hinv_def)

lemma helper_gpu_same: "h\<lparr>gpu := gpu h\<rparr> = h"
  by simp

lemma streams_inv_keep:
  "hinv h P \<Longrightarrow> stream_id sr = stream_id (sr_at h i) \<Longrightarrow> streams_inv (gpu h) ((sr_at h)(i := sr)) (set (P AllReqs))"
  using streams_inv_same[OF hinv_streams, of h P sr i "gpu h"] hinv_streams[of h P] by (simp add: streams_inv_def)

lemma launch_stage: "stage_op PreparedReqs (\<lambda>i h. False) kh_launch_exec"
  unfolding stage_op_def
proof (intro allI impI)
  fix h P i assume inv: "hinv h P" and i: "i \<in> set (P PreparedReqs)"
  let ?sr = "sr_at h i"
  note it = hinv_item[OF inv in_stages(3) i]
  obtain sv where sv: "sr_s ?sr = Some sv" using it(1) by (auto simp: item_ok_def)
  obtain r sr1 where l: "launch (service_at (reg h) sv) ?sr = (r, sr1)" by (cases "launch (service_at (reg h) sv) ?sr")
  note kp = service_plugin.keeps(3)[OF hinv_plugin[OF inv] l]
  have run: "kh_launch_exec i h = (if r \<noteq> 0 then andThen (kh_fail_request i r (put_sr i sr1 h)) (\<lambda>h2. Inr (0, h2))
      else andThen (move_to i RunningReqs (put_sr i (sr1\<lparr>sr_state := KGPU_REQ_RUNNING\<rparr>) h)) (\<lambda>h2. Inr (0, h2)))"
    using it(3) sv l by (simp add: kh_launch_exec_def service_of_def)
  show "\<exists>r h' P'. kh_launch_exec i h = Inr (r, h') \<and> hinv h' P' \<and> step_frame i h h' \<and> moved PreparedReqs False i P P'"
  proof (cases "r = 0")
    case True
    let ?s = "sr1\<lparr>sr_state := KGPU_REQ_RUNNING\<rparr>"
    have ok: "item_ok RunningReqs ?s" using it(1) kp by (auto simp: item_ok_def state_of_def)
    have st: "streams_inv (gpu h) ((sr_at h)(i := ?s)) (set (P AllReqs))" using streams_inv_keep[OF inv] kp by simp
    obtain h' where "move_to i RunningReqs (put_sr i ?s h) = Inr h'"
      "hinv h' (P(PreparedReqs := remove1 i (P PreparedReqs), RunningReqs := P RunningReqs @ [i]))" "step_frame i h h'"
      using advance[OF inv in_stages(3,4) _ i ok st] kp by auto
    then show ?thesis using run True movedI[of RunningReqs PreparedReqs i P] by (auto simp del: fun_upd_apply)
  next
    case False
    have st: "streams_inv (gpu h) ((sr_at h)(i := sr1)) (set (P AllReqs))" using streams_inv_keep[OF inv] kp by simp
    obtain h' where "kh_fail_request i r (put_sr i sr1 h) = Inr h'"
      "hinv h' (P(PreparedReqs := remove1 i (P PreparedReqs), DoneReqs := P DoneReqs @ [i]))" "step_frame i h h'"
      using fail_law[OF inv in_stages(3) _ i st] kp by auto
    then show ?thesis using run False movedI[of DoneReqs PreparedReqs i P] by (auto simp del: fun_upd_apply)
  qed
qed


lemma stage_opI:
  assumes "\<And>h P i. hinv h P \<Longrightarrow> i \<in> set (P k) \<Longrightarrow>
    \<exists>r h' P'. op i h = Inr (r, h') \<and> hinv h' P' \<and> step_frame i h h' \<and> moved k (stuck i h) i P P'"
  shows "stage_op k stuck op"
  using assms unfolding stage_op_def by blast

lemma stay_frame:
  "sr_id sr = sr_id (sr_at h i) \<Longrightarrow> step_frame i h (put_sr i sr (h\<lparr>gpu := g\<rparr>))"
  by (simp add: step_frame_def)

definition response_of :: "kgpu_service_request \<Rightarrow> kgpu_ku_response" where
  "response_of sr = \<lparr>resp_id = sr_id sr, resp_errcode = errcode sr\<rparr>"

context gpu_contract
begin

text \<open>When a request stays where it is: no device memory, no free stream, or the GPU has not finished.\<close>

definition alloc_stuck :: "nat \<Rightarrow> 'x helper \<Rightarrow> bool" where
  "alloc_stuck i h \<longleftrightarrow> (\<exists>r sr g. be_alloc_mem be (sr_at h i) (gpu h) = Inr (r, sr, g) \<and> r \<noteq> 0)"

definition stream_stuck :: "nat \<Rightarrow> 'x helper \<Rightarrow> bool" where
  "stream_stuck i h \<longleftrightarrow> busy_streams (gpu h) = {..< MAX_STREAM_NR}"

definition exec_stuck :: "nat \<Rightarrow> 'x helper \<Rightarrow> bool" where
  "exec_stuck i h \<longleftrightarrow> be_execution_finished be (sr_at h i) (gpu h) = Inr 0"

definition post_stuck :: "nat \<Rightarrow> 'x helper \<Rightarrow> bool" where
  "post_stuck i h \<longleftrightarrow> be_post_finished be (sr_at h i) (gpu h) = Inr 0"

lemma alloc_mem_stage: "stage_op InitReqs alloc_stuck (kh_request_alloc_mem be)"
proof (rule stage_opI)
  fix h :: "'x helper" and P i assume inv: "hinv h P" and i: "i \<in> set (P InitReqs)"
  let ?sr = "sr_at h i"
  note it = hinv_item[OF inv in_stages(1) i]
  obtain r sr1 g where a: "be_alloc_mem be ?sr (gpu h) = Inr (r, sr1, g)" and kp: "same_request ?sr sr1"
    "busy_streams g = busy_streams (gpu h)" "streams_ok g = streams_ok (gpu h)"
    using alloc_mem_law[of ?sr "gpu h"] by blast
  note kp = kp[unfolded same_request_def]
  have st: "streams_inv g ((sr_at h)(i := s)) (set (P AllReqs))" if "stream_id s = stream_id ?sr" for s
    by (rule streams_inv_same[OF hinv_streams[OF inv]]) (use kp hinv_streams[OF inv] that in \<open>simp_all add: streams_inv_def\<close>)
  have ns: "alloc_stuck i h \<longleftrightarrow> r \<noteq> 0" using a by (simp add: alloc_stuck_def)
  have run: "kh_request_alloc_mem be i h = (if r \<noteq> 0 then Inr (- 1, put_sr i sr1 (h\<lparr>gpu := g\<rparr>))
      else andThen (move_to i MemdoneReqs (put_sr i (sr1\<lparr>sr_state := KGPU_REQ_MEM_DONE\<rparr>) (h\<lparr>gpu := g\<rparr>))) (\<lambda>h2. Inr (0, h2)))"
    using it(3) a by (simp add: kh_request_alloc_mem_def Let_def)
  show "\<exists>r h' P'. kh_request_alloc_mem be i h = Inr (r, h') \<and> hinv h' P' \<and> step_frame i h h' \<and> moved InitReqs (alloc_stuck i h) i P P'"
  proof (cases "r = 0")
    case True
    let ?s = "sr1\<lparr>sr_state := KGPU_REQ_MEM_DONE\<rparr>"
    have ok: "item_ok MemdoneReqs ?s" using it(1) kp by (auto simp: item_ok_def state_of_def)
    obtain h' where "move_to i MemdoneReqs (put_sr i ?s (h\<lparr>gpu := g\<rparr>)) = Inr h'"
      "hinv h' (P(InitReqs := remove1 i (P InitReqs), MemdoneReqs := P MemdoneReqs @ [i]))" "step_frame i h h'"
      using advance[OF inv in_stages(1,2) _ i ok st[of ?s]] kp by auto
    then show ?thesis using run True ns movedI[of MemdoneReqs InitReqs i P] by (auto simp del: fun_upd_apply)
  next
    case False
    have ok: "item_ok InitReqs sr1" using it(1) kp by (auto simp: item_ok_def state_of_def)
    then show ?thesis
      using run False a stay[OF inv in_stages(1) i ok st[of sr1]] kp stay_frame[of sr1 h i g] moved_stuck[of InitReqs i P]
      by (auto simp: alloc_stuck_def)
  qed
qed

lemma prepare_stage: "stage_op MemdoneReqs stream_stuck (kh_prepare_exec be)"
proof (rule stage_opI)
  fix h :: "'x helper" and P i assume inv: "hinv h P" and i: "i \<in> set (P MemdoneReqs)"
  let ?sr = "sr_at h i"
  note it = hinv_item[OF inv in_stages(2) i]
  have ns: "stream_id ?sr = - 1" using it(1) by (simp add: item_ok_def)
  obtain sv where sv: "sr_s ?sr = Some sv" using it(1) by (auto simp: item_ok_def)
  have sok: "streams_ok (gpu h)" using hinv_streams[OF inv] by (simp add: streams_inv_def)
  let ?g = "\<exists>r h' P'. kh_prepare_exec be i h = Inr (r, h') \<and> hinv h' P' \<and> step_frame i h h' \<and> moved MemdoneReqs (stream_stuck i h) i P P'"
  show ?g
    using sok
  proof (cases rule: acquire_cases[where r = ?sr])
    case full
    have "hinv (put_sr i ?sr (h\<lparr>gpu := gpu h\<rparr>)) P"
      using stay[OF inv in_stages(2) i it(1), of "gpu h"] hinv_streams[OF inv] by simp
    moreover have "kh_prepare_exec be i h = Inr (- 1, put_sr i ?sr h)"
      using it(3) full(1) by (simp add: kh_prepare_exec_def Let_def)
    ultimately show ?thesis
      using full(2) stay_frame[of ?sr h i "gpu h"] moved_stuck[of MemdoneReqs i P] by (auto simp: stream_stuck_def)
  next
    case (got n sr1 g)
    note kp1 = alloc_stream_keeps[OF got(1)]
    have nst: "stream_stuck i h = False" using got(2,3) by (auto simp: stream_stuck_def)
    obtain r sr2 where p: "prepare (service_at (reg h) sv) sr1 = (r, sr2)" by (cases "prepare (service_at (reg h) sv) sr1")
    note kp2 = service_plugin.keeps(2)[OF hinv_plugin[OF inv] p]
    have st: "streams_inv g ((sr_at h)(i := s)) (set (P AllReqs))" if "stream_id s = stream_id sr1" for s
      by (rule streams_inv_acquire[OF hinv_streams[OF inv] it(2) ns got(2,3)]) (use that got in simp_all)
    have run: "kh_prepare_exec be i h =
        (if r \<noteq> 0 then andThen (kh_fail_request i r (put_sr i sr2 (h\<lparr>gpu := g\<rparr>))) (\<lambda>h3. Inr (r, h3))
         else andThen (move_to i PreparedReqs (put_sr i (sr2\<lparr>sr_state := KGPU_REQ_PREPARED\<rparr>) (h\<lparr>gpu := g\<rparr>)))
           (\<lambda>h3. Inr (r, h3)))"
      using it(3) got(1) sv kp1 p by (simp add: kh_prepare_exec_def service_of_def Let_def)
    show ?thesis
    proof (cases "r = 0")
      case True
      let ?s = "sr2\<lparr>sr_state := KGPU_REQ_PREPARED\<rparr>"
      have ok: "item_ok PreparedReqs ?s" using sv kp1 kp2 got(4) by (auto simp: item_ok_def state_of_def)
      obtain h' where "move_to i PreparedReqs (put_sr i ?s (h\<lparr>gpu := g\<rparr>)) = Inr h'"
        "hinv h' (P(MemdoneReqs := remove1 i (P MemdoneReqs), PreparedReqs := P PreparedReqs @ [i]))" "step_frame i h h'"
        using advance[OF inv in_stages(2,3) _ i ok st[of ?s]] kp1 kp2 by auto
      then show ?thesis using run True nst movedI[of PreparedReqs MemdoneReqs i P] by (auto simp del: fun_upd_apply)
    next
      case False
      obtain h' where "kh_fail_request i r (put_sr i sr2 (h\<lparr>gpu := g\<rparr>)) = Inr h'"
        "hinv h' (P(MemdoneReqs := remove1 i (P MemdoneReqs), DoneReqs := P DoneReqs @ [i]))" "step_frame i h h'"
        using fail_law[OF inv in_stages(2) _ i st[of sr2]] kp1 kp2 by auto
      then show ?thesis using run False nst movedI[of DoneReqs MemdoneReqs i P] by (auto simp del: fun_upd_apply)
    qed
  qed
qed

lemma post_stage: "stage_op RunningReqs exec_stuck (kh_post_exec be)"
proof (rule stage_opI)
  fix h :: "'x helper" and P i assume inv: "hinv h P" and i: "i \<in> set (P RunningReqs)"
  let ?sr = "sr_at h i"
  note it = hinv_item[OF inv in_stages(4) i]
  obtain sv where sv: "sr_s ?sr = Some sv" using it(1) by (auto simp: item_ok_def)
  obtain r sr1 where p: "post (service_at (reg h) sv) ?sr = (r, sr1)" by (cases "post (service_at (reg h) sv) ?sr")
  note kp = service_plugin.keeps(4)[OF hinv_plugin[OF inv] p]
  obtain fin where fin: "be_execution_finished be ?sr (gpu h) = Inr fin" using finished_law(1) by blast
  have ns: "exec_stuck i h \<longleftrightarrow> fin = 0" using fin by (simp add: exec_stuck_def)
  have run: "kh_post_exec be i h = (if fin = 0 then Inr (1, h)
      else if r \<noteq> 0 then andThen (kh_fail_request i r (put_sr i sr1 h)) (\<lambda>h2. Inr (r, h2))
      else andThen (move_to i PostExecReqs (put_sr i (sr1\<lparr>sr_state := KGPU_REQ_POST_EXEC\<rparr>) h)) (\<lambda>h2. Inr (r, h2)))"
    using it(3) sv p fin by (simp add: kh_post_exec_def service_of_def)
  consider (busy) "fin = 0" | (fine) "fin \<noteq> 0" "r = 0" | (bad) "fin \<noteq> 0" "r \<noteq> 0" by blast
  then show "\<exists>r h' P'. kh_post_exec be i h = Inr (r, h') \<and> hinv h' P' \<and> step_frame i h h' \<and> moved RunningReqs (exec_stuck i h) i P P'"
  proof cases
    case busy
    then show ?thesis using run inv fin moved_stuck[of RunningReqs i P] by (auto simp: step_frame_def exec_stuck_def)
  next
    case fine
    let ?s = "sr1\<lparr>sr_state := KGPU_REQ_POST_EXEC\<rparr>"
    have ok: "item_ok PostExecReqs ?s" using it(1) kp by (auto simp: item_ok_def state_of_def)
    have st: "streams_inv (gpu h) ((sr_at h)(i := ?s)) (set (P AllReqs))" using streams_inv_keep[OF inv] kp by simp
    obtain h' where "move_to i PostExecReqs (put_sr i ?s h) = Inr h'"
      "hinv h' (P(RunningReqs := remove1 i (P RunningReqs), PostExecReqs := P PostExecReqs @ [i]))" "step_frame i h h'"
      using advance[OF inv in_stages(4,5) _ i ok st] kp by auto
    then show ?thesis using run fine ns movedI[of PostExecReqs RunningReqs i P] by (auto simp del: fun_upd_apply)
  next
    case bad
    have st: "streams_inv (gpu h) ((sr_at h)(i := sr1)) (set (P AllReqs))" using streams_inv_keep[OF inv] kp by simp
    obtain h' where "kh_fail_request i r (put_sr i sr1 h) = Inr h'"
      "hinv h' (P(RunningReqs := remove1 i (P RunningReqs), DoneReqs := P DoneReqs @ [i]))" "step_frame i h h'"
      using fail_law[OF inv in_stages(4) _ i st] kp by auto
    then show ?thesis using run bad ns movedI[of DoneReqs RunningReqs i P] by (auto simp del: fun_upd_apply)
  qed
qed

lemma finish_stage: "stage_op PostExecReqs post_stuck (kh_finish_post be)"
proof (rule stage_opI)
  fix h :: "'x helper" and P i assume inv: "hinv h P" and i: "i \<in> set (P PostExecReqs)"
  let ?sr = "sr_at h i"
  note it = hinv_item[OF inv in_stages(5) i]
  obtain fin where fin: "be_post_finished be ?sr (gpu h) = Inr fin" using finished_law(2) by blast
  have ns: "post_stuck i h \<longleftrightarrow> fin = 0" using fin by (simp add: post_stuck_def)
  show "\<exists>r h' P'. kh_finish_post be i h = Inr (r, h') \<and> hinv h' P' \<and> step_frame i h h' \<and> moved PostExecReqs (post_stuck i h) i P P'"
  proof (cases "fin = 0")
    case True
    then show ?thesis using it(3) inv fin moved_stuck[of PostExecReqs i P]
      by (auto simp: kh_finish_post_def step_frame_def post_stuck_def)
  next
    case False
    let ?s = "?sr\<lparr>sr_state := KGPU_REQ_DONE\<rparr>"
    have ok: "item_ok DoneReqs ?s" by (simp add: item_ok_def state_of_def)
    have st: "streams_inv (gpu h) ((sr_at h)(i := ?s)) (set (P AllReqs))" using streams_inv_keep[OF inv] by simp
    obtain h' where "move_to i DoneReqs (put_sr i ?s h) = Inr h'"
      "hinv h' (P(PostExecReqs := remove1 i (P PostExecReqs), DoneReqs := P DoneReqs @ [i]))" "step_frame i h h'"
      using advance[OF inv in_stages(5,6) _ i ok st] by auto
    then show ?thesis
      using it(3) False fin ns movedI[of DoneReqs PostExecReqs i P] by (auto simp: kh_finish_post_def simp del: fun_upd_apply)
  qed
qed


lemma release_request:
  assumes st: "streams_inv g f A" and i: "i \<in> A" and kp0: "same_request (f i) sr1" "busy_streams g1 = busy_streams g" "streams_ok g1 = streams_ok g"
  shows "streams_inv (be_free_stream be sr1 g1) (f(i := sr1)) (A - {i})"
proof -
  note kp = kp0[unfolded same_request_def]
  have ok: "streams_ok g1" using kp st by (simp add: streams_inv_def)
  show ?thesis
  proof (cases "stream_id (f i) = - 1")
    case True
    then have "be_free_stream be sr1 g1 = g1" using kp by (intro release_none) simp
    then show ?thesis using True kp ok by (intro streams_inv_remove[OF st _ _ i]) simp_all
  next
    case False
    then have b: "0 \<le> stream_id (f i)" "stream_id (f i) < int MAX_STREAM_NR"
      using st i by (auto simp: streams_inv_def holders_def)
    then have "streams_ok (be_free_stream be sr1 g1) \<and>
        busy_streams (be_free_stream be sr1 g1) = busy_streams g1 - {nat (stream_id (f i))}"
      using kp by (intro release_law[OF ok]) auto
    then show ?thesis using False kp by (intro streams_inv_remove[OF st _ _ i]) simp_all
  qed
qed

lemma unlink_rings:
  assumes R: "rings hp (family P)" and i: "i \<in> set (P DoneReqs)" "i \<in> set (P AllReqs)"
  shows "\<exists>hp'. andThen (list_del (Some (ListOf i)) hp) (list_del (Some (GlistOf i))) = Inr hp' \<and> alive hp' = alive hp \<and>
    rings (free_node (ListOf i) (free_node (GlistOf i) hp'))
      (family (P(DoneReqs := remove1 i (P DoneReqs), AllReqs := remove1 i (P AllReqs))))"
proof -
  let ?P1 = "P(DoneReqs := remove1 i (P DoneReqs))"
  let ?P2 = "?P1(AllReqs := remove1 i (P AllReqs))"
  have m: "ListOf i \<in> set (map ListOf (P DoneReqs))" "GlistOf i \<in> set (map GlistOf (P AllReqs))" using i by auto
  obtain h1 where h1: "list_del (Some (ListOf i)) hp = Inr h1" "rings h1 (family ?P1)" "alive h1 = alive hp"
    "ListOf i \<notin> nodes (family ?P1)"
    using list_del_rings[OF R family_stage[OF in_stages(6)] m(1)]
    by (auto simp: family_upd map_remove1_inj[OF node_inj(1)])
  have all: "family ?P1 AllReqs = Some (map GlistOf (P AllReqs))" by (simp add: family_all)
  obtain h2 where h2: "list_del (Some (GlistOf i)) h1 = Inr h2" "rings h2 (family ?P2)" "alive h2 = alive h1"
    "GlistOf i \<notin> nodes (family ?P2)"
    using list_del_rings[OF h1(2) all m(2)] by (auto simp: family_upd_all map_remove1_inj[OF node_inj(2)] simp del: fun_upd_apply)
  have "ListOf i \<notin> nodes (family ?P2)"
    using h1(4) unfolding in_family_nodes(1) by (auto simp: stages_def)
  then have "rings (free_node (ListOf i) (free_node (GlistOf i) h2)) (family ?P2)"
    using h2(2,4) by (intro free_node_rings)
  then show ?thesis using h1 h2 by auto
qed

lemma service_done_law:
  assumes inv: "hinv h P" and i: "i \<in> set (P DoneReqs)" and w: "\<And>q. 0 \<le> write_ret env q"
  shows "\<exists>h'. kh_service_done be env i h = Inr (0, h') \<and>
    hinv h' (P(DoneReqs := remove1 i (P DoneReqs), AllReqs := remove1 i (P AllReqs))) \<and>
    responses h' = responses h @ [response_of (sr_at h i)] \<and> reg h' = reg h \<and> (\<forall>j. j \<noteq> i \<longrightarrow> sr_at h' j = sr_at h j)"
proof -
  let ?P = "P(DoneReqs := remove1 i (P DoneReqs), AllReqs := remove1 i (P AllReqs))"
  have R: "rings (hheap h) (family P)" using inv by (simp add: hinv_def)
  note it = hinv_item[OF inv in_stages(6) i]
  obtain hp where hp: "andThen (list_del (Some (ListOf i)) (hheap h)) (list_del (Some (GlistOf i))) = Inr hp"
    "alive hp = alive (hheap h)" "rings (free_node (ListOf i) (free_node (GlistOf i) hp)) (family ?P)"
    using unlink_rings[OF R i it(2)] by blast
  obtain sr1 g1 where f: "be_free_mem be (sr_at h i) (gpu h) = Inr (sr1, g1)" and kp: "same_request (sr_at h i) sr1"
    "busy_streams g1 = busy_streams (gpu h)" "streams_ok g1 = streams_ok (gpu h)" using free_mem_law by blast
  let ?h = "h\<lparr>hheap := free_node (ListOf i) (free_node (GlistOf i) hp), sr_at := (sr_at h)(i := sr1),
    gpu := be_free_stream be sr1 g1, responses := responses h @ [response_of (sr_at h i)]\<rparr>"
  have ssc: "safe_syscall (write_ret env q) = Inr (write_ret env q)" for q
    using w[of q] by (simp add: safe_syscall_def)
  obtain hq where hq: "list_del (Some (ListOf i)) (hheap h) = Inr hq" "list_del (Some (GlistOf i)) hq = Inr hp"
    using hp(1) by (auto simp: andThen_eq_Inr)
  have run: "kh_service_done be env i h = Inr (0, ?h)"
    using it(3) hq hinv_alive[OF inv in_stages(6) i] hp(2) f
    by (simp add: kh_service_done_def kh_send_response_def ssc kh_free_service_request_def put_sr_def response_of_def
        Let_def)
  have d: "distinct (P DoneReqs)" "distinct (P AllReqs)"
    using stage_distinct[OF R in_stages(6)] all_distinct[OF R] by auto
  have other: "i \<notin> set (P k)" if "k \<in> stages" "k \<noteq> DoneReqs" for k
    using stage_disjoint[OF R that(1) in_stages(6) that(2)] i by auto
  have P: "set (?P AllReqs) = set (P AllReqs) - {i}" using d(2) by simp
  have st: "\<And>k. k \<in> stages \<Longrightarrow> set (?P k) = set (P k) - {i}" using d(1) other by auto
  have un: "set (?P AllReqs) = (\<Union>k \<in> stages. set (?P k))"
    using inv P st by (auto simp: hinv_def)
  have items: "item_ok k (((sr_at h)(i := sr1)) j)" if "k \<in> stages" "j \<in> set (?P k)" for k j
    using inv that st[OF that(1)] by (auto simp: hinv_def)
  have "hinv ?h ?P"
    using inv hp(3) un items P release_request[OF hinv_streams[OF inv] it(2) kp] unfolding hinv_def by simp
  then show ?thesis using run by (intro exI[of _ ?h]) simp
qed

end

section \<open>Processing a list\<close>

text \<open>
  The rule for \<open>__kh_process_request\<close>: the items of the list that were visited and kept come first, those still
  to visit follow; an operation may remove the item it is given but not touch those that follow. The loop ends.
\<close>

lemma process_rule:
  fixes h :: "'x helper"
  assumes k: "k \<in> stages"
    and ring: "\<And>n kept h P. J n kept h P \<Longrightarrow> rings (hheap h) (family P)"
    and step: "\<And>n kept h P i rest. J n kept h P \<Longrightarrow> P k = kept @ i # rest \<Longrightarrow>
      \<exists>r h' P' kept'. op i h = Inr (r, h') \<and> J (Suc n) kept' h' P' \<and> P' k = kept' @ rest"
    and start: "J 0 [] h P"
  shows "\<exists>r h' P' n kept rest. kh_process_request op k once h = Some (Inr (r, h')) \<and> J n kept h' P' \<and>
    P' k = kept @ rest \<and> (\<not> once \<longrightarrow> rest = []) \<and> (n = 0 \<longrightarrow> P k = [])"
proof -
  define I where
    "I = (\<lambda>ns (st :: int \<times> 'x helper). \<exists>n kept rest P'. ns = map ListOf rest \<and> J n kept (snd st) P' \<and> P' k = kept @ rest \<and> (n = 0 \<longrightarrow> rest = P k))"
  define Q where "Q = (\<lambda>st :: int \<times> 'x helper. \<exists>P' n kept rest. J n kept (snd st) P' \<and>
    P' k = kept @ rest \<and> (\<not> once \<longrightarrow> rest = []) \<and> (n = 0 \<longrightarrow> P k = []))"
  have rk: "ring (hheap h') k (map ListOf (P' k))" if "J n kept h' P'" for n kept h' P'
    using ringsD[OF ring[OF that] family_stage[OF k]] .
  have "\<exists>st. list_for_each_safe (\<lambda>st. hheap (snd st)) (process_body op once) (Some k) (0, h) = Some (Inr st) \<and> Q st"
  proof (rule list_for_each_safe_rule[where I = I and xs = "map ListOf (P k)"])
    fix a ns st assume "I (a # ns) st"
    then obtain n kept i rest P' where I: "a = ListOf i" "ns = map ListOf rest" "J n kept (snd st) P'" "P' k = kept @ i # rest"
      unfolding I_def by (auto simp: Cons_eq_map_conv)
    obtain r h' P'' kept' where o: "op i (snd st) = Inr (r, h')" "J (Suc n) kept' h' P''" "P'' k = kept' @ rest"
      using step[OF I(3,4)] by blast
    have "process_body op once a st = Inr ((r, h'), r = 0 \<and> once)" using I(1) o(1) by (simp add: process_body_def)
    moreover have "if r = 0 \<and> once then Q (r, h') else I ns (r, h')"
      using o(2,3) I(2) unfolding Q_def I_def by auto
    ultimately show "\<exists>s' b. process_body op once a st = Inr (s', b) \<and> (if b then Q s' else I ns s')" by blast
  next
    fix a ns st assume "I (a # ns) st"
    then obtain n kept i rest P' where I: "a = ListOf i" "ns = map ListOf rest" "J n kept (snd st) P'" "P' k = kept @ i # rest"
      unfolding I_def by (auto simp: Cons_eq_map_conv)
    note r = rk[OF I(3), unfolded I(4) ring_def]
    have "chain (hheap (snd st)) (ListOf i # map ListOf rest @ [k])"
      using r chain_append[of "hheap (snd st)" "k # map ListOf kept" "ListOf i" "map ListOf rest @ [k]"] by simp
    then show "a \<noteq> k \<and> get_next (Some a) (hheap (snd st)) = Inr (Some (hd (ns @ [k])))"
      using chain_walk[of "hheap (snd st)" "ListOf i" "map ListOf rest" k] r I(1,2) k by auto
  next
    fix st assume "I [] st"
    then show "Q st \<and> alive (hheap (snd st)) k"
      unfolding I_def Q_def using rk ring_ends(3)[of "hheap (snd st)" k] by fastforce
  next
    show "I (map ListOf (P k)) (0, h)" unfolding I_def using start by auto
    show "ring (hheap (snd (0 :: int, h))) k (map ListOf (P k))" using rk[OF start] by simp
  qed
  then show ?thesis unfolding Q_def kh_process_request_def by auto
qed


text \<open>What a pass over one of the state lists before \<open>done_reqs\<close> leaves unchanged.\<close>

definition same_reqs :: "'x helper \<Rightarrow> pipeline \<Rightarrow> 'x helper \<Rightarrow> pipeline \<Rightarrow> bool" where
  "same_reqs h P h' P' \<longleftrightarrow> P' AllReqs = P AllReqs \<and> responses h' = responses h \<and> reg h' = reg h \<and>
     (\<forall>i. sr_id (sr_at h' i) = sr_id (sr_at h i))"

text \<open>The work left: how many lists the requests have to go through, all together.\<close>

definition work :: "pipeline \<Rightarrow> nat" where
  "work P = (\<Sum>k \<in> stages. rank k * length (P k))"

lemma work_zero: "work P = 0 \<longleftrightarrow> (\<forall>k \<in> stages. P k = [])"
  by (simp add: work_def stages_def rank_def)

lemma moved_work:
  assumes "moved k b i P P'" and "i \<in> set (P k)" and "k \<in> stages"
  shows "work P' \<le> work P \<and> (work P' = work P \<longrightarrow> P' = P \<and> b)"
proof (cases "P' = P \<and> b")
  case False
  then obtain j where j: "j \<in> stages" "rank j < rank k" "P' = P(k := remove1 i (P k), j := P j @ [i])"
    using assms(1) by (auto simp: moved_def split: if_splits)
  have jk: "j \<noteq> k" using j(2) by auto
  have fin: "finite stages" by (simp add: stages_def)
  have split: "work Q = rank k * length (Q k) + (rank j * length (Q j) + (\<Sum>a \<in> stages - {k} - {j}. rank a * length (Q a)))" for Q
    unfolding work_def using fin assms(3) j(1) jk by (simp add: sum.remove[of stages k] sum.remove[of "stages - {k}" j])
  have l: "length (P k) = Suc (length (remove1 i (P k)))" using assms(2) length_pos_if_in_set[OF assms(2)] by (simp add: length_remove1)
  have "(\<Sum>a \<in> stages - {k} - {j}. rank a * length (P' a)) = (\<Sum>a \<in> stages - {k} - {j}. rank a * length (P a))"
    using j(3) by (intro sum.cong) auto
  then have "work P' + rank k = work P + rank j"
    using split[of P] split[of P'] j(3) jk l by (simp add: algebra_simps)
  then show ?thesis using j(2) by linarith
qed simp

lemma moved_away: "rank j < rank k \<Longrightarrow> (P(k := xs, j := ys)) k = xs"
  by auto

text \<open>
  What a pass over a list does: the other lists only grow, and the work gets less unless the pass changes no list and
  the first request of its own was stuck; if all are stuck the pass changes no list.
\<close>

definition pass_ok :: "hnode \<Rightarrow> (nat \<Rightarrow> 'x helper \<Rightarrow> bool) \<Rightarrow> 'x helper \<Rightarrow> pipeline \<Rightarrow> 'x helper \<Rightarrow> pipeline \<Rightarrow> bool" where
  "pass_ok k stuck h P h' P' \<longleftrightarrow> hinv h' P' \<and> same_reqs h P h' P' \<and> (\<forall>a. a \<noteq> k \<longrightarrow> set (P a) \<subseteq> set (P' a)) \<and>
     work P' \<le> work P \<and> (work P' = work P \<longrightarrow> P' = P \<and> (P k \<noteq> [] \<longrightarrow> stuck (hd (P k)) h)) \<and>
     ((\<forall>i h. stuck i h) \<longrightarrow> P' = P)"

lemma stage_pass:
  assumes op: "stage_op k stuck op" and k: "k \<in> stages" and inv: "hinv h P"
  shows "\<exists>r h' P'. kh_process_request op k once h = Some (Inr (r, h')) \<and> pass_ok k stuck h P h' P'"
proof -
  let ?J = "\<lambda>n kept h' P'. hinv h' P' \<and> same_reqs h P h' P' \<and> (\<forall>a. a \<noteq> k \<longrightarrow> set (P a) \<subseteq> set (P' a)) \<and> work P' \<le> work P \<and>
    (work P' = work P \<longrightarrow> P' = P \<and> length kept = n \<and> (if n = 0 then h' = h else stuck (hd (P k)) h)) \<and>
    ((\<forall>i h. stuck i h) \<longrightarrow> P' = P)"
  have "\<exists>r h' P' n kept rest. kh_process_request op k once h = Some (Inr (r, h')) \<and> ?J n kept h' P' \<and> P' k = kept @ rest \<and>
    (\<not> once \<longrightarrow> rest = []) \<and> (n = 0 \<longrightarrow> P k = [])"
  proof (rule process_rule[where J = ?J and P = P, OF k])
    fix n and kept :: "nat list" and h1 P1 i rest assume J: "?J n kept h1 P1" and P1: "P1 k = kept @ i # rest"
    then have i: "i \<in> set (P1 k)" by simp
    then obtain r h2 P2 where s: "op i h1 = Inr (r, h2)" "hinv h2 P2" "step_frame i h1 h2" "moved k (stuck i h1) i P1 P2"
      using op J unfolding stage_op_def by blast
    note w = moved_work[OF s(4) i k]
    have "sr_id (sr_at h2 j) = sr_id (sr_at h1 j)" for j using s(3) by (cases "j = i") (auto simp: step_frame_def)
    moreover have "P2 AllReqs = P1 AllReqs" using s(4) stages_not_all(2)[OF k] by (auto simp: moved_def split: if_splits)
    ultimately have same: "same_reqs h P h2 P2" using J s(3) by (auto simp: same_reqs_def step_frame_def)
    have "distinct (P1 k)" using J stage_distinct[OF _ k] by (auto simp: hinv_def)
    then have "remove1 i (P1 k) = kept @ rest" unfolding P1 by (simp add: remove1_append)
    then have "P2 = P1 \<or> P2 k = kept @ rest" using s(4) by (auto simp: moved_def simp del: fun_upd_apply intro: moved_away split: if_splits)
    then have place: "P2 k = (kept @ [i]) @ rest \<and> P2 = P1 \<or> work P2 < work P1 \<and> P2 k = kept @ rest"
      using P1 w by (auto simp: order_less_le)
    have "set (P1 a) \<subseteq> set (P2 a)" if "a \<noteq> k" for a using s(4) that by (auto simp: moved_def split: if_splits)
    then have grow: "\<forall>a. a \<noteq> k \<longrightarrow> set (P a) \<subseteq> set (P2 a)" using J by blast
    have all: "(\<forall>i h. stuck i h) \<longrightarrow> P2 = P" using s(4) J by (auto simp: moved_def)
    have "n = 0 \<Longrightarrow> work P1 = work P \<Longrightarrow> stuck i h1 \<Longrightarrow> stuck (hd (P k)) h" using J P1 by auto
    then have "?J (Suc n) (kept @ [i]) h2 P2 \<or> work P2 < work P1" using J s(2) same w grow all by (cases "n = 0") auto
    moreover have "?J (Suc n) kept h2 P2" if "work P2 < work P1" using J s(2) same that grow all by auto
    ultimately show "\<exists>r h' P' kept'. op i h1 = Inr (r, h') \<and> ?J (Suc n) kept' h' P' \<and> P' k = kept' @ rest"
      using s(1) place by (metis nat_neq_iff)
  next
    show "?J 0 [] h P" using inv by (simp add: same_reqs_def)
  qed (auto simp: hinv_def)
  then show ?thesis unfolding pass_ok_def by (metis neq0_conv)
qed

context gpu_contract
begin

text \<open>The pass over \<open>done_reqs\<close> answers every request on it, in order, and forgets it.\<close>

lemma done_pass:
  assumes inv: "hinv h P" and w: "\<And>q. 0 \<le> write_ret env q"
  shows "\<exists>r h' P'. kh_process_request (kh_service_done be env) DoneReqs False h = Some (Inr (r, h')) \<and> hinv h' P' \<and>
    P' = P(DoneReqs := [], AllReqs := filter (\<lambda>i. i \<notin> set (P DoneReqs)) (P AllReqs)) \<and>
    responses h' = responses h @ map (response_of \<circ> sr_at h) (P DoneReqs) \<and> reg h' = reg h \<and>
    (\<forall>i. i \<notin> set (P DoneReqs) \<longrightarrow> sr_at h' i = sr_at h i)"
proof -
  let ?J = "\<lambda>(n :: nat) kept h' P'. hinv h' P' \<and> kept = [] \<and> (\<exists>ds. P DoneReqs = ds @ P' DoneReqs \<and>
    P' = P(DoneReqs := P' DoneReqs, AllReqs := filter (\<lambda>i. i \<notin> set ds) (P AllReqs)) \<and>
    responses h' = responses h @ map (response_of \<circ> sr_at h) ds \<and> reg h' = reg h \<and>
    (\<forall>i. i \<notin> set ds \<longrightarrow> sr_at h' i = sr_at h i))"
  have R: "rings (hheap h) (family P)" using inv by (simp add: hinv_def)
  have "\<exists>r h' P' n kept rest. kh_process_request (kh_service_done be env) DoneReqs False h = Some (Inr (r, h')) \<and>
    ?J n kept h' P' \<and> P' DoneReqs = kept @ rest \<and> (\<not> False \<longrightarrow> rest = []) \<and> (n = 0 \<longrightarrow> P DoneReqs = [])"
  proof (rule process_rule[where J = ?J and P = P, OF in_stages(6)])
    fix n and kept :: "nat list" and h1 :: "'x helper" and P1 i rest assume J: "?J n kept h1 P1" and P1: "P1 DoneReqs = kept @ i # rest"
    then obtain ds where ds: "P DoneReqs = ds @ i # rest"
      "P1 = P(DoneReqs := P1 DoneReqs, AllReqs := filter (\<lambda>i. i \<notin> set ds) (P AllReqs))"
      "responses h1 = responses h @ map (response_of \<circ> sr_at h) ds" "reg h1 = reg h"
      "\<forall>i. i \<notin> set ds \<longrightarrow> sr_at h1 i = sr_at h i" and k: "kept = []" by auto
    have i: "i \<in> set (P1 DoneReqs)" using P1 by simp
    have d: "i \<notin> set ds" using stage_distinct[OF R in_stages(6)] ds(1) by auto
    let ?P = "P1(DoneReqs := remove1 i (P1 DoneReqs), AllReqs := remove1 i (P1 AllReqs))"
    obtain h2 where h2: "kh_service_done be env i h1 = Inr (0, h2)" "hinv h2 ?P"
      "responses h2 = responses h1 @ [response_of (sr_at h1 i)]" "reg h2 = reg h1" "\<forall>j. j \<noteq> i \<longrightarrow> sr_at h2 j = sr_at h1 j"
      using service_done_law[of h1 P1 i env] J i w by blast
    have all: "P1 AllReqs = filter (\<lambda>i. i \<notin> set ds) (P AllReqs)" using fun_cong[OF ds(2), of AllReqs] by simp
    have rem: "remove1 i (P1 AllReqs) = filter (\<lambda>j. j \<notin> set (ds @ [i])) (P AllReqs)"
      using all_distinct[OF R] all by (auto simp: distinct_remove1_removeAll removeAll_filter_not_eq intro: filter_cong)
    have "?P = P(DoneReqs := ?P DoneReqs, AllReqs := filter (\<lambda>j. j \<notin> set (ds @ [i])) (P AllReqs))"
      using ds(2) rem by (metis fun_upd_same fun_upd_twist fun_upd_upd)
    moreover have "P DoneReqs = (ds @ [i]) @ ?P DoneReqs" using ds(1) P1 k by simp
    moreover have "responses h2 = responses h @ map (response_of \<circ> sr_at h) (ds @ [i])" "reg h2 = reg h"
      "\<forall>j. j \<notin> set (ds @ [i]) \<longrightarrow> sr_at h2 j = sr_at h j" using ds(3-5) h2 d by auto
    ultimately have "?J (Suc n) [] h2 ?P" using h2(2) by blast
    moreover have "?P DoneReqs = [] @ rest" using P1 k by simp
    ultimately show "\<exists>r h' P' kept'. kh_service_done be env i h1 = Inr (r, h') \<and> ?J (Suc n) kept' h' P' \<and> P' DoneReqs = kept' @ rest"
      using h2(1) by blast
  next
    show "?J 0 [] h P" using inv by (intro conjI exI[of _ "[]"]) simp_all
  qed (auto simp: hinv_def)
  then show ?thesis by force
qed

end

section \<open>Accepting a request\<close>

lemma enter_rings:
  assumes R: "rings hp ((family P)(ListOf i \<mapsto> [], GlistOf i \<mapsto> []))" and i: "i \<notin> set (P AllReqs)"
    and P: "set (P AllReqs) = (\<Union>k \<in> stages. set (P k))" and k: "k \<in> stages"
  shows "\<exists>hp1 hp2. list_add_tail (Some (GlistOf i)) (Some AllReqs) hp = Inr hp1 \<and> alive hp1 = alive hp \<and>
    list_add_tail (Some (ListOf i)) (Some k) hp1 = Inr hp2 \<and>
    rings hp2 (family (P(k := P k @ [i], AllReqs := P AllReqs @ [i])))"
    (is ?direct)
  and "\<exists>hp1 hp2. list_add_tail (Some (GlistOf i)) (Some AllReqs) hp = Inr hp1 \<and> alive hp1 = alive hp \<and>
    andThen (list_del (Some (ListOf i)) hp1) (list_add_tail (Some (ListOf i)) (Some k)) = Inr hp2 \<and>
    rings hp2 (family (P(k := P k @ [i], AllReqs := P AllReqs @ [i])))"
    (is ?fail)
proof -
  let ?Q = "P(AllReqs := P AllReqs @ [i])"
  let ?L = "(family P)(ListOf i \<mapsto> [], GlistOf i \<mapsto> [])"
  have al: "alive hp (ListOf i)" "alive hp (GlistOf i)"
    using rings_alive[OF R] in_nodes[of ?L "ListOf i" "[]"] in_nodes[of ?L "GlistOf i" "[]"] by auto
  have none: "family P (ListOf i) = None" "family P (GlistOf i) = None" by (simp_all add: family_def)
  have L1: "?L(GlistOf i := None) = (family P)(ListOf i \<mapsto> [])" using none by (auto simp: fun_eq_iff)
  have R1: "rings hp ((family P)(ListOf i \<mapsto> []))" using rings_restrict[OF R, of "GlistOf i"] L1 by simp
  have "GlistOf i \<notin> nodes ((family P)(ListOf i \<mapsto> []))"
    using nodes_del[OF R, of "GlistOf i" "[]"] L1 by simp
  then obtain hp1 where hp1: "list_add_tail (Some (GlistOf i)) (Some AllReqs) hp = Inr hp1" "alive hp1 = alive hp"
    "rings hp1 ((family P)(ListOf i \<mapsto> [], AllReqs \<mapsto> map GlistOf (P AllReqs) @ [GlistOf i]))"
    using list_add_tail_rings[OF R1 _ _ al(2), of AllReqs] by (auto simp: family_all)
  have "(family P)(ListOf i \<mapsto> [], AllReqs \<mapsto> map GlistOf (P AllReqs) @ [GlistOf i]) = (family ?Q)(ListOf i \<mapsto> [])"
    by (auto simp: family_upd_all fun_eq_iff)
  then have R2: "rings hp1 ((family ?Q)(ListOf i \<mapsto> []))" using hp1(3) by simp
  have Qk: "((family ?Q)(ListOf i \<mapsto> [])) k = Some (map ListOf (P k))"
    using k by (auto simp: family_stage)
  have Qk': "family ?Q k = Some (map ListOf (P k))" using k by (auto simp: family_stage)
  have self: "((family ?Q)(ListOf i \<mapsto> [])) (ListOf i) = Some []" and kn: "k \<noteq> ListOf i" using k by auto
  have noneQ: "(family ?Q)(ListOf i \<mapsto> [], ListOf i := None) = family ?Q" by (auto simp: family_def fun_eq_iff)
  have goal: "(family ?Q)(k \<mapsto> map ListOf (P k) @ [ListOf i]) = family (P(k := P k @ [i], AllReqs := P AllReqs @ [i]))"
    using k family_upd[OF k, of ?Q "P k @ [i]"] by (simp add: fun_upd_twist)
  have n: "ListOf i \<notin> nodes (family ?Q)" using nodes_del[OF R2, of "ListOf i" "[]"] noneQ by simp
  have R3: "rings hp1 (family ?Q)" using rings_restrict[OF R2, of "ListOf i"] noneQ by simp
  show ?direct
    using list_add_tail_rings[OF R3 Qk' n] al(1) hp1 goal by (auto simp del: fun_upd_apply)
  show ?fail
    using list_h.enqueue_detached[OF R2 self Qk kn, unfolded noneQ goal] hp1 by blast
qed


text \<open>What \<open>malloc\<close> promises: it returns an address at which nothing is allocated.\<close>

definition fresh_addr :: "hnode list_heap \<Rightarrow> nat \<Rightarrow> bool" where
  "fresh_addr hp i \<longleftrightarrow> \<not> alive hp (ListOf i) \<and> \<not> alive hp (GlistOf i)"

lemma fresh_not_queued:
  assumes "hinv h P" and "fresh_addr (hheap h) i"
  shows "i \<notin> set (P AllReqs)" and "ListOf i \<notin> nodes (family P)" and "GlistOf i \<notin> nodes (family P)"
proof -
  have R: "rings (hheap h) (family P)" using assms(1) by (simp add: hinv_def)
  show n: "ListOf i \<notin> nodes (family P)" "GlistOf i \<notin> nodes (family P)"
    using rings_alive[OF R] assms(2) by (auto simp: fresh_addr_def)
  then show "i \<notin> set (P AllReqs)" unfolding in_family_nodes by simp
qed

lemma alloc_law:
  assumes inv: "hinv h P" and fr: "fresh_addr (hheap h) i"
  shows "\<exists>hp. kh_alloc_service_request (Some i) h = Inr (Some i, put_sr i zero_sr (h\<lparr>hheap := hp\<rparr>)) \<and>
    rings hp ((family P)(ListOf i \<mapsto> [], GlistOf i \<mapsto> []))"
proof -
  let ?hp = "alloc_node (ListOf i) (alloc_node (GlistOf i) (hheap h))"
  note fresh = fresh_not_queued[OF assms]
  have R: "rings ?hp (family P)" using inv by (auto simp: hinv_def intro!: alloc_node_rings)
  obtain h1 where h1: "INIT_LIST_HEAD (Some (ListOf i)) ?hp = Inr h1" "rings h1 ((family P)(ListOf i \<mapsto> []))"
    "alive h1 = alive ?hp"
    using init_list_head_rings[OF R fresh(2)] by (auto simp: alloc_node_def)
  have "GlistOf i \<notin> nodes ((family P)(ListOf i \<mapsto> []))"
    using fresh(3) nodes_upd[of "family P" "ListOf i" "[]"] by (auto simp: nodes_def split: if_splits)
  then obtain h2 where h2: "INIT_LIST_HEAD (Some (GlistOf i)) h1 = Inr h2"
    "rings h2 ((family P)(ListOf i \<mapsto> [], GlistOf i \<mapsto> []))"
    using init_list_head_rings[OF h1(2), of "GlistOf i"] h1(3) by (auto simp: alloc_node_def)
  have "kh_alloc_service_request (Some i) h = Inr (Some i, put_sr i zero_sr (h\<lparr>hheap := h2\<rparr>))"
    using h1(1) h2(1) by (simp add: kh_alloc_service_request_def put_sr_def Let_def)
  then show ?thesis using h2(2) by blast
qed

lemma hinv_enter:
  assumes inv: "hinv h P" and i: "i \<notin> set (P AllReqs)" and k: "k \<in> stages"
    and R: "rings hp (family (P(k := P k @ [i], AllReqs := P AllReqs @ [i])))"
    and ok: "item_ok k sr" and s: "stream_id sr = - 1"
  shows "hinv (put_sr i sr (h\<lparr>hheap := hp\<rparr>)) (P(k := P k @ [i], AllReqs := P AllReqs @ [i]))"
proof -
  let ?P = "P(k := P k @ [i], AllReqs := P AllReqs @ [i])"
  have un: "set (P AllReqs) = (\<Union>k \<in> stages. set (P k))" using inv by (simp add: hinv_def)
  have kn: "k \<noteq> AllReqs" using k by auto
  have sub: "set (?P a) = (if a = k then insert i (set (P a)) else set (P a))" if "a \<in> stages" for a using that by auto
  have "(\<Union>a \<in> stages. set (?P a)) = insert i (\<Union>a \<in> stages. set (P a))" using sub k by auto
  then have U: "set (?P AllReqs) = (\<Union>a \<in> stages. set (?P a))" using un by simp
  have "item_ok a (((sr_at h)(i := sr)) b)" if a: "a \<in> stages" "b \<in> set (?P a)" for a b
  proof (cases "b = i")
    case True
    then have "a = k" using a un i sub[OF a(1)] by (auto split: if_splits)
    then show ?thesis using ok True by simp
  next
    case False
    then have "b \<in> set (P a)" using a sub[OF a(1)] by (auto split: if_splits)
    then show ?thesis using inv a(1) False by (simp add: hinv_def)
  qed
  moreover have "holders ((sr_at h)(i := sr)) (set (?P AllReqs)) = holders (sr_at h) (set (P AllReqs))"
    using s i by (auto simp: holders_def)
  then have "streams_inv (gpu h) ((sr_at h)(i := sr)) (set (?P AllReqs))"
    using hinv_streams[OF inv] i unfolding streams_inv_def by (auto simp: holders_def inj_on_def image_def)
  ultimately show ?thesis using inv R U unfolding hinv_def by simp
qed

text \<open>
  A new request is put on \<open>init_reqs\<close>, or on \<open>done_reqs\<close> with \<open>KGPU_NO_SERVICE\<close> when no service has its name.
\<close>

definition entry_list :: "nat option \<Rightarrow> hnode" where
  "entry_list s = (case s of None \<Rightarrow> DoneReqs | Some _ \<Rightarrow> InitReqs)"

lemma init_law:
  assumes inv: "hinv h P" and i: "i \<notin> set (P AllReqs)"
    and R: "rings hp ((family P)(ListOf i \<mapsto> [], GlistOf i \<mapsto> []))"
    and l: "kh_lookup_service (Some (ku_service_name q)) (reg h) = Some (Inr s)"
  shows "\<exists>hp' sr. kh_init_service_request i q (put_sr i zero_sr (h\<lparr>hheap := hp\<rparr>)) =
      Some (Inr (put_sr i sr (h\<lparr>hheap := hp'\<rparr>))) \<and>
    hinv (put_sr i sr (h\<lparr>hheap := hp'\<rparr>)) (P(entry_list s := P (entry_list s) @ [i], AllReqs := P AllReqs @ [i])) \<and>
    sr_id sr = ku_id q \<and> errcode sr = (if s = None then KGPU_NO_SERVICE else 0)"
proof -
  let ?sr = "zero_sr\<lparr>sr_id := ku_id q, hin := ku_in q, hout := ku_out q, hdata := ku_data q,
            insize := ku_insize q, outsize := ku_outsize q, datasize := ku_datasize q, stream_id := - 1, sr_s := s\<rparr>"
  have un: "set (P AllReqs) = (\<Union>k \<in> stages. set (P k))" using inv by (simp add: hinv_def)
  have al: "alive hp (ListOf i)"
    using rings_alive[OF R] in_nodes[of "(family P)(ListOf i \<mapsto> [], GlistOf i \<mapsto> [])" "ListOf i" "[]"] by simp
  show ?thesis
  proof (cases s)
    case None
    let ?s = "?sr\<lparr>sr_state := KGPU_REQ_DONE, errcode := KGPU_NO_SERVICE\<rparr>"
    obtain hp1 hp2 where hp: "list_add_tail (Some (GlistOf i)) (Some AllReqs) hp = Inr hp1" "alive hp1 = alive hp"
      "andThen (list_del (Some (ListOf i)) hp1) (list_add_tail (Some (ListOf i)) (Some DoneReqs)) = Inr hp2"
      "rings hp2 (family (P(DoneReqs := P DoneReqs @ [i], AllReqs := P AllReqs @ [i])))"
      using enter_rings(2)[OF R i un in_stages(6)] by blast
    have "kh_init_service_request i q (put_sr i zero_sr (h\<lparr>hheap := hp\<rparr>)) = Some (Inr (put_sr i ?s (h\<lparr>hheap := hp2\<rparr>)))"
      using hp(1-3) al l None
      by (simp add: kh_init_service_request_def kh_fail_request_def get_sr_def move_to_def Let_def put_sr_def)
    moreover have "item_ok DoneReqs ?s" by (simp add: item_ok_def state_of_def)
    ultimately show ?thesis
      using None hinv_enter[OF inv i in_stages(6) hp(4)] by (intro exI[of _ hp2] exI[of _ ?s]) (simp add: entry_list_def)
  next
    case (Some sv)
    let ?s1 = "snd (compute_size (service_at (reg h) sv) ?sr)"
    let ?s = "?s1\<lparr>sr_state := KGPU_REQ_INIT, errcode := 0\<rparr>"
    have kp: "sr_id ?s1 = ku_id q \<and> sr_s ?s1 = s \<and> stream_id ?s1 = - 1"
      using service_plugin.keeps(1)[OF hinv_plugin[OF inv], of sv ?sr "fst (compute_size (service_at (reg h) sv) ?sr)" ?s1]
      by simp
    obtain hp1 hp2 where hp: "list_add_tail (Some (GlistOf i)) (Some AllReqs) hp = Inr hp1"
      "list_add_tail (Some (ListOf i)) (Some InitReqs) hp1 = Inr hp2"
      "rings hp2 (family (P(InitReqs := P InitReqs @ [i], AllReqs := P AllReqs @ [i])))"
      using enter_rings(1)[OF R i un in_stages(1)] by blast
    have "kh_init_service_request i q (put_sr i zero_sr (h\<lparr>hheap := hp\<rparr>)) = Some (Inr (put_sr i ?s (h\<lparr>hheap := hp2\<rparr>)))"
      using hp(1,2) l Some by (simp add: kh_init_service_request_def Let_def put_sr_def)
    moreover have "item_ok InitReqs ?s" using kp Some by (simp add: item_ok_def state_of_def)
    ultimately show ?thesis
      using Some kp hinv_enter[OF inv i in_stages(1) hp(3), of ?s]
      by (intro exI[of _ hp2] exI[of _ ?s]) (simp add: entry_list_def)
  qed
qed


text \<open>
  An environment in which the helper does not abort: writes succeed, \<open>poll\<close> that reports input reports one
  descriptor, \<open>read\<close> fails only with \<open>EAGAIN\<close>, and \<open>malloc\<close> keeps its promise (it may fail).
\<close>

definition env_ok :: "round_env \<Rightarrow> bool" where
  "env_ok env \<longleftrightarrow> (\<forall>q. 0 \<le> write_ret env q) \<and> (\<forall>b. poll_in env \<longrightarrow> poll_ret env b \<in> {0, 1}) \<and>
     (0 \<le> read_ret env \<or> read_errno env = EAGAIN) \<and> (\<forall>hp i. malloc_ret env hp = Some i \<longrightarrow> fresh_addr hp i)"

lemma env_ok_write: "env_ok env \<Longrightarrow> 0 \<le> write_ret env q"
  by (simp add: env_ok_def)

text \<open>When the helper accepts a request; \<open>idle\<close> tells whether \<open>all_reqs\<close> is empty.\<close>

definition accepts :: "round_env \<Rightarrow> bool \<Rightarrow> hnode list_heap \<Rightarrow> bool" where
  "accepts env idle hp \<longleftrightarrow> poll_in env \<and> poll_ret env idle = 1 \<and> malloc_ret env hp \<noteq> None \<and> 0 < read_ret env"

lemma discard_law:
  assumes inv: "hinv h P" and i: "i \<notin> set (P AllReqs)" and R: "rings hp ((family P)(ListOf i \<mapsto> [], GlistOf i \<mapsto> []))"
  shows "\<exists>hp'. kh_free_service_request i (put_sr i zero_sr (h\<lparr>hheap := hp\<rparr>)) = Inr (put_sr i zero_sr (h\<lparr>hheap := hp'\<rparr>)) \<and>
    hinv (put_sr i zero_sr (h\<lparr>hheap := hp'\<rparr>)) P"
proof -
  let ?L = "(family P)(ListOf i \<mapsto> [], GlistOf i \<mapsto> [])"
  let ?hp = "free_node (ListOf i) (free_node (GlistOf i) hp)"
  have al: "alive hp (ListOf i)" using rings_alive[OF R] in_nodes[of ?L "ListOf i" "[]"] by simp
  have un: "set (P AllReqs) = (\<Union>k \<in> stages. set (P k))" using inv by (simp add: hinv_def)
  have "?L(GlistOf i := None, ListOf i := None) = family P" by (auto simp: family_def fun_eq_iff)
  then have "rings hp (family P)" using rings_restrict[OF rings_restrict[OF R, of "GlistOf i"], of "ListOf i"] by simp
  moreover have "ListOf i \<notin> nodes (family P)" "GlistOf i \<notin> nodes (family P)"
    using i un unfolding in_family_nodes by auto
  ultimately have "rings ?hp (family P)" by (intro free_node_rings)
  moreover have "item_ok k (((sr_at h)(i := zero_sr)) j)" if "k \<in> stages" "j \<in> set (P k)" for k j
    using inv that i un by (auto simp: hinv_def)
  moreover have "streams_inv (gpu h) ((sr_at h)(i := zero_sr)) (set (P AllReqs))"
    using hinv_streams[OF inv] i unfolding streams_inv_def by (auto simp: holders_def inj_on_def image_def)
  ultimately have "hinv (put_sr i zero_sr (h\<lparr>hheap := ?hp\<rparr>)) P" using inv unfolding hinv_def by simp
  then show ?thesis using al by (intro exI[of _ ?hp]) (simp add: kh_free_service_request_def put_sr_def)
qed

text \<open>Polling and reading one request: what is accepted, and that nothing else changes.\<close>

definition entered :: "round_env \<Rightarrow> 'x helper \<Rightarrow> pipeline \<Rightarrow> 'x helper \<Rightarrow> pipeline \<Rightarrow> nat \<Rightarrow> bool" where
  "entered env h P h' P' i \<longleftrightarrow> i \<notin> set (P AllReqs) \<and> (\<exists>s. kh_lookup_service (Some (ku_service_name (read_req env))) (reg h) = Some (Inr s) \<and>
     P' = P(entry_list s := P (entry_list s) @ [i], AllReqs := P AllReqs @ [i]) \<and>
     sr_id (sr_at h' i) = ku_id (read_req env) \<and> errcode (sr_at h' i) = (if s = None then KGPU_NO_SERVICE else 0))"

lemma get_next_retry:
  assumes inv: "hinv h P" and fr: "fresh_addr (hheap h) i" and le: "list_empty (Some AllReqs) (hheap h) = Inr (P AllReqs = [])"
    and got: "poll_ret env (P AllReqs = []) = 1" "poll_in env" "malloc_ret env (hheap h) = Some i"
    and rd: "read_ret env \<le> 0" "read_errno env = EAGAIN \<or> read_ret env = 0"
  shows "\<exists>hp. kh_get_next_service_request env h = Some (Inr (- 1, put_sr i zero_sr (h\<lparr>hheap := hp\<rparr>))) \<and>
    hinv (put_sr i zero_sr (h\<lparr>hheap := hp\<rparr>)) P"
proof -
  note i = fresh_not_queued(1)[OF inv fr]
  obtain hp where hp: "kh_alloc_service_request (Some i) h = Inr (Some i, put_sr i zero_sr (h\<lparr>hheap := hp\<rparr>))"
    "rings hp ((family P)(ListOf i \<mapsto> [], GlistOf i \<mapsto> []))" using alloc_law[OF inv fr] by blast
  obtain hp' where hp': "kh_free_service_request i (put_sr i zero_sr (h\<lparr>hheap := hp\<rparr>)) = Inr (put_sr i zero_sr (h\<lparr>hheap := hp'\<rparr>))"
    "hinv (put_sr i zero_sr (h\<lparr>hheap := hp'\<rparr>)) P" using discard_law[OF inv i hp(2)] by blast
  have "kh_get_next_service_request env h = Some (Inr (- 1, put_sr i zero_sr (h\<lparr>hheap := hp'\<rparr>)))"
    using le got rd hp(1) hp'(1) by (simp add: kh_get_next_service_request_def Let_def)
  then show ?thesis using hp'(2) by blast
qed

lemma get_next_enters:
  assumes inv: "hinv h P" and fr: "fresh_addr (hheap h) i" and le: "list_empty (Some AllReqs) (hheap h) = Inr (P AllReqs = [])"
    and got: "poll_ret env (P AllReqs = []) = 1" "poll_in env" "malloc_ret env (hheap h) = Some i" "0 < read_ret env"
    and s: "kh_lookup_service (Some (ku_service_name (read_req env))) (reg h) = Some (Inr s)"
  shows "\<exists>hp sr P'. kh_get_next_service_request env h = Some (Inr (0, put_sr i sr (h\<lparr>hheap := hp\<rparr>))) \<and>
    hinv (put_sr i sr (h\<lparr>hheap := hp\<rparr>)) P' \<and> entered env h P (put_sr i sr (h\<lparr>hheap := hp\<rparr>)) P' i"
proof -
  note i = fresh_not_queued(1)[OF inv fr]
  obtain hp where hp: "kh_alloc_service_request (Some i) h = Inr (Some i, put_sr i zero_sr (h\<lparr>hheap := hp\<rparr>))"
    "rings hp ((family P)(ListOf i \<mapsto> [], GlistOf i \<mapsto> []))" using alloc_law[OF inv fr] by blast
  let ?P = "P(entry_list s := P (entry_list s) @ [i], AllReqs := P AllReqs @ [i])"
  obtain hp' sr where n: "kh_init_service_request i (read_req env) (put_sr i zero_sr (h\<lparr>hheap := hp\<rparr>)) =
      Some (Inr (put_sr i sr (h\<lparr>hheap := hp'\<rparr>)))" "hinv (put_sr i sr (h\<lparr>hheap := hp'\<rparr>)) ?P"
    "sr_id sr = ku_id (read_req env)" "errcode sr = (if s = None then KGPU_NO_SERVICE else 0)"
    using init_law[OF inv i hp(2) s] by blast
  have "kh_get_next_service_request env h = Some (Inr (0, put_sr i sr (h\<lparr>hheap := hp'\<rparr>)))"
    using le got hp(1) n(1) by (simp add: kh_get_next_service_request_def Let_def)
  moreover have "entered env h P (put_sr i sr (h\<lparr>hheap := hp'\<rparr>)) ?P i" unfolding entered_def using i s n(3,4) by auto
  ultimately show ?thesis using n(2) by blast
qed

lemma get_next_law:
  assumes inv: "hinv h P" and env: "env_ok env"
  shows "\<exists>r h' P'. kh_get_next_service_request env h = Some (Inr (r, h')) \<and> hinv h' P' \<and> responses h' = responses h \<and>
    reg h' = reg h \<and> (\<forall>j \<in> set (P AllReqs). sr_at h' j = sr_at h j) \<and>
    (if accepts env (P AllReqs = []) (hheap h) then \<exists>i. entered env h P h' P' i else P' = P)"
proof -
  have R: "rings (hheap h) (family P)" using inv by (simp add: hinv_def)
  have le: "list_empty (Some AllReqs) (hheap h) = Inr (P AllReqs = [])"
    using list_empty_rings[OF R family_all] by simp
  obtain xs where xs: "registered (reg h) xs" using inv by (auto simp: hinv_def)
  obtain s where s: "kh_lookup_service (Some (ku_service_name (read_req env))) (reg h) = Some (Inr s)"
    using registry.lookup_ends[OF xs] by blast
  let ?e = "poll_ret env (P AllReqs = [])"
  have e: "\<not> poll_in env \<or> ?e = 0 \<or> ?e = 1" using env by (auto simp: env_ok_def)
  have rd: "0 < read_ret env \<or> read_ret env \<le> 0 \<and> (read_errno env = EAGAIN \<or> read_ret env = 0)"
    using env unfolding env_ok_def by linarith
  consider (none) "?e = 0 \<or> \<not> poll_in env" | (nomem) "?e = 1" "poll_in env" "malloc_ret env (hheap h) = None"
    | (again) i where "?e = 1" "poll_in env" "malloc_ret env (hheap h) = Some i" "read_ret env \<le> 0"
        "read_errno env = EAGAIN \<or> read_ret env = 0"
    | (got) i where "?e = 1" "poll_in env" "malloc_ret env (hheap h) = Some i" "0 < read_ret env"
    using e rd by (cases "malloc_ret env (hheap h)") blast+
  then show ?thesis
  proof cases
    case none
    then have "kh_get_next_service_request env h = Some (Inr (- 1, h))"
      using le by (auto simp: kh_get_next_service_request_def Let_def)
    then show ?thesis using none inv by (auto simp: accepts_def)
  next
    case nomem
    then have "kh_get_next_service_request env h = Some (Inr (- 1, h))"
      using le by (simp add: kh_get_next_service_request_def kh_alloc_service_request_def Let_def)
    then show ?thesis using nomem inv by (auto simp: accepts_def)
  next
    case (again i)
    have fr: "fresh_addr (hheap h) i" using again env by (simp add: env_ok_def)
    obtain hp where "kh_get_next_service_request env h = Some (Inr (- 1, put_sr i zero_sr (h\<lparr>hheap := hp\<rparr>)))"
      "hinv (put_sr i zero_sr (h\<lparr>hheap := hp\<rparr>)) P" using get_next_retry[OF inv fr le again] by blast
    then show ?thesis using again fresh_not_queued(1)[OF inv fr] by (auto simp: accepts_def)
  next
    case (got i)
    have fr: "fresh_addr (hheap h) i" using got env by (simp add: env_ok_def)
    obtain hp sr P' where n: "kh_get_next_service_request env h = Some (Inr (0, put_sr i sr (h\<lparr>hheap := hp\<rparr>)))"
      "hinv (put_sr i sr (h\<lparr>hheap := hp\<rparr>)) P'" "entered env h P (put_sr i sr (h\<lparr>hheap := hp\<rparr>)) P' i"
      using get_next_enters[OF inv fr le got s] by blast
    have acc: "accepts env (P AllReqs = []) (hheap h)" using got by (simp add: accepts_def)
    have "\<forall>j \<in> set (P AllReqs). sr_at (put_sr i sr (h\<lparr>hheap := hp\<rparr>)) j = sr_at h j"
      using fresh_not_queued(1)[OF inv fr] by auto
    then show ?thesis
      using n acc by (intro exI[of _ 0] exI[of _ "put_sr i sr (h\<lparr>hheap := hp\<rparr>)"] exI[of _ P']) auto
  qed
qed

end
