(* ===== verification/Cuda.thy ===== *)
theory Cuda
  imports Helper
begin

text \<open>
  The CUDA back end of the helper (\<^verbatim>\<open>kgpu/src/gpuSpace/cudaOperations.cu\<close> and \<^verbatim>\<open>gpuSpace/gputils.h\<close>). What the CUDA
  runtime answers is a parameter; every call goes through \<open>csc\<close>, which aborts the helper on an error. The theory
  shows that the back end keeps the helper's contract as long as no call fails, that pinning and unpinning a request's
  buffers cancel out, and where the OpenCL port agrees with it.
\<close>

section \<open>State and runtime\<close>

text \<open>
  \<open>host_regs\<close> are the ranges the helper has registered with \<open>cudaHostRegister\<close> and not yet unregistered, \<open>dev_allocs\<close>
  its allocations of device memory, \<open>copies\<close> the copies it has queued (destination, source, size, stream).
\<close>

record cuda_state = gpu_common +
  devbuf :: ulong
  devbuf4vma :: ulong
  host_regs :: "(ulong \<times> ulong) list"
  dev_allocs :: "ulong list"
  copies :: "(ulong \<times> ulong \<times> ulong \<times> ulong) list"

record cuda_driver =
  cudaErrorNotReady :: int
  cudaMalloc :: "ulong list \<Rightarrow> ulong \<Rightarrow> int \<times> ulong"
  cudaFree :: "ulong list \<Rightarrow> ulong \<Rightarrow> int"
  cudaStreamCreate :: "nat \<Rightarrow> int \<times> ulong"
  cudaStreamDestroy :: "ulong \<Rightarrow> int"
  cudaHostAlloc :: "ulong \<Rightarrow> int \<times> ulong"
  cudaFreeHost :: "ulong \<Rightarrow> int"
  cudaHostRegister :: "(ulong \<times> ulong) list \<Rightarrow> ulong \<Rightarrow> ulong \<Rightarrow> int"
  cudaHostUnregister :: "(ulong \<times> ulong) list \<Rightarrow> ulong \<Rightarrow> int"
  cudaStreamQuery :: "ulong \<Rightarrow> int"
  cudaMemcpyAsync :: "ulong \<Rightarrow> ulong \<Rightarrow> ulong \<Rightarrow> ulong \<Rightarrow> int"

definition cudaSuccess :: int where "cudaSuccess = 0"

definition cuda_safe_call :: "int \<Rightarrow> fault + int" where
  "cuda_safe_call e = (if e \<noteq> cudaSuccess then Inl Aborted else Inr e)"

definition alloc_dev_mem :: "cuda_driver \<Rightarrow> ulong \<Rightarrow> cuda_state \<Rightarrow> fault + (ulong \<times> cuda_state)" where
  "alloc_dev_mem drv sz gs =
     (let (e, p) = cudaMalloc drv (dev_allocs gs) sz in
      andThen (cuda_safe_call e) (\<lambda>_. Inr (p, gs\<lparr>dev_allocs := p # dev_allocs gs\<rparr>)))"

definition free_dev_mem :: "cuda_driver \<Rightarrow> ulong \<Rightarrow> cuda_state \<Rightarrow> fault + cuda_state" where
  "free_dev_mem drv p gs =
     andThen (cuda_safe_call (cudaFree drv (dev_allocs gs) p)) (\<lambda>_. Inr (gs\<lparr>dev_allocs := remove1 p (dev_allocs gs)\<rparr>))"

section \<open>Set-up and release\<close>

fun create_streams :: "cuda_driver \<Rightarrow> nat \<Rightarrow> nat \<Rightarrow> cuda_state \<Rightarrow> fault + cuda_state" where
  "create_streams drv i 0 gs = Inr gs"
| "create_streams drv i (Suc k) gs =
     (let (e, s) = cudaStreamCreate drv i in
      andThen (cuda_safe_call e) (\<lambda>_.
      create_streams drv (Suc i) k (gs\<lparr>streams := (streams gs)[i := s], streamuses := (streamuses gs)[i := 0]\<rparr>)))"

definition cuda_gpu_init :: "cuda_driver \<Rightarrow> cuda_state \<Rightarrow> fault + cuda_state" where
  "cuda_gpu_init drv gs =
     andThen (alloc_dev_mem drv KGPU_BUF_SIZE gs) (\<lambda>(p, gs1).
     andThen (alloc_dev_mem drv KGPU_BUF_SIZE (gs1\<lparr>devbuf := p\<rparr>)) (\<lambda>(q, gs2).
     create_streams drv 0 MAX_STREAM_NR (gs2\<lparr>devbuf4vma := q\<rparr>)))"

fun destroy_streams :: "cuda_driver \<Rightarrow> nat \<Rightarrow> nat \<Rightarrow> cuda_state \<Rightarrow> fault + cuda_state" where
  "destroy_streams drv i 0 gs = Inr gs"
| "destroy_streams drv i (Suc k) gs =
     andThen (cuda_safe_call (cudaStreamDestroy drv (streams gs ! i))) (\<lambda>_. destroy_streams drv (Suc i) k gs)"

definition cuda_gpu_finit :: "cuda_driver \<Rightarrow> cuda_state \<Rightarrow> fault + cuda_state" where
  "cuda_gpu_finit drv gs =
     andThen (free_dev_mem drv (devbuf gs) gs) (\<lambda>gs1.
     andThen (free_dev_mem drv (devbuf4vma gs1) gs1) (\<lambda>gs2.
     destroy_streams drv 0 MAX_STREAM_NR gs2))"

definition cuda_get_stream :: "int \<Rightarrow> cuda_state \<Rightarrow> ulong" where
  "cuda_get_stream stid gs = (if stid < 0 \<or> stid \<ge> int MAX_STREAM_NR then 0 else streams gs ! nat stid)"

definition cuda_alloc_pinned_mem :: "cuda_driver \<Rightarrow> ulong \<Rightarrow> fault + ulong" where
  "cuda_alloc_pinned_mem drv sz = (let (e, h) = cudaHostAlloc drv sz in andThen (cuda_safe_call e) (\<lambda>_. Inr h))"

definition cuda_free_pinned_mem :: "cuda_driver \<Rightarrow> ulong \<Rightarrow> fault + unit" where
  "cuda_free_pinned_mem drv p = andThen (cuda_safe_call (cudaFreeHost drv p)) (\<lambda>_. Inr ())"

definition cuda_pin_mem :: "cuda_driver \<Rightarrow> ulong \<Rightarrow> ulong \<Rightarrow> cuda_state \<Rightarrow> fault + cuda_state" where
  "cuda_pin_mem drv p sz gs =
     (let rsz = round_up sz PAGE_SIZE in
      andThen (cuda_safe_call (cudaHostRegister drv (host_regs gs) p rsz)) (\<lambda>_.
      Inr (gs\<lparr>host_regs := (p, rsz) # host_regs gs\<rparr>)))"

text \<open>Unregistering names only the address; the first range that starts there is the one registered last.\<close>

fun forget :: "ulong \<Rightarrow> (ulong \<times> ulong) list \<Rightarrow> (ulong \<times> ulong) list" where
  "forget p [] = []"
| "forget p (r # rs) = (if fst r = p then rs else r # forget p rs)"

definition cuda_unpin_mem :: "cuda_driver \<Rightarrow> ulong \<Rightarrow> cuda_state \<Rightarrow> fault + cuda_state" where
  "cuda_unpin_mem drv p gs =
     andThen (cuda_safe_call (cudaHostUnregister drv (host_regs gs) p)) (\<lambda>_.
     Inr (gs\<lparr>host_regs := forget p (host_regs gs)\<rparr>))"

definition cuda_check_stream_done :: "cuda_driver \<Rightarrow> ulong \<Rightarrow> fault + int" where
  "cuda_check_stream_done drv s =
     (let e = cudaStreamQuery drv s in
      if e = cudaSuccess then Inr 1
      else if e \<noteq> cudaErrorNotReady drv then andThen (cuda_safe_call e) (\<lambda>_. Inr 0)
      else Inr 0)"

definition cuda_execution_finished :: "cuda_driver \<Rightarrow> kgpu_service_request \<Rightarrow> cuda_state \<Rightarrow> fault + int" where
  "cuda_execution_finished drv sreq gs = cuda_check_stream_done drv (cuda_get_stream (stream_id sreq) gs)"

definition cuda_post_finished :: "cuda_driver \<Rightarrow> kgpu_service_request \<Rightarrow> cuda_state \<Rightarrow> fault + int" where
  "cuda_post_finished drv sreq gs = cuda_check_stream_done drv (cuda_get_stream (stream_id sreq) gs)"

section \<open>Ranges to pin\<close>

text \<open>\<open>__merge_2ranges\<close> writes through its last two arguments, here the previous contents \<open>old\<close>, when it merges.\<close>

definition cuda_merge_2ranges :: "ulong \<Rightarrow> ulong \<Rightarrow> ulong \<Rightarrow> ulong \<Rightarrow> ulong \<times> ulong \<Rightarrow> int \<times> ulong \<times> ulong" where
  "cuda_merge_2ranges r1 s1 r2 s2 old =
     (if r1 < r2 then
        if r1 + s1 \<ge> r2 then (1, r1, max (r1 + s1) (r2 + s2) - r1) else (0, old)
      else if r1 = r2 then (1, r1, max s1 s2)
      else if r2 + s2 \<ge> r1 then (1, r2, max (r1 + s1) (r2 + s2) - r2) else (0, old))"

text \<open>The call \<open>__merge_2ranges(ad[i], sz[i], ad[j], sz[j], &ad[k], &sz[k])\<close>.\<close>

definition merge_at :: "nat \<Rightarrow> nat \<Rightarrow> nat \<Rightarrow> ulong list \<times> ulong list \<Rightarrow> int \<times> ulong list \<times> ulong list" where
  "merge_at i j k a =
     (let (ad, sz) = a;
          (r, e, s) = cuda_merge_2ranges (ad ! i) (sz ! i) (ad ! j) (sz ! j) (ad ! k, sz ! k) in
      (r, ad[k := e], sz[k := s]))"

fun round_ranges :: "nat \<Rightarrow> nat \<Rightarrow> ulong list \<times> ulong list \<Rightarrow> ulong list \<times> ulong list" where
  "round_ranges i 0 a = a"
| "round_ranges i (Suc k) (ad, sz) =
     round_ranges (Suc i) k (ad[i := round_down (ad ! i) PAGE_SIZE], sz[i := round_up (sz ! i) PAGE_SIZE])"

definition cuda_merge_ranges :: "ulong list \<Rightarrow> ulong list \<Rightarrow> nat \<Rightarrow> nat \<times> ulong list \<times> ulong list" where
  "cuda_merge_ranges ad0 sz0 n =
     (let a = round_ranges 0 n (ad0, sz0) in
      if n = 0 then (0, a)
      else if n = 1 then (1, a)
      else if n = 2 then (let (r, a1) = merge_at 0 1 0 a in if r \<noteq> 0 then (1, a1) else (2, a1))
      else if n = 3 then
        let (r, a1) = merge_at 0 1 0 a in
        if r \<noteq> 0 then
          let (r, a2) = merge_at 0 2 0 a1 in
          if r \<noteq> 0 then (1, a2)
          else (2, (fst a2)[1 := fst a2 ! 2], (snd a2)[1 := snd a2 ! 2])
        else
          let (r, a2) = merge_at 0 2 0 a1 in
          if r \<noteq> 0 then (let (r, a3) = merge_at 0 1 0 a2 in if r \<noteq> 0 then (1, a3) else (2, a3))
          else
            let (r, a3) = merge_at 2 1 1 a2 in
            if r \<noteq> 0 then (let (r, a4) = merge_at 0 1 0 a3 in if r \<noteq> 0 then (1, a4) else (2, a4))
            else (3, a3)
      else (0, a))"

section \<open>Device memory of a request\<close>

fun pin_all :: "cuda_driver \<Rightarrow> ulong list \<Rightarrow> ulong list \<Rightarrow> nat \<Rightarrow> nat \<Rightarrow> cuda_state \<Rightarrow> fault + cuda_state" where
  "pin_all drv ad sz i 0 gs = Inr gs"
| "pin_all drv ad sz i (Suc k) gs = andThen (cuda_pin_mem drv (ad ! i) (sz ! i) gs) (pin_all drv ad sz (Suc i) k)"

fun unpin_all :: "cuda_driver \<Rightarrow> ulong list \<Rightarrow> nat \<Rightarrow> nat \<Rightarrow> cuda_state \<Rightarrow> fault + cuda_state" where
  "unpin_all drv ad i 0 gs = Inr gs"
| "unpin_all drv ad i (Suc k) gs = andThen (cuda_unpin_mem drv (ad ! i) gs) (unpin_all drv ad (Suc i) k)"

definition cuda_alloc_device_mem :: "cuda_driver \<Rightarrow> kgpu_service_request \<Rightarrow> cuda_state \<Rightarrow>
  fault + (int \<times> kgpu_service_request \<times> cuda_state)" where
  "cuda_alloc_device_mem drv sreq gs =
     (let inbuf = (\<lambda>a. ADDR_WITHIN a (mi_uva (hostbuf gs)) (mi_size (hostbuf gs)));
          to_buf = ADDR_REBASE (devbuf gs) (mi_uva (hostbuf gs));
          to_vma = ADDR_REBASE (devbuf4vma gs) (mi_uva (hostvma gs));
          p0 = ([0, 0, 0], [0, 0, 0], 0);
          (sr1, p1) = (if inbuf (hin sreq) then (sreq\<lparr>din := to_buf (hin sreq)\<rparr>, p0)
             else (sreq\<lparr>din := to_vma (hin sreq)\<rparr>, add_pin (hin sreq) (insize sreq) p0));
          (sr2, p2) = (if inbuf (hout sr1) then (sr1\<lparr>dout := to_buf (hout sr1)\<rparr>, p1)
             else (sr1\<lparr>dout := to_vma (hout sr1)\<rparr>, add_pin (hout sr1) (outsize sr1) p1));
          (sr3, p3) = (if inbuf (hdata sr2) then (sr2\<lparr>ddata := to_buf (hdata sr2)\<rparr>, p2)
             else if ADDR_WITHIN (hdata sr2) (mi_uva (hostvma gs)) (mi_size (hostvma gs))
             then (sr2\<lparr>ddata := to_vma (hdata sr2)\<rparr>, add_pin (hdata sr2) (datasize sr2) p2)
             else (sr2, p2));
          (pa, ps, npins) = p3;
          (npins', pa', ps') = cuda_merge_ranges pa ps npins in
      andThen (pin_all drv pa' ps' 0 npins' gs) (\<lambda>gs'. Inr (0, sr3, gs')))"

definition cuda_free_device_mem :: "cuda_driver \<Rightarrow> kgpu_service_request \<Rightarrow> cuda_state \<Rightarrow>
  fault + (kgpu_service_request \<times> cuda_state)" where
  "cuda_free_device_mem drv sreq gs =
     (let invma = (\<lambda>a. ADDR_WITHIN a (mi_uva (hostvma gs)) (mi_size (hostvma gs)));
          sr1 = sreq\<lparr>din := 0, dout := 0, ddata := 0\<rparr>;
          p0 = ([0, 0, 0], [0, 0, 0], 0);
          p1 = (if invma (hin sr1) then add_pin (hin sr1) (insize sr1) p0 else p0);
          p2 = (if invma (hout sr1) then add_pin (hout sr1) (outsize sr1) p1 else p1);
          (pa, ps, npins) = (if invma (hdata sr1) then add_pin (hdata sr1) (datasize sr1) p2 else p2);
          (npins', pa', ps') = cuda_merge_ranges pa ps npins in
      andThen (unpin_all drv pa' 0 npins' gs) (\<lambda>gs'. Inr (sr1, gs')))"

section \<open>Streams of requests and the default service functions\<close>

definition cuda_alloc_stream :: "kgpu_service_request \<Rightarrow> cuda_state \<Rightarrow> int \<times> kgpu_service_request \<times> cuda_state" where
  "cuda_alloc_stream sreq gs =
     (case find_stream (streamuses gs) 0 MAX_STREAM_NR of
        Some i \<Rightarrow> (0, sreq\<lparr>stream_id := int i, stream := streams gs ! i\<rparr>, gs\<lparr>streamuses := (streamuses gs)[i := 1]\<rparr>)
      | None \<Rightarrow> (1, sreq, gs))"

definition cuda_free_stream :: "kgpu_service_request \<Rightarrow> cuda_state \<Rightarrow> cuda_state" where
  "cuda_free_stream sreq gs =
     (if stream_id sreq \<ge> 0 \<and> stream_id sreq < int MAX_STREAM_NR
      then gs\<lparr>streamuses := (streamuses gs)[nat (stream_id sreq) := 0]\<rparr> else gs)"

definition default_compute_size :: service_fn where
  "default_compute_size sreq = (0, sreq\<lparr>block_x := 32, block_y := 1, grid_x := 512, grid_y := 1\<rparr>)"

definition queue_copy :: "cuda_driver \<Rightarrow> ulong \<Rightarrow> ulong \<Rightarrow> ulong \<Rightarrow> ulong \<Rightarrow> cuda_state \<Rightarrow> fault + cuda_state" where
  "queue_copy drv dst src sz s gs =
     andThen (cuda_safe_call (cudaMemcpyAsync drv dst src sz s)) (\<lambda>_. Inr (gs\<lparr>copies := copies gs @ [(dst, src, sz, s)]\<rparr>))"

definition default_prepare :: "cuda_driver \<Rightarrow> kgpu_service_request \<Rightarrow> cuda_state \<Rightarrow> fault + (int \<times> cuda_state)" where
  "default_prepare drv sreq gs =
     andThen (queue_copy drv (din sreq) (hin sreq) (insize sreq) (cuda_get_stream (stream_id sreq) gs) gs) (\<lambda>gs'. Inr (0, gs'))"

definition default_post :: "cuda_driver \<Rightarrow> kgpu_service_request \<Rightarrow> cuda_state \<Rightarrow> fault + (int \<times> cuda_state)" where
  "default_post drv sreq gs =
     andThen (queue_copy drv (hout sreq) (dout sreq) (outsize sreq) (cuda_get_stream (stream_id sreq) gs) gs) (\<lambda>gs'. Inr (0, gs'))"

definition cuda_backend :: "cuda_driver \<Rightarrow> unit cuda_state_ext gpu_backend" where
  "cuda_backend drv = \<lparr>be_alloc_mem = cuda_alloc_device_mem drv, be_free_mem = cuda_free_device_mem drv,
     be_alloc_stream = cuda_alloc_stream, be_free_stream = cuda_free_stream,
     be_execution_finished = cuda_execution_finished drv, be_post_finished = cuda_post_finished drv\<rparr>"


section \<open>The contract\<close>

lemma cuda_streams_same: "cuda_alloc_stream = gpu_alloc_stream" "cuda_free_stream = gpu_free_stream"
  "cuda_get_stream = gpu_get_stream"
  by (auto simp: fun_eq_iff cuda_alloc_stream_def gpu_alloc_stream_def cuda_free_stream_def gpu_free_stream_def
      cuda_get_stream_def gpu_get_stream_def)

text \<open>A runtime that reports no error; a stream is done or not ready.\<close>

locale cuda_runtime =
  fixes drv :: cuda_driver
  assumes register_ok: "cudaHostRegister drv rs p n = cudaSuccess"
    and unregister_ok: "cudaHostUnregister drv rs p = cudaSuccess"
    and query_ok: "cudaStreamQuery drv s \<in> {cudaSuccess, cudaErrorNotReady drv}"
begin

lemma pin_ok: "cuda_pin_mem drv p n gs = Inr (gs\<lparr>host_regs := (p, round_up n PAGE_SIZE) # host_regs gs\<rparr>)"
  by (simp add: cuda_pin_mem_def register_ok cuda_safe_call_def)

lemma unpin_ok: "cuda_unpin_mem drv p gs = Inr (gs\<lparr>host_regs := forget p (host_regs gs)\<rparr>)"
  by (simp add: cuda_unpin_mem_def unregister_ok cuda_safe_call_def)

lemma pin_all_ok: "pin_all drv ad sz i k gs =
    Inr (gs\<lparr>host_regs := rev (map (\<lambda>j. (ad ! j, round_up (sz ! j) PAGE_SIZE)) [i ..< i + k]) @ host_regs gs\<rparr>)"
proof (induction k arbitrary: i gs)
  case (Suc k)
  have "[i ..< i + Suc k] = i # [Suc i ..< Suc i + k]" by (simp add: upt_conv_Cons)
  then show ?case by (simp add: pin_ok Suc.IH)
qed simp

lemma unpin_all_ok: "unpin_all drv ad i k gs =
    Inr (gs\<lparr>host_regs := fold forget (map ((!) ad) [i ..< i + k]) (host_regs gs)\<rparr>)"
proof (induction k arbitrary: i gs)
  case (Suc k)
  have "[i ..< i + Suc k] = i # [Suc i ..< Suc i + k]" by (simp add: upt_conv_Cons)
  then show ?case by (simp add: unpin_ok Suc.IH)
qed simp

lemma done_ok: "\<exists>r. cuda_check_stream_done drv s = Inr r"
  using query_ok[of s] by (auto simp: cuda_check_stream_done_def Let_def)

end

sublocale cuda_runtime \<subseteq> cuda: gpu_contract "cuda_backend drv"
proof (intro gpu_contract.intro gpu_contract_axioms.intro)
  show "stream_pool busy_streams streams_ok MAX_STREAM_NR stream_id (be_alloc_stream (cuda_backend drv)) (be_free_stream (cuda_backend drv))"
    using cl_streams.stream_pool_axioms by (simp add: cuda_backend_def cuda_streams_same)
  fix sr g r sr' g'
  show "be_alloc_stream (cuda_backend drv) sr g = (r, sr', g') \<Longrightarrow>
      sr_id sr' = sr_id sr \<and> sr_s sr' = sr_s sr \<and> (r \<noteq> 0 \<longrightarrow> same_request sr sr')"
    by (auto simp: cuda_backend_def cuda_alloc_stream_def same_request_def split: option.splits)
  show "\<exists>r sr' g'. be_alloc_mem (cuda_backend drv) sr g = Inr (r, sr', g') \<and> same_request sr sr' \<and>
      busy_streams g' = busy_streams g \<and> streams_ok g' = streams_ok g"
    by (simp add: cuda_backend_def cuda_alloc_device_mem_def pin_all_ok Let_def same_request_def busy_streams_def streams_ok_def
        split: prod.splits)
  show "\<exists>sr' g'. be_free_mem (cuda_backend drv) sr g = Inr (sr', g') \<and> same_request sr sr' \<and>
      busy_streams g' = busy_streams g \<and> streams_ok g' = streams_ok g"
    by (simp add: cuda_backend_def cuda_free_device_mem_def unpin_all_ok Let_def same_request_def busy_streams_def streams_ok_def
        split: prod.splits)
  show "\<exists>r. be_execution_finished (cuda_backend drv) sr g = Inr r" "\<exists>r. be_post_finished (cuda_backend drv) sr g = Inr r"
    using done_ok by (simp_all add: cuda_backend_def cuda_execution_finished_def cuda_post_finished_def)
qed

text \<open>A runtime on which every call succeeds at once.\<close>

definition ready_driver :: cuda_driver where
  "ready_driver = \<lparr>cudaErrorNotReady = 34, cudaMalloc = (\<lambda>as n. (0, 0x100000000 + of_nat (length as) * KGPU_BUF_SIZE)),
     cudaFree = (\<lambda>as p. 0), cudaStreamCreate = (\<lambda>i. (0, of_nat (Suc i))), cudaStreamDestroy = (\<lambda>s. 0),
     cudaHostAlloc = (\<lambda>n. (0, 0x7000000)), cudaFreeHost = (\<lambda>p. 0), cudaHostRegister = (\<lambda>rs p n. 0),
     cudaHostUnregister = (\<lambda>rs p. 0), cudaStreamQuery = (\<lambda>s. 0), cudaMemcpyAsync = (\<lambda>d s n st. 0)\<rparr>"

interpretation ready: cuda_runtime ready_driver
  by unfold_locales (simp_all add: ready_driver_def cudaSuccess_def)


section \<open>Merging as in the port\<close>

lemma cuda_merge_2ranges_eq:
  "cuda_merge_2ranges r1 s1 r2 s2 old = (case merge_2ranges r1 s1 r2 s2 of Some m \<Rightarrow> (1, m) | None \<Rightarrow> (0, old))"
  by (simp add: cuda_merge_2ranges_def merge_2ranges_def)

lemma round_ranges_three:
  "n \<le> 3 \<Longrightarrow> round_ranges 0 n ([a0, a1, a2], [s0, s1, s2]) =
    (map (\<lambda>i. if i < n then round_down ([a0, a1, a2] ! i) PAGE_SIZE else [a0, a1, a2] ! i) [0, 1, 2],
     map (\<lambda>i. if i < n then round_up ([s0, s1, s2] ! i) PAGE_SIZE else [s0, s1, s2] ! i) [0, 1, 2])"
  by (cases n; cases "n - 1"; cases "n - 2"; cases "n - 3") (auto simp: numeral_2_eq_2)

lemma cuda_merge_ranges_eq:
  assumes "length ad = 3" and "length sz = 3" and "n \<le> 3"
  shows "cuda_merge_ranges ad sz n = merge_ranges ad sz n"
proof -
  obtain a0 a1 a2 s0 s1 s2 where l: "ad = [a0, a1, a2]" "sz = [s0, s1, s2]"
    using list3[OF assms(1)] list3[OF assms(2)] by blast
  have up: "[0 ..< length ad] = [0, 1, 2]" "[0 ..< length sz] = [0, 1, 2]" using assms by (simp_all add: upt_rec)
  have n: "n = 0 \<or> n = 1 \<or> n = 2 \<or> n = 3" using assms(3) by linarith
  show ?thesis
    unfolding cuda_merge_ranges_def merge_ranges_def Let_def up unfolding l round_ranges_three[OF assms(3)]
    using n by (auto simp: merge_at_def cuda_merge_2ranges_eq split: option.splits prod.splits)
qed

section \<open>Pinning and unpinning\<close>

lemma forget_append: "p \<in> fst ` set xs \<Longrightarrow> forget p (xs @ ys) = forget p xs @ ys"
  by (induction xs) auto

lemma forget_mset: "p \<in> fst ` set xs \<Longrightarrow> mset (map fst (forget p xs)) = mset (map fst xs) - {#p#}"
  by (induction xs) (auto simp: insert_DiffM2)

lemma forget_all: "mset (map fst xs) = mset ps \<Longrightarrow> fold forget ps (xs @ ys) = ys"
proof (induction ps arbitrary: xs)
  case (Cons p ps)
  then have p: "p \<in> fst ` set xs" by (metis list.set_intros(1) list.set_map set_mset_mset)
  have "mset (map fst (forget p xs)) = mset ps" using forget_mset[OF p] Cons.prems by simp
  then show ?case using Cons.IH forget_append[OF p] by simp
qed simp

definition in_buffers :: "'x gpu_common_scheme \<Rightarrow> ulong \<Rightarrow> bool" where
  "in_buffers gs a \<longleftrightarrow> (ADDR_WITHIN a (mi_uva (hostbuf gs)) (mi_size (hostbuf gs)) \<noteq>
     ADDR_WITHIN a (mi_uva (hostvma gs)) (mi_size (hostvma gs)))"

lemma pins_sizes:
  "alloc_pins gs sr = (pa, ps, n) \<Longrightarrow> length pa = 3 \<and> length ps = 3 \<and> n \<le> 3"
  "free_pins gs sr = (pa, ps, n) \<Longrightarrow> length pa = 3 \<and> length ps = 3 \<and> n \<le> 3"
  by (auto simp: alloc_pins_def free_pins_def add_pin_def Let_def split: if_splits)

definition cuda_device_request :: "cuda_state \<Rightarrow> kgpu_service_request \<Rightarrow> kgpu_service_request" where
  "cuda_device_request gs sr =
     (let to = (\<lambda>a. if ADDR_WITHIN a (mi_uva (hostbuf gs)) (mi_size (hostbuf gs))
            then ADDR_REBASE (devbuf gs) (mi_uva (hostbuf gs)) a else ADDR_REBASE (devbuf4vma gs) (mi_uva (hostvma gs)) a) in
      sr\<lparr>din := to (hin sr), dout := to (hout sr),
         ddata := (if ADDR_WITHIN (hdata sr) (mi_uva (hostbuf gs)) (mi_size (hostbuf gs)) \<or>
           ADDR_WITHIN (hdata sr) (mi_uva (hostvma gs)) (mi_size (hostvma gs)) then to (hdata sr) else ddata sr)\<rparr>)"

lemma cuda_alloc_eq:
  assumes "alloc_pins gs sr = (pa, ps, n)" and "merge_ranges pa ps n = (n', pa', ps')"
  shows "cuda_alloc_device_mem drv sr gs =
    andThen (pin_all drv pa' ps' 0 n' gs) (\<lambda>gs'. Inr (0, cuda_device_request gs sr, gs'))"
proof -
  have "cuda_merge_ranges pa ps n = (n', pa', ps')"
    using cuda_merge_ranges_eq pins_sizes(1)[OF assms(1)] assms(2) by simp
  then show ?thesis
    using assms(1) unfolding cuda_alloc_device_mem_def cuda_device_request_def alloc_pins_def Let_def
    by (auto split: if_splits)
qed

lemma cuda_free_eq:
  assumes "free_pins gs sr = (pa, ps, n)" and "merge_ranges pa ps n = (n', pa', ps')"
  shows "cuda_free_device_mem drv sr gs =
    andThen (unpin_all drv pa' 0 n' gs) (\<lambda>gs'. Inr (sr\<lparr>din := 0, dout := 0, ddata := 0\<rparr>, gs'))"
proof -
  have "cuda_merge_ranges pa ps n = (n', pa', ps')"
    using cuda_merge_ranges_eq pins_sizes(2)[OF assms(1)] assms(2) by simp
  then show ?thesis
    using assms(1) unfolding cuda_free_device_mem_def free_pins_def Let_def by (auto split: if_splits)
qed

lemma pins_agree:
  assumes "in_buffers gs (hin sr)" and "in_buffers gs (hout sr)" and "in_buffers gs (hdata sr)"
  shows "alloc_pins gs sr = free_pins gs sr"
  using assms by (auto simp: in_buffers_def alloc_pins_def free_pins_def Let_def)

context cuda_runtime
begin

lemma alloc_ok: "\<exists>sr' gs'. cuda_alloc_device_mem drv sr gs = Inr (0, sr', gs')"
proof -
  obtain pa ps n where p: "alloc_pins gs sr = (pa, ps, n)" by (metis prod_cases3)
  obtain n' pa' ps' where m: "merge_ranges pa ps n = (n', pa', ps')" by (metis prod_cases3)
  show ?thesis using cuda_alloc_eq[OF p m, of drv] by (simp add: pin_all_ok)
qed

lemma pin_roundtrip:
  assumes "in_buffers gs (hin sr)" and "in_buffers gs (hout sr)" and "in_buffers gs (hdata sr)"
  shows "\<exists>gs'. cuda_alloc_device_mem drv sr gs = Inr (0, cuda_device_request gs sr, gs') \<and>
    cuda_free_device_mem drv (cuda_device_request gs sr) gs' = Inr (sr\<lparr>din := 0, dout := 0, ddata := 0\<rparr>, gs)"
proof -
  let ?sr = "cuda_device_request gs sr"
  obtain pa ps n where p: "alloc_pins gs sr = (pa, ps, n)" by (metis prod_cases3)
  obtain n' pa' ps' where m: "merge_ranges pa ps n = (n', pa', ps')" by (metis prod_cases3)
  let ?gs = "gs\<lparr>host_regs := rev (map (\<lambda>j. (pa' ! j, round_up (ps' ! j) PAGE_SIZE)) [0 ..< n']) @ host_regs gs\<rparr>"
  have al: "cuda_alloc_device_mem drv sr gs = Inr (0, ?sr, ?gs)"
    using cuda_alloc_eq[OF p m, of drv] by (simp add: pin_all_ok)
  have "free_pins ?gs ?sr = (pa, ps, n)"
    using pins_agree[OF assms] p by (simp add: free_pins_def cuda_device_request_def Let_def)
  then have "cuda_free_device_mem drv ?sr ?gs =
      Inr (?sr\<lparr>din := 0, dout := 0, ddata := 0\<rparr>, ?gs\<lparr>host_regs := fold forget (map ((!) pa') [0 ..< n']) (host_regs ?gs)\<rparr>)"
    using cuda_free_eq[OF _ m, of ?gs ?sr drv] by (simp add: unpin_all_ok)
  moreover have "fold forget (map ((!) pa') [0 ..< n']) (host_regs ?gs) = host_regs gs"
    using forget_all[of "rev (map (\<lambda>j. (pa' ! j, round_up (ps' ! j) PAGE_SIZE)) [0 ..< n'])" "map ((!) pa') [0 ..< n']"]
    by (simp add: rev_map comp_def)
  moreover have "?sr\<lparr>din := 0, dout := 0, ddata := 0\<rparr> = sr\<lparr>din := 0, dout := 0, ddata := 0\<rparr>"
    by (simp add: cuda_device_request_def Let_def)
  ultimately show ?thesis using al by auto
qed

end


section \<open>Set-up\<close>

lemma create_streams_ok:
  assumes "\<And>j. fst (cudaStreamCreate drv j) = cudaSuccess"
  shows "\<exists>ss us. create_streams drv i k gs = Inr (gs\<lparr>streams := ss, streamuses := us\<rparr>) \<and>
    length ss = length (streams gs) \<and> length us = length (streamuses gs) \<and>
    (\<forall>j < length ss. ss ! j = (if i \<le> j \<and> j < i + k then snd (cudaStreamCreate drv j) else streams gs ! j)) \<and>
    (\<forall>j < length us. us ! j = (if i \<le> j \<and> j < i + k then 0 else streamuses gs ! j))"
proof (induction k arbitrary: i gs)
  case 0
  show ?case by (intro exI[of _ "streams gs"] exI[of _ "streamuses gs"]) auto
next
  case (Suc k)
  let ?g = "gs\<lparr>streams := (streams gs)[i := snd (cudaStreamCreate drv i)], streamuses := (streamuses gs)[i := 0]\<rparr>"
  obtain ss us where r: "create_streams drv (Suc i) k ?g = Inr (?g\<lparr>streams := ss, streamuses := us\<rparr>)"
    "length ss = length (streams gs)" "length us = length (streamuses gs)"
    "\<forall>j < length ss. ss ! j = (if Suc i \<le> j \<and> j < Suc i + k then snd (cudaStreamCreate drv j) else streams ?g ! j)"
    "\<forall>j < length us. us ! j = (if Suc i \<le> j \<and> j < Suc i + k then 0 else streamuses ?g ! j)"
    using Suc.IH[of "Suc i" ?g] by auto
  have "create_streams drv i (Suc k) gs = Inr (gs\<lparr>streams := ss, streamuses := us\<rparr>)"
    using r(1) assms[of i] by (simp add: cuda_safe_call_def case_prod_beta)
  moreover have "ss ! j = (if i \<le> j \<and> j < i + Suc k then snd (cudaStreamCreate drv j) else streams gs ! j)"
    if "j < length ss" for j
    using r(2,4) that by (cases "j = i") auto
  moreover have "us ! j = (if i \<le> j \<and> j < i + Suc k then 0 else streamuses gs ! j)" if "j < length us" for j
    using r(3,5) that by (cases "j = i") auto
  ultimately show ?case using r(2,3) by blast
qed

lemma alloc_dev_mem_ok:
  assumes "fst (cudaMalloc drv (dev_allocs gs) n) = cudaSuccess"
  shows "alloc_dev_mem drv n gs = Inr (snd (cudaMalloc drv (dev_allocs gs) n),
    gs\<lparr>dev_allocs := snd (cudaMalloc drv (dev_allocs gs) n) # dev_allocs gs\<rparr>)"
  using assms by (simp add: alloc_dev_mem_def cuda_safe_call_def case_prod_beta)

definition boot_cuda :: cuda_state where
  "boot_cuda = \<lparr>streams = replicate 8 0, streamuses = replicate 8 1,
     hostbuf = \<lparr>mi_uva = 0x7000000, mi_size = KGPU_BUF_SIZE\<rparr>, hostvma = \<lparr>mi_uva = 0x9000000, mi_size = KGPU_BUF_SIZE\<rparr>,
     devbuf = 0, devbuf4vma = 0, host_regs = [], dev_allocs = [], copies = []\<rparr>"

lemma cuda_init_law:
  assumes "\<And>as n. fst (cudaMalloc drv as n) = cudaSuccess" and "\<And>j. fst (cudaStreamCreate drv j) = cudaSuccess"
    and "length (streams gs) = 8" and "length (streamuses gs) = 8"
  shows "\<exists>gs'. cuda_gpu_init drv gs = Inr gs' \<and> streams_ok gs' \<and> busy_streams gs' = {} \<and>
    dev_allocs gs' = devbuf4vma gs' # devbuf gs' # dev_allocs gs \<and> host_regs gs' = host_regs gs \<and>
    (\<forall>j. cuda_get_stream j gs' = (if 0 \<le> j \<and> j < 8 then snd (cudaStreamCreate drv (nat j)) else 0))"
proof -
  let ?p = "snd (cudaMalloc drv (dev_allocs gs) KGPU_BUF_SIZE)"
  let ?q = "snd (cudaMalloc drv (?p # dev_allocs gs) KGPU_BUF_SIZE)"
  let ?g = "gs\<lparr>devbuf := ?p, dev_allocs := ?q # ?p # dev_allocs gs, devbuf4vma := ?q\<rparr>"
  obtain ss us where r: "create_streams drv 0 MAX_STREAM_NR ?g = Inr (?g\<lparr>streams := ss, streamuses := us\<rparr>)"
    "length ss = 8" "length us = 8"
    "\<forall>j < length ss. ss ! j = (if 0 \<le> j \<and> j < 0 + MAX_STREAM_NR then snd (cudaStreamCreate drv j) else streams ?g ! j)"
    "\<forall>j < length us. us ! j = (if 0 \<le> j \<and> j < 0 + MAX_STREAM_NR then 0 else streamuses ?g ! j)"
    using create_streams_ok[OF assms(2), of 0 MAX_STREAM_NR ?g] assms(3,4) by auto
  have "cuda_gpu_init drv gs = create_streams drv 0 MAX_STREAM_NR ?g"
    by (simp add: cuda_gpu_init_def alloc_dev_mem_ok[OF assms(1)])
  then have "cuda_gpu_init drv gs = Inr (?g\<lparr>streams := ss, streamuses := us\<rparr>)" unfolding r(1) .
  then show ?thesis
    using r(2-5) by (auto simp: streams_ok_def busy_streams_def cuda_get_stream_def MAX_STREAM_NR_def)
qed

lemma cuda_boot_streams: "\<exists>gs'. cuda_gpu_init ready_driver boot_cuda = Inr gs' \<and> streams_ok gs' \<and> busy_streams gs' = {}"
  using cuda_init_law[of ready_driver boot_cuda] by (auto simp: ready_driver_def boot_cuda_def cudaSuccess_def)

section \<open>Properties\<close>

text \<open>
  \<open>gpu_init\<close> of the CUDA back end, when no call fails, allocates the two device buffers and creates the eight
  streams: afterwards all streams are free and \<open>gpu_get_stream\<close> returns the ones created.
\<close>

theorem cuda_init_ready:
  assumes "\<And>as n. fst (cudaMalloc drv as n) = cudaSuccess" and "\<And>j. fst (cudaStreamCreate drv j) = cudaSuccess"
    and "length (streams gs) = 8" and "length (streamuses gs) = 8"
  shows "\<exists>gs'. cuda_gpu_init drv gs = Inr gs' \<and> streams_ok gs' \<and> busy_streams gs' = {} \<and>
    dev_allocs gs' = devbuf4vma gs' # devbuf gs' # dev_allocs gs \<and> host_regs gs' = host_regs gs \<and>
    (\<forall>j. cuda_get_stream j gs' = (if 0 \<le> j \<and> j < 8 then snd (cudaStreamCreate drv (nat j)) else 0))"
  by (rule cuda_init_law[OF assms])

theorem cuda_init_ready_witness:
  "\<exists>gs'. cuda_gpu_init ready_driver boot_cuda = Inr gs' \<and> streams_ok gs' \<and> busy_streams gs' = {} \<and> length (dev_allocs gs') = 2"
  using cuda_init_ready[of ready_driver boot_cuda] by (auto simp: ready_driver_def boot_cuda_def cudaSuccess_def)


definition vma_sr :: "ulong \<Rightarrow> kgpu_service_request" where
  "vma_sr a = zero_sr\<lparr>hin := a, insize := 0x1800, hout := 0x9004000, outsize := 0x100, hdata := 0x7000000, datasize := 8\<rparr>"


text \<open>
  C32: Two requests must not share a page outside the pinned buffer. With a runtime that refuses to register an address
  twice, as \<open>cudaHostRegister\<close> is documented to do, a request whose only buffer outside \<open>hostbuf\<close> starts on a page
  where the buffer of a request already holding device memory starts makes the helper abort.
\<close>

theorem cuda_shared_page_aborts:
  assumes refuse: "\<And>rs p n. p \<in> fst ` set rs \<Longrightarrow> cudaHostRegister drv rs p n \<noteq> cudaSuccess"
    and out: "\<not> ADDR_WITHIN (hin sr) (mi_uva (hostbuf gs)) (mi_size (hostbuf gs))"
      "\<not> ADDR_WITHIN (hin sr') (mi_uva (hostbuf gs)) (mi_size (hostbuf gs))"
    and inb: "\<And>a. a \<in> {hout sr, hdata sr, hout sr', hdata sr'} \<Longrightarrow> ADDR_WITHIN a (mi_uva (hostbuf gs)) (mi_size (hostbuf gs))"
    and page: "round_down (hin sr') PAGE_SIZE = round_down (hin sr) PAGE_SIZE"
    and first: "cuda_alloc_device_mem drv sr gs = Inr (0, sr1, gs1)"
  shows "cuda_alloc_device_mem drv sr' gs1 = Inl Aborted"
proof -
  have p: "alloc_pins gs s = ([hin s, 0, 0], [insize s, 0, 0], 1)" if "s \<in> {sr, sr'}" for s
    using that out inb by (auto simp: alloc_pins_def add_pin_def Let_def)
  have m: "merge_ranges [a, 0, 0] [n, 0, 0] 1 = (1, [round_down a PAGE_SIZE, 0, 0], [round_up n PAGE_SIZE, 0, 0])" for a n
    by (simp add: merge_ranges_def upt_rec)
  have gs1: "fst ` set (host_regs gs1) = insert (round_down (hin sr) PAGE_SIZE) (fst ` set (host_regs gs))"
    "hostbuf gs1 = hostbuf gs" "hostvma gs1 = hostvma gs"
    using first cuda_alloc_eq[OF p m, of sr drv] by (auto simp: cuda_pin_mem_def andThen_eq_Inr Let_def)
  have "alloc_pins gs1 sr' = ([hin sr', 0, 0], [insize sr', 0, 0], 1)"
    using p[of sr'] gs1(2,3) by (simp add: alloc_pins_def)
  then show ?thesis
    using cuda_alloc_eq[OF _ m, of gs1 sr' "hin sr'" "insize sr'" drv] page refuse gs1(1)
    by (simp add: cuda_pin_mem_def cuda_safe_call_def Let_def)
qed

definition strict_driver :: cuda_driver where
  "strict_driver = ready_driver\<lparr>cudaHostRegister := \<lambda>rs p n. if p \<in> fst ` set rs then 61 else 0\<rparr>"

definition shared_sr :: "ulong \<Rightarrow> kgpu_service_request" where
  "shared_sr a = zero_sr\<lparr>hin := a, insize := 16, hout := 0x7000100, outsize := 16, hdata := 0x7000200\<rparr>"

theorem cuda_shared_page_aborts_witness:
  "case cuda_alloc_device_mem strict_driver (shared_sr 0x9000010) boot_cuda of Inl f \<Rightarrow> False
   | Inr (r, sr1, gs1) \<Rightarrow> r = 0 \<and> cuda_alloc_device_mem strict_driver (shared_sr 0x9000800) gs1 = Inl Aborted"
proof -
  obtain sr1 gs1 where f: "cuda_alloc_device_mem strict_driver (shared_sr 0x9000010) boot_cuda = Inr (0, sr1, gs1)"
    by (simp add: cuda_alloc_device_mem_def cuda_merge_ranges_def cuda_pin_mem_def strict_driver_def shared_sr_def boot_cuda_def
        ADDR_WITHIN_def kgpu_consts add_pin_def cuda_safe_call_def cudaSuccess_def Let_def)
  have "cuda_alloc_device_mem strict_driver (shared_sr 0x9000800) gs1 = Inl Aborted"
  proof (rule cuda_shared_page_aborts[OF _ _ _ _ _ f])
    show "round_down (hin (shared_sr 0x9000800)) PAGE_SIZE = round_down (hin (shared_sr 0x9000010)) PAGE_SIZE"
      by (simp add: shared_sr_def) code_simp
  qed (auto simp: strict_driver_def shared_sr_def boot_cuda_def ADDR_WITHIN_def kgpu_consts cudaSuccess_def)
  then show ?thesis using f by simp
qed




end
