(* ===== verification/Helper_Loop.thy ===== *)
theory Helper_Loop
  imports Cuda "HOL-Library.Sublist"
begin

text \<open>
  The main loop of the helper (\<^verbatim>\<open>kgpu/src/userSpace/helper.c\<close>, \<open>kh_main_loop\<close>): what one round does, over any back end
  that keeps the contract \<open>gpu_contract\<close>, and what every number of rounds does. Requests are accounted for by their
  identifiers: accepted requests are answered once, and a GPU that finishes its work lets the helper answer all of them.
\<close>

section \<open>One round\<close>

definition done_state :: "pipeline \<Rightarrow> pipeline" where
  "done_state P = P(DoneReqs := [], AllReqs := filter (\<lambda>i. i \<notin> set (P DoneReqs)) (P AllReqs))"

lemma done_state_work: "work (done_state P) + length (P DoneReqs) = work P"
  by (simp add: work_def done_state_def stages_def rank_def)

text \<open>A back end that answers at once and always has device memory.\<close>

definition prompt :: "'x gpu_backend \<Rightarrow> bool" where
  "prompt be \<longleftrightarrow> (\<forall>sr g. (\<exists>sr' g'. be_alloc_mem be sr g = Inr (0, sr', g')) \<and> be_execution_finished be sr g \<noteq> Inr 0 \<and>
     be_post_finished be sr g \<noteq> Inr 0)"

lemma hinv_no_work:
  assumes "hinv h P" and "work P = 0"
  shows "P AllReqs = []"
  using assms by (auto simp: hinv_def work_zero)

lemma pass_grows: "pass_ok k stuck h P h' P' \<Longrightarrow> a \<noteq> k \<Longrightarrow> set (P a) \<subseteq> set (P' a)"
  unfolding pass_ok_def by blast

lemma pass_all_stuck: "pass_ok k stuck h P h' P' \<Longrightarrow> (\<And>i h. stuck i h) \<Longrightarrow> P' = P"
  unfolding pass_ok_def by blast

context gpu_contract
begin

lemma no_holders_not_full:
  assumes inv: "hinv h P" and e: "P PreparedReqs = []" "P RunningReqs = []" "P PostExecReqs = []" "P DoneReqs = []"
  shows "\<not> stream_stuck i h"
proof -
  have "holders (sr_at h) (set (P AllReqs)) = {}"
  proof -
    have "stream_id (sr_at h j) = - 1" if "j \<in> set (P AllReqs)" for j
    proof -
      obtain k where k: "k \<in> stages" "j \<in> set (P k)" using inv \<open>j \<in> set (P AllReqs)\<close> by (auto simp: hinv_def)
      then have "k \<in> {InitReqs, MemdoneReqs}" using e by (auto simp: stages_def)
      then show ?thesis using hinv_item(1)[OF inv k] by (simp add: item_ok_def)
    qed
    then show ?thesis by (auto simp: holders_def)
  qed
  then have "busy_streams (gpu h) = {}" using hinv_streams[OF inv] by (simp add: streams_inv_def)
  moreover have "0 \<in> {..< MAX_STREAM_NR}" by (simp add: MAX_STREAM_NR_def)
  ultimately show ?thesis unfolding stream_stuck_def by blast
qed

text \<open>With a prompt back end every round that starts with requests does some of the work.\<close>

lemma passes_progress:
  assumes inv: "hinv h P" and pr: "prompt be" and ne: "P AllReqs \<noteq> []"
    and p: "hinv h1 (done_state P)"
      "pass_ok PostExecReqs post_stuck h1 (done_state P) h2 P2" "pass_ok RunningReqs exec_stuck h2 P2 h3 P3"
      "pass_ok PreparedReqs (\<lambda>i h. False) h3 P3 h4 P4" "pass_ok MemdoneReqs stream_stuck h4 P4 h5 P5"
      "pass_ok InitReqs alloc_stuck h5 P5 h6 P6"
  shows "work P6 < work P"
proof (rule ccontr)
  assume "\<not> work P6 < work P"
  moreover have "work P6 \<le> work P5" "work P5 \<le> work P4" "work P4 \<le> work P3" "work P3 \<le> work P2"
    "work P2 \<le> work (done_state P)" "work (done_state P) \<le> work P"
    using p done_state_work[of P] by (simp_all add: pass_ok_def)
  ultimately have eq: "work P6 = work P5" "work P5 = work P4" "work P4 = work P3" "work P3 = work P2"
    "work P2 = work (done_state P)" "work (done_state P) = work P" by linarith+
  have d: "P DoneReqs = []" using eq(6) done_state_work[of P] by simp
  then have D: "done_state P = P" by (simp add: done_state_def fun_upd_idem)
  have same: "P2 = P" "P3 = P" "P4 = P" "P5 = P" "P6 = P" using p eq D by (simp_all add: pass_ok_def)
  have e: "P PostExecReqs = []" "P RunningReqs = []" "P PreparedReqs = []"
    using p(2-4) eq same D pr by (auto simp: pass_ok_def post_stuck_def exec_stuck_def prompt_def)
  have i4: "hinv h4 P" using p(4) same by (simp add: pass_ok_def)
  have m: "P MemdoneReqs = []"
    using p(5) eq same no_holders_not_full[OF i4 e(3,2,1) d] by (auto simp: pass_ok_def)
  have "\<not> alloc_stuck i h5" for i
    using pr unfolding alloc_stuck_def prompt_def by (metis Inr_inject prod.inject)
  then have "P InitReqs = []" using p(6) eq same by (auto simp: pass_ok_def)
  then have "work P = 0" using d e m by (auto simp: work_zero stages_def)
  then show False using hinv_no_work[OF inv] ne by simp
qed

text \<open>
  The six passes: they end, answer the requests on \<open>done_reqs\<close>, and otherwise only move requests.
\<close>

lemma passes_law:
  assumes inv: "hinv h P" and w: "\<And>q. 0 \<le> write_ret env q"
  shows "\<exists>h' P'. main_passes be env h = Some (Inr h') \<and> hinv h' P' \<and> reg h' = reg h \<and>
    responses h' = responses h @ map (response_of \<circ> sr_at h) (P DoneReqs) \<and>
    P' AllReqs = filter (\<lambda>i. i \<notin> set (P DoneReqs)) (P AllReqs) \<and>
    (\<forall>i \<in> set (P' AllReqs). sr_id (sr_at h' i) = sr_id (sr_at h i)) \<and>
    work P' \<le> work P \<and> (prompt be \<longrightarrow> P AllReqs \<noteq> [] \<longrightarrow> work P' < work P) \<and>
    ((\<forall>sr g. be_execution_finished be sr g = Inr 0) \<longrightarrow> set (P RunningReqs) \<subseteq> set (P' RunningReqs))"
proof -
  obtain r1 h1 where 1: "kh_process_request (kh_service_done be env) DoneReqs False h = Some (Inr (r1, h1))"
    "hinv h1 (done_state P)" "responses h1 = responses h @ map (response_of \<circ> sr_at h) (P DoneReqs)" "reg h1 = reg h"
    "\<forall>i. i \<notin> set (P DoneReqs) \<longrightarrow> sr_at h1 i = sr_at h i"
    using done_pass[OF inv w] unfolding done_state_def by blast
  obtain r2 h2 P2 where 2: "kh_process_request (kh_finish_post be) PostExecReqs False h1 = Some (Inr (r2, h2))"
    "pass_ok PostExecReqs post_stuck h1 (done_state P) h2 P2" using stage_pass[OF finish_stage in_stages(5) 1(2)] by blast
  have i2: "hinv h2 P2" using 2(2) by (simp add: pass_ok_def)
  obtain r3 h3 P3 where 3: "kh_process_request (kh_post_exec be) RunningReqs True h2 = Some (Inr (r3, h3))"
    "pass_ok RunningReqs exec_stuck h2 P2 h3 P3" using stage_pass[OF post_stage in_stages(4) i2] by blast
  have i3: "hinv h3 P3" using 3(2) by (simp add: pass_ok_def)
  obtain r4 h4 P4 where 4: "kh_process_request kh_launch_exec PreparedReqs True h3 = Some (Inr (r4, h4))"
    "pass_ok PreparedReqs (\<lambda>i h. False) h3 P3 h4 P4" using stage_pass[OF launch_stage in_stages(3) i3] by blast
  have i4: "hinv h4 P4" using 4(2) by (simp add: pass_ok_def)
  obtain r5 h5 P5 where 5: "kh_process_request (kh_prepare_exec be) MemdoneReqs True h4 = Some (Inr (r5, h5))"
    "pass_ok MemdoneReqs stream_stuck h4 P4 h5 P5" using stage_pass[OF prepare_stage in_stages(2) i4] by blast
  have i5: "hinv h5 P5" using 5(2) by (simp add: pass_ok_def)
  obtain r6 h6 P6 where 6: "kh_process_request (kh_request_alloc_mem be) InitReqs False h5 = Some (Inr (r6, h6))"
    "pass_ok InitReqs alloc_stuck h5 P5 h6 P6" using stage_pass[OF alloc_mem_stage in_stages(1) i5] by blast
  have run: "main_passes be env h = Some (Inr h6)"
    using 1(1) 2(1) 3(1) 4(1) 5(1) 6(1) by (simp add: main_passes_def)
  note d = 1(2-5) and p = 2(2) 3(2) 4(2) 5(2) 6(2)
  have i6: "hinv h6 P6" using p(5) by (simp add: pass_ok_def)
  have same: "same_reqs h1 (done_state P) h6 P6"
    using p by (simp add: pass_ok_def same_reqs_def)
  have w: "work P6 \<le> work P" using p done_state_work[of P] by (simp add: pass_ok_def)
  have all: "P6 AllReqs = filter (\<lambda>i. i \<notin> set (P DoneReqs)) (P AllReqs)"
    using same by (simp add: same_reqs_def done_state_def)
  have ids: "\<forall>i \<in> set (P6 AllReqs). sr_id (sr_at h6 i) = sr_id (sr_at h i)"
    using same d(4) all by (simp add: same_reqs_def done_state_def)
  have stay: "set (P RunningReqs) \<subseteq> set (P6 RunningReqs)" if "\<forall>sr g. be_execution_finished be sr g = Inr 0"
  proof -
    have "P3 = P2" using pass_all_stuck[OF p(2)] that by (simp add: exec_stuck_def)
    moreover have "set (P RunningReqs) \<subseteq> set (P2 RunningReqs)"
      using pass_grows[OF p(1), of RunningReqs] by (simp add: done_state_def)
    ultimately show ?thesis
      using pass_grows[OF p(3), of RunningReqs] pass_grows[OF p(4), of RunningReqs] pass_grows[OF p(5), of RunningReqs]
      by blast
  qed
  have f: "reg h6 = reg h" "responses h6 = responses h @ map (response_of \<circ> sr_at h) (P DoneReqs)"
    using same d(2,3) by (simp_all add: same_reqs_def)
  show ?thesis
    using stay passes_progress[OF inv _ _ d(1) p]
    by (intro exI[of _ h6] exI[of _ P6] conjI run i6 f all ids w) blast+
qed

text \<open>
  A round: the passes (to \<open>h'\<close> and \<open>P'\<close>), then the poll that may accept a request.
\<close>

lemma round_law:
  assumes inv: "hinv h P" and env: "env_ok env"
  shows "\<exists>h' P' h'' P''. main_round be env h = Some (Inr h'') \<and> hinv h'' P'' \<and> reg h'' = reg h \<and>
    responses h'' = responses h @ map (response_of \<circ> sr_at h) (P DoneReqs) \<and>
    P' AllReqs = filter (\<lambda>i. i \<notin> set (P DoneReqs)) (P AllReqs) \<and>
    (\<forall>i \<in> set (P' AllReqs). sr_id (sr_at h'' i) = sr_id (sr_at h i)) \<and> reg h' = reg h \<and>
    (if accepts env (P' AllReqs = []) (hheap h') then \<exists>i. entered env h' P' h'' P'' i else P'' = P') \<and>
    work P' \<le> work P \<and> (prompt be \<longrightarrow> P AllReqs \<noteq> [] \<longrightarrow> work P' < work P) \<and>
    ((\<forall>sr g. be_execution_finished be sr g = Inr 0) \<longrightarrow> set (P RunningReqs) \<subseteq> set (P' RunningReqs))"
proof -
  obtain h6 P6 where p: "main_passes be env h = Some (Inr h6)" "hinv h6 P6" "reg h6 = reg h"
    "responses h6 = responses h @ map (response_of \<circ> sr_at h) (P DoneReqs)"
    "P6 AllReqs = filter (\<lambda>i. i \<notin> set (P DoneReqs)) (P AllReqs)"
    "\<forall>i \<in> set (P6 AllReqs). sr_id (sr_at h6 i) = sr_id (sr_at h i)"
    "work P6 \<le> work P" "prompt be \<longrightarrow> P AllReqs \<noteq> [] \<longrightarrow> work P6 < work P"
    "(\<forall>sr g. be_execution_finished be sr g = Inr 0) \<longrightarrow> set (P RunningReqs) \<subseteq> set (P6 RunningReqs)"
    using passes_law[OF inv env_ok_write[OF env]] by (elim exE conjE) (rule that)
  obtain r h7 P7 where n: "kh_get_next_service_request env h6 = Some (Inr (r, h7))" "hinv h7 P7"
    "responses h7 = responses h6" "reg h7 = reg h6" "\<forall>j \<in> set (P6 AllReqs). sr_at h7 j = sr_at h6 j"
    "if accepts env (P6 AllReqs = []) (hheap h6) then \<exists>i. entered env h6 P6 h7 P7 i else P7 = P6"
    using get_next_law[OF p(2) env] by blast
  have f: "main_round be env h = Some (Inr h7)" "reg h7 = reg h"
    "responses h7 = responses h @ map (response_of \<circ> sr_at h) (P DoneReqs)"
    "\<forall>i \<in> set (P6 AllReqs). sr_id (sr_at h7 i) = sr_id (sr_at h i)"
    using p(1,3,4,6) n(1,3-5) by (simp_all add: main_round_def)
  show ?thesis by (intro exI[of _ h6] exI[of _ P6] exI[of _ h7] exI[of _ P7] conjI f n(2,6) p(3,5,7-9))
qed

end

section \<open>Every number of rounds\<close>

definition in_flight :: "'x helper \<Rightarrow> pipeline \<Rightarrow> int multiset" where
  "in_flight h P = mset (map (\<lambda>i. sr_id (sr_at h i)) (P AllReqs))"

definition answered :: "'x helper \<Rightarrow> int multiset" where
  "answered h = mset (map resp_id (responses h))"

lemma hinv_done:
  assumes "hinv h P"
  shows "set (P DoneReqs) \<subseteq> set (P AllReqs)" and "distinct (P DoneReqs)" and "distinct (P AllReqs)"
proof -
  have R: "rings (hheap h) (family P)" and u: "set (P AllReqs) = (\<Union>k \<in> stages. set (P k))" using assms by (simp_all add: hinv_def)
  show "set (P DoneReqs) \<subseteq> set (P AllReqs)" using u in_stages(6) by blast
  show "distinct (P DoneReqs)" by (rule stage_distinct[OF R in_stages(6)])
  show "distinct (P AllReqs)" by (rule all_distinct[OF R])
qed

lemma split_done:
  assumes "hinv h P"
  shows "mset (map f (P DoneReqs)) + mset (map f (filter (\<lambda>i. i \<notin> set (P DoneReqs)) (P AllReqs))) = mset (map f (P AllReqs))"
proof -
  note d = hinv_done[OF assms]
  have "mset (P DoneReqs) = mset (filter (\<lambda>i. i \<in> set (P DoneReqs)) (P AllReqs))"
    using d by (intro set_eq_iff_mset_eq_distinct[THEN iffD1]) auto
  then have "mset (P DoneReqs) + mset (filter (\<lambda>i. i \<notin> set (P DoneReqs)) (P AllReqs)) = mset (P AllReqs)"
    using multiset_partition[of "mset (P AllReqs)" "\<lambda>i. i \<in> set (P DoneReqs)"] by (simp add: mset_filter)
  then show ?thesis by (metis image_mset_union mset_map)
qed

text \<open>One round in terms of identifiers.\<close>

lemma round_accounts:
  assumes be: "gpu_contract be" and inv: "hinv h P" and env: "env_ok env"
  shows "\<exists>h' P' acc. main_round be env h = Some (Inr h') \<and> hinv h' P' \<and> reg h' = reg h \<and>
    answered h' + in_flight h' P' = answered h + in_flight h P + mset acc \<and>
    (acc = [] \<or> acc = [ku_id (read_req env)]) \<and> (\<not> poll_in env \<longrightarrow> acc = []) \<and>
    responses h' = responses h @ map (response_of \<circ> sr_at h) (P DoneReqs) \<and>
    (prompt be \<longrightarrow> \<not> poll_in env \<longrightarrow> P AllReqs \<noteq> [] \<longrightarrow> work P' < work P) \<and>
    (\<not> poll_in env \<longrightarrow> work P' \<le> work P) \<and>
    ((\<forall>sr g. be_execution_finished be sr g = Inr 0) \<longrightarrow> set (P RunningReqs) \<subseteq> set (P' RunningReqs))"
proof -
  obtain h1 P1 h2 P2 where r: "main_round be env h = Some (Inr h2)" "hinv h2 P2" "reg h2 = reg h"
    "responses h2 = responses h @ map (response_of \<circ> sr_at h) (P DoneReqs)"
    "P1 AllReqs = filter (\<lambda>i. i \<notin> set (P DoneReqs)) (P AllReqs)"
    "\<forall>i \<in> set (P1 AllReqs). sr_id (sr_at h2 i) = sr_id (sr_at h i)"
    "if accepts env (P1 AllReqs = []) (hheap h1) then \<exists>i. entered env h1 P1 h2 P2 i else P2 = P1"
    "work P1 \<le> work P" "prompt be \<longrightarrow> P AllReqs \<noteq> [] \<longrightarrow> work P1 < work P"
    "(\<forall>sr g. be_execution_finished be sr g = Inr 0) \<longrightarrow> set (P RunningReqs) \<subseteq> set (P1 RunningReqs)"
    using gpu_contract.round_law[OF be inv env] by (elim exE conjE) (rule that)
  have ids: "map (\<lambda>i. sr_id (sr_at h2 i)) (P1 AllReqs) = map (\<lambda>i. sr_id (sr_at h i)) (P1 AllReqs)" using r(6) by simp
  have ans: "answered h2 = answered h + mset (map (\<lambda>i. sr_id (sr_at h i)) (P DoneReqs))"
    using r(4) by (simp add: answered_def response_of_def comp_def)
  have base: "answered h2 + mset (map (\<lambda>i. sr_id (sr_at h2 i)) (P1 AllReqs)) = answered h + in_flight h P"
    unfolding ans ids unfolding r(5) in_flight_def using split_done[OF inv, of "\<lambda>i. sr_id (sr_at h i)"]
    by (simp add: union_assoc)
  have quiet: "P2 = P1" if "\<not> poll_in env" using r(7) that by (simp add: accepts_def)
  show ?thesis
  proof (cases "accepts env (P1 AllReqs = []) (hheap h1)")
    case True
    then obtain i s where e: "P2 = P1(entry_list s := P1 (entry_list s) @ [i], AllReqs := P1 AllReqs @ [i])"
      "sr_id (sr_at h2 i) = ku_id (read_req env)" using r(7) by (auto simp: entered_def)
    have p: "poll_in env" using True by (simp add: accepts_def)
    have "in_flight h2 P2 = mset (map (\<lambda>i. sr_id (sr_at h2 i)) (P1 AllReqs)) + {#ku_id (read_req env)#}"
      using e by (simp add: in_flight_def)
    then have "answered h2 + in_flight h2 P2 = answered h + in_flight h P + mset [ku_id (read_req env)]"
      using base by (simp add: union_assoc[symmetric])
    moreover have "set (P1 RunningReqs) \<subseteq> set (P2 RunningReqs)" using e(1) by (auto simp: entry_list_def split: option.splits)
    ultimately show ?thesis using r p by (intro exI[of _ h2] exI[of _ P2] exI[of _ "[ku_id (read_req env)]"]) auto
  next
    case False
    then have "P2 = P1" using r(7) by simp
    then show ?thesis
      using r base by (intro exI[of _ h2] exI[of _ P2] exI[of _ "[]"]) (simp add: in_flight_def)
  qed
qed


text \<open>
  The rounds of a run: the back end of each keeps its contract and the environment of each does not make the
  helper abort.
\<close>

definition rounds_ok :: "('x gpu_backend \<times> round_env) list \<Rightarrow> bool" where
  "rounds_ok rounds \<longleftrightarrow> (\<forall>(be, env) \<in> set rounds. gpu_contract be \<and> env_ok env)"

definition quiet :: "('x gpu_backend \<times> round_env) list \<Rightarrow> bool" where
  "quiet rounds \<longleftrightarrow> (\<forall>(be, env) \<in> set rounds. prompt be \<and> \<not> poll_in env)"

lemma rounds_ok_simps [simp]: "rounds_ok []" "rounds_ok ((be, env) # rs) \<longleftrightarrow> gpu_contract be \<and> env_ok env \<and> rounds_ok rs"
  by (auto simp: rounds_ok_def)

lemma quiet_simps [simp]: "quiet []" "quiet ((be, env) # rs) \<longleftrightarrow> prompt be \<and> \<not> poll_in env \<and> quiet rs"
  by (auto simp: quiet_def)

lemma loop_accounts:
  assumes "rounds_ok rounds" and "hinv h P"
  shows "\<exists>h' P' acc. kh_main_loop rounds h = Some (Inr h') \<and> hinv h' P' \<and>
    subseq acc (map (\<lambda>(be, env). ku_id (read_req env)) rounds) \<and>
    answered h' + in_flight h' P' = answered h + in_flight h P + mset acc \<and> prefix (responses h) (responses h')"
  using assms
proof (induction rounds arbitrary: h P)
  case Nil
  then show ?case by (intro exI[of _ h] exI[of _ P] exI[of _ "[]"]) simp
next
  case (Cons r rounds)
  obtain be env where r: "r = (be, env)" by (cases r)
  obtain h1 P1 a1 where 1: "main_round be env h = Some (Inr h1)" "hinv h1 P1"
    "answered h1 + in_flight h1 P1 = answered h + in_flight h P + mset a1" "a1 = [] \<or> a1 = [ku_id (read_req env)]"
    "responses h1 = responses h @ map (response_of \<circ> sr_at h) (P DoneReqs)"
    using round_accounts[of be h P env] Cons.prems r by auto
  obtain h2 P2 a2 where 2: "kh_main_loop rounds h1 = Some (Inr h2)" "hinv h2 P2"
    "subseq a2 (map (\<lambda>(be, env). ku_id (read_req env)) rounds)"
    "answered h2 + in_flight h2 P2 = answered h1 + in_flight h1 P1 + mset a2" "prefix (responses h1) (responses h2)"
    using Cons.IH[OF _ 1(2)] Cons.prems(1) r by auto
  have "subseq (a1 @ a2) (map (\<lambda>(be, env). ku_id (read_req env)) (r # rounds))" using 1(4) 2(3) r by auto
  moreover have "answered h2 + in_flight h2 P2 = answered h + in_flight h P + mset (a1 @ a2)"
    using 1(3) 2(4) by (simp add: union_assoc)
  moreover have "prefix (responses h) (responses h2)" using 1(5) 2(5) by (auto simp: prefix_def)
  ultimately show ?case using r 1(1) 2(1,2) by (intro exI[of _ h2] exI[of _ P2] exI[of _ "a1 @ a2"]) simp
qed

lemma loop_drains:
  assumes "rounds_ok rounds" and "quiet rounds" and "hinv h P" and "work P \<le> length rounds"
  shows "\<exists>h' P'. kh_main_loop rounds h = Some (Inr h') \<and> hinv h' P' \<and> P' AllReqs = [] \<and>
    answered h' = answered h + in_flight h P"
  using assms
proof (induction rounds arbitrary: h P)
  case Nil
  then show ?case using hinv_no_work[of h P] by (auto simp: in_flight_def)
next
  case (Cons r rounds)
  obtain be env where r: "r = (be, env)" by (cases r)
  obtain h1 P1 where 1: "main_round be env h = Some (Inr h1)" "hinv h1 P1"
    "answered h1 + in_flight h1 P1 = answered h + in_flight h P" "P AllReqs \<noteq> [] \<longrightarrow> work P1 < work P"
    "work P1 \<le> work P"
    using round_accounts[of be h P env] Cons.prems r by auto
  have "work P = 0" if "P AllReqs = []"
    using that Cons.prems(3) by (auto simp: hinv_def work_zero)
  then have "work P1 \<le> length rounds" using 1(4,5) Cons.prems(4) by (cases "P AllReqs = []") auto
  then obtain h2 P2 where "kh_main_loop rounds h1 = Some (Inr h2)" "hinv h2 P2" "P2 AllReqs = []"
    "answered h2 = answered h1 + in_flight h1 P1"
    using Cons.IH[OF _ _ 1(2)] Cons.prems(1,2) r by auto
  then show ?case using r 1(1,3) by auto
qed

lemma loop_keeps_running:
  assumes "rounds_ok rounds" and "\<forall>(be, env) \<in> set rounds. \<forall>sr g. be_execution_finished be sr g = Inr 0" and "hinv h P"
  shows "\<exists>h' P'. kh_main_loop rounds h = Some (Inr h') \<and> hinv h' P' \<and> set (P RunningReqs) \<subseteq> set (P' RunningReqs)"
  using assms
proof (induction rounds arbitrary: h P)
  case (Cons r rounds)
  obtain be env where r: "r = (be, env)" by (cases r)
  obtain h1 P1 where 1: "main_round be env h = Some (Inr h1)" "hinv h1 P1" "set (P RunningReqs) \<subseteq> set (P1 RunningReqs)"
    using round_accounts[of be h P env] Cons.prems r by auto
  obtain h2 P2 where "kh_main_loop rounds h1 = Some (Inr h2)" "hinv h2 P2" "set (P1 RunningReqs) \<subseteq> set (P2 RunningReqs)"
    using Cons.IH[OF _ _ 1(2)] Cons.prems(1,2) r by auto
  then show ?case using r 1 by auto
qed auto


section \<open>Concrete states\<close>

text \<open>
  The helper after start-up, with the list heads of \<open>LIST_HEAD\<close>, and the same helper with one request, of the item
  at address 0, on \<open>all_reqs\<close> and on the list \<open>k\<close>.
\<close>

definition start_heap :: "hnode list_heap" where
  "start_heap = \<lparr>nxt = Some, prv = Some, alive = (\<lambda>n. n \<in> insert AllReqs stages)\<rparr>"

definition start_helper :: "'x gpu_common_scheme \<Rightarrow> registry \<Rightarrow> 'x helper" where
  "start_helper g r = \<lparr>hheap = start_heap, sr_at = (\<lambda>_. zero_sr), gpu = g, reg = r, responses = []\<rparr>"

definition one_request :: "hnode \<Rightarrow> kgpu_service_request \<Rightarrow> 'x helper \<Rightarrow> 'x helper" where
  "one_request k sr h = h\<lparr>hheap := \<lparr>
       nxt = Some(AllReqs \<mapsto> GlistOf 0, GlistOf 0 \<mapsto> AllReqs, k \<mapsto> ListOf 0, ListOf 0 \<mapsto> k),
       prv = Some(AllReqs \<mapsto> GlistOf 0, GlistOf 0 \<mapsto> AllReqs, k \<mapsto> ListOf 0, ListOf 0 \<mapsto> k),
       alive = (\<lambda>n. n \<in> {AllReqs, GlistOf 0, ListOf 0} \<union> stages)\<rparr>, sr_at := (sr_at h)(0 := sr)\<rparr>"

definition one_place :: "hnode \<Rightarrow> pipeline" where
  "one_place k = (\<lambda>_. [])(k := [0], AllReqs := [0])"

lemma plugin_rename: "service_plugin (empty_srv\<lparr>svc_name := nm\<rparr>)"
  by unfold_locales (auto simp: empty_srv_def)

lemma boot_plugins: "service_plugin (service_at boot_registry s)"
  unfolding boot_registry_def by (simp add: plugin_rename)

lemma start_hinv_any:
  assumes "streams_ok g" and "busy_streams g = {}" and "registered r xs" and "\<And>s. service_plugin (service_at r s)"
  shows "hinv (start_helper g r) (\<lambda>_. [])"
proof -
  have "rings start_heap (family (\<lambda>_. []))"
    by (auto simp: rings_def ring_def family_def start_heap_def split: if_splits)
  then show ?thesis
    using assms by (auto simp: hinv_def start_helper_def streams_inv_def holders_def)
qed

lemmas start_hinv = start_hinv_any[OF _ _ boot_registry_empty boot_plugins]

lemma one_request_hinv:
  assumes k: "k \<in> stages" and it: "item_ok k sr" and st: "streams_inv g (\<lambda>_. sr) {0}"
  shows "hinv (one_request k sr (start_helper g boot_registry)) (one_place k)"
proof -
  let ?h = "start_helper g boot_registry"
  have kn: "k \<noteq> AllReqs" "k \<noteq> ListOf i" "k \<noteq> GlistOf i" for i using k by auto
  have "rings (hheap (one_request k sr ?h)) (family (one_place k))"
    unfolding rings_def
  proof (intro conjI allI impI)
    fix j xs assume "family (one_place k) j = Some xs"
    then show "ring (hheap (one_request k sr ?h)) j xs"
      using kn k by (auto simp: family_def one_place_def ring_def one_request_def split: if_splits)
  next
    fix j xs j' xs' assume "family (one_place k) j = Some xs" "family (one_place k) j' = Some xs'" "j \<noteq> j'"
    then show "set (j # xs) \<inter> set (j' # xs') = {}"
      using kn k by (auto simp: family_def one_place_def split: if_splits)
  qed
  moreover have "streams_inv g ((sr_at ?h)(0 := sr)) {0}"
    using st by (auto simp: streams_inv_def holders_def inj_on_def image_def)
  ultimately show ?thesis
    using boot_registry_empty boot_plugins it k kn
    by (auto simp: hinv_def one_request_def one_place_def start_helper_def split: if_splits)
qed


text \<open>Environments: nothing to read; a request for the service \<open>nm\<close> with identifier \<open>n\<close>.\<close>

definition quiet_env :: round_env where
  "quiet_env = \<lparr>write_ret = (\<lambda>_. 8), poll_ret = (\<lambda>_. 0), poll_in = False, malloc_ret = (\<lambda>_. None), read_ret = 0,
     read_errno = 0, read_req = \<lparr>ku_id = 0, ku_service_name = [], ku_in = 0, ku_out = 0, ku_data = 0, ku_insize = 0,
     ku_outsize = 0, ku_datasize = 0\<rparr>\<rparr>"

definition request_env :: "int \<Rightarrow> string \<Rightarrow> round_env" where
  "request_env n nm = quiet_env\<lparr>poll_ret := (\<lambda>_. 1), poll_in := True, read_ret := 88,
     malloc_ret := (\<lambda>hp. if fresh_addr hp 0 then Some 0 else None),
     read_req := (read_req quiet_env)\<lparr>ku_id := n, ku_service_name := nm\<rparr>\<rparr>"

lemma sample_envs: "env_ok quiet_env" "env_ok (request_env n nm)"
  by (simp_all add: env_ok_def quiet_env_def request_env_def)

lemma idle_gpu_streams: "streams_ok idle_gpu" "busy_streams idle_gpu = {}"
  by (auto simp: streams_ok_def busy_streams_def idle_gpu_def MAX_STREAM_NR_def)

lemmas start_idle = start_hinv[OF idle_gpu_streams]

definition done_sr :: kgpu_service_request where
  "done_sr = zero_sr\<lparr>sr_id := 7, errcode := 5, sr_state := KGPU_REQ_DONE, stream_id := - 1\<rparr>"

definition init_sr :: kgpu_service_request where
  "init_sr = zero_sr\<lparr>sr_id := 7, sr_s := Some 0, sr_state := KGPU_REQ_INIT, stream_id := - 1\<rparr>"

lemma one_done: "hinv (one_request DoneReqs done_sr (start_helper idle_gpu boot_registry)) (one_place DoneReqs)"
  by (rule one_request_hinv[OF in_stages(6)])
    (use idle_gpu_streams in \<open>auto simp: item_ok_def state_of_def done_sr_def streams_inv_def holders_def\<close>)

lemma one_init: "hinv (one_request InitReqs init_sr (start_helper idle_gpu boot_registry)) (one_place InitReqs)"
  by (rule one_request_hinv[OF in_stages(1)])
    (use idle_gpu_streams in \<open>auto simp: item_ok_def state_of_def init_sr_def streams_inv_def holders_def\<close>)

section \<open>Properties\<close>

text \<open>
  C11: One round of \<open>kh_main_loop\<close>, over every back end that keeps its contract and in every environment that does
  not make the helper abort, ends without a fault and keeps the invariant: it answers exactly the requests on
  \<open>done_reqs\<close>, in their order and with their error codes, forgets them, keeps every other request with its identifier,
  and accepts at most one new request, at the end of \<open>all_reqs\<close>.
\<close>

theorem helper_round:
  assumes "gpu_contract be" and "hinv h P" and "env_ok env"
  shows "\<exists>h' P' new. main_round be env h = Some (Inr h') \<and> hinv h' P' \<and>
    responses h' = responses h @ map (response_of \<circ> sr_at h) (P DoneReqs) \<and>
    P' AllReqs = filter (\<lambda>i. i \<notin> set (P DoneReqs)) (P AllReqs) @ new \<and>
    (new = [] \<or> (\<exists>i. new = [i] \<and> i \<notin> set (filter (\<lambda>i. i \<notin> set (P DoneReqs)) (P AllReqs)) \<and> sr_id (sr_at h' i) = ku_id (read_req env))) \<and>
    map (\<lambda>i. sr_id (sr_at h' i)) (filter (\<lambda>i. i \<notin> set (P DoneReqs)) (P AllReqs)) =
    map (\<lambda>i. sr_id (sr_at h i)) (filter (\<lambda>i. i \<notin> set (P DoneReqs)) (P AllReqs))"
proof -
  let ?A = "filter (\<lambda>i. i \<notin> set (P DoneReqs)) (P AllReqs)"
  obtain h1 P1 h2 P2 where r: "main_round be env h = Some (Inr h2)" "hinv h2 P2"
    "responses h2 = responses h @ map (response_of \<circ> sr_at h) (P DoneReqs)" "P1 AllReqs = ?A"
    "\<forall>i \<in> set (P1 AllReqs). sr_id (sr_at h2 i) = sr_id (sr_at h i)"
    "if accepts env (P1 AllReqs = []) (hheap h1) then \<exists>i. entered env h1 P1 h2 P2 i else P2 = P1"
    using gpu_contract.round_law[OF assms] by (elim exE conjE) (rule that)
  have "\<exists>new. P2 AllReqs = ?A @ new \<and> (new = [] \<or> (\<exists>i. new = [i] \<and> i \<notin> set ?A \<and> sr_id (sr_at h2 i) = ku_id (read_req env)))"
  proof (cases "accepts env (P1 AllReqs = []) (hheap h1)")
    case True
    then obtain i where "entered env h1 P1 h2 P2 i" using r(6) by auto
    then show ?thesis using r(4) by (intro exI[of _ "[i]"]) (auto simp: entered_def)
  next
    case False
    then show ?thesis using r(4,6) by simp
  qed
  moreover have "map (\<lambda>i. sr_id (sr_at h2 i)) ?A = map (\<lambda>i. sr_id (sr_at h i)) ?A" using r(4,5) by simp
  ultimately show ?thesis using r(1-3) by blast
qed

theorem helper_round_witness:
  "\<exists>h'. main_round (opencl_backend 0) (request_env 8 ''x'') (one_request DoneReqs done_sr (start_helper idle_gpu boot_registry)) =
     Some (Inr h') \<and> responses h' = [\<lparr>resp_id = 7, resp_errcode = 5\<rparr>]"
  using helper_round[OF opencl.gpu_contract_axioms one_done sample_envs(2), of 0 8 "''x''"]
  by (auto simp: one_request_def one_place_def start_helper_def response_of_def done_sr_def)

text \<open>
  C4: Exactly-once service. In every number of rounds of \<open>kh_main_loop\<close> (each with a back end that keeps its contract
  and an environment that does not make the helper abort) the helper does not fault, and the identifiers it has
  answered together with those in flight are, as multisets, those of before together with the ones accepted, which
  are a subsequence of the identifiers read. Responses are never taken back.
\<close>

theorem helper_answers_once:
  assumes "rounds_ok rounds" and "hinv h P"
  shows "\<exists>h' P' acc. kh_main_loop rounds h = Some (Inr h') \<and> hinv h' P' \<and>
    subseq acc (map (\<lambda>(be, env). ku_id (read_req env)) rounds) \<and>
    answered h' + in_flight h' P' = answered h + in_flight h P + mset acc \<and> prefix (responses h) (responses h')"
  by (rule loop_accounts[OF assms])

theorem helper_answers_once_witness:
  "\<exists>h' P' acc. kh_main_loop [(opencl_backend 0, request_env 8 ''x''), (opencl_backend 1, quiet_env)]
       (start_helper idle_gpu boot_registry) = Some (Inr h') \<and> hinv h' P' \<and> subseq acc [8, 0] \<and>
     answered h' + in_flight h' P' = mset acc"
  using helper_answers_once[of "[(opencl_backend 0, request_env 8 ''x''), (opencl_backend 1, quiet_env)]", OF _ start_idle]
    opencl.gpu_contract_axioms sample_envs
  by (simp add: answered_def in_flight_def start_helper_def request_env_def quiet_env_def)


lemma cuda_ready_prompt: "prompt (cuda_backend ready_driver)"
proof -
  have "\<exists>sr' g'. be_alloc_mem (cuda_backend ready_driver) sr g = Inr (0, sr', g')" for sr g
    using ready.alloc_ok[of sr g] by (simp add: cuda_backend_def)
  moreover have "cuda_check_stream_done ready_driver s = Inr 1" for s
    by (simp add: cuda_check_stream_done_def ready_driver_def cudaSuccess_def)
  ultimately show ?thesis
    by (simp add: prompt_def) (simp add: cuda_backend_def cuda_execution_finished_def cuda_post_finished_def)
qed

lemma one_init_cuda:
  assumes "streams_ok g" and "busy_streams g = {}"
  shows "hinv (one_request InitReqs init_sr (start_helper g boot_registry)) (one_place InitReqs)"
  by (rule one_request_hinv[OF in_stages(1)])
    (use assms in \<open>auto simp: item_ok_def state_of_def init_sr_def streams_inv_def holders_def\<close>)



definition running_sr :: kgpu_service_request where
  "running_sr = init_sr\<lparr>sr_state := KGPU_REQ_RUNNING, stream_id := 0\<rparr>"

lemma one_running: "hinv (one_request RunningReqs running_sr (start_helper (idle_gpu\<lparr>streamuses := 1 # replicate 7 0\<rparr>) boot_registry))
    (one_place RunningReqs)"
proof (rule one_request_hinv[OF in_stages(4)])
  show "item_ok RunningReqs running_sr" by (simp add: item_ok_def state_of_def running_sr_def init_sr_def)
  have "busy_streams (idle_gpu\<lparr>streamuses := 1 # replicate 7 0\<rparr>) = {0}"
    by (auto simp: busy_streams_def MAX_STREAM_NR_def nth_Cons' split: if_splits)
  then show "streams_inv (idle_gpu\<lparr>streamuses := 1 # replicate 7 0\<rparr>) (\<lambda>_. running_sr) {0}"
    by (auto simp: streams_inv_def holders_def running_sr_def streams_ok_def idle_gpu_def MAX_STREAM_NR_def)
qed


text \<open>
  C30: A request for a service that is not registered is answered by the next round with \<open>KGPU_NO_SERVICE\<close>, after the
  requests that were done before it.
\<close>

theorem unknown_service_answered:
  assumes be: "gpu_contract be" and inv: "hinv h P" and env: "env_ok env" "env_ok env'"
    and acc: "accepts env (P AllReqs = []) (hheap h)"
    and none: "kh_lookup_service (Some (ku_service_name (read_req env))) (reg h) = Some (Inr None)"
  shows "\<exists>r h1 h2. kh_get_next_service_request env h = Some (Inr (r, h1)) \<and> main_round be env' h1 = Some (Inr h2) \<and>
    responses h2 = responses h @ map (response_of \<circ> sr_at h) (P DoneReqs) @
      [\<lparr>resp_id = ku_id (read_req env), resp_errcode = KGPU_NO_SERVICE\<rparr>]"
proof -
  obtain r h1 P1 i where 1: "kh_get_next_service_request env h = Some (Inr (r, h1))" "hinv h1 P1" "responses h1 = responses h"
    "\<forall>j \<in> set (P AllReqs). sr_at h1 j = sr_at h j" "entered env h P h1 P1 i"
    using get_next_law[OF inv env(1)] acc by auto
  have P1: "P1 DoneReqs = P DoneReqs @ [i]" "response_of (sr_at h1 i) = \<lparr>resp_id = ku_id (read_req env), resp_errcode = KGPU_NO_SERVICE\<rparr>"
    using 1(5) none by (auto simp: entered_def entry_list_def response_of_def)
  have "map (response_of \<circ> sr_at h1) (P DoneReqs) = map (response_of \<circ> sr_at h) (P DoneReqs)"
    using 1(4) hinv_done(1)[OF inv] by (intro map_cong) auto
  then show ?thesis using gpu_contract.round_law[OF be 1(2) env(2)] 1(1,3) P1 by auto
qed


theorem unknown_service_answered_witness:
  "\<exists>r h1 h2. kh_get_next_service_request (request_env 8 ''x'') (start_helper idle_gpu boot_registry) = Some (Inr (r, h1)) \<and>
     main_round (opencl_backend 0) quiet_env h1 = Some (Inr h2) \<and> responses h2 = [\<lparr>resp_id = 8, resp_errcode = 2\<rparr>]"
proof -
  let ?h = "start_helper idle_gpu boot_registry"
  have "accepts (request_env 8 ''x'') True (hheap ?h)"
    by (simp add: accepts_def request_env_def start_helper_def fresh_addr_def start_heap_def)
  moreover have "kh_lookup_service (Some ''x'') (reg ?h) = Some (Inr None)"
    using registry.lookup_law[OF boot_registry_empty, of "''x''"] by (simp add: start_helper_def)
  ultimately show ?thesis
    using unknown_service_answered[OF opencl.gpu_contract_axioms start_idle sample_envs(2) sample_envs(1), of 8 "''x''" 0]
    by (simp add: request_env_def start_helper_def KGPU_NO_SERVICE_def)
qed

end
