(* ===== verification/System.thy ===== *)
theory System
  imports Requests Helper_Loop
begin

text \<open>
  The kernel module and the helper together: the requests the helper has read and not answered are those on the
  module's list \<open>rtdreqs\<close>, by identifier. Rounds of the helper against the module's \<open>kgpu_write\<close>, \<open>kgpu_poll\<close> and
  \<open>kgpu_read\<close> interleave with the steps of clients and administrator.
\<close>

section \<open>Identifiers of queued requests\<close>

definition item_id :: "kgpu_dev \<Rightarrow> nat \<Rightarrow> int" where
  "item_id dev x = rq_id (objs (request_cache dev) ! the (item_r (objs (item_cache dev) ! x)))"

text \<open>A step of the module that keeps the identifiers of what was queued.\<close>

definition keeps_ids :: "kgpu_dev \<Rightarrow> kgpu_dev \<Rightarrow> bool" where
  "keeps_ids dev dev' \<longleftrightarrow> (\<forall>x \<in> set (queue dev). item_id dev' x = item_id dev x)"

lemma keeps_idsI:
  assumes inv: "dev_inv dev"
    and items: "\<And>x. x \<in> set (queue dev) \<Longrightarrow> objs (item_cache dev') ! x = objs (item_cache dev) ! x"
    and ids: "\<And>p. pending p dev \<Longrightarrow> p \<in> inuse (request_cache dev) \<Longrightarrow> rq_id (objs (request_cache dev') ! p) = rq_id (objs (request_cache dev) ! p)"
  shows "keeps_ids dev dev'"
  unfolding keeps_ids_def
proof
  fix x assume x: "x \<in> set (queue dev)"
  obtain p where p: "item_r (objs (item_cache dev) ! x) = Some p" "p \<in> inuse (request_cache dev)"
    using queue_request[OF inv x] by metis
  then have "pending p dev" using x by (auto simp: pending_def)
  then show "item_id dev' x = item_id dev x" using items[OF x] ids[of p] p by (simp add: item_id_def)
qed

lemma queued_item_bound: "dev_inv dev \<Longrightarrow> x \<in> set (queue dev) \<Longrightarrow> x \<in> inuse (item_cache dev)"
  using queue_inuse[of "queue dev" "item_cache dev" "request_cache dev" x] by (simp add: dev_inv_def)

lemma grown_same:
  assumes "slab_ok s" and "y \<in> inuse s" and "objs c = objs s @ fresh"
  shows "objs c ! y = objs s ! y"
  using slab_ok_bound[OF assms(1,2)] assms(3) by (simp add: nth_append)

lemma put_same_id: "rq_id r = rq_id (rs ! p) \<Longrightarrow> rq_id (rs[p := r] ! q) = rq_id (rs ! q)"
  by (cases "q = p"; cases "p < length rs") (auto simp: list_update_beyond)

lemma call_async_keeps:
  assumes inv: "dev_inv dev" and run: "kgpu_call_async ch (Some p) dev = Inr (ret, dev')"
  shows "keeps_ids dev dev'"
proof -
  have ok: "slab_ok (item_cache dev)" using inv by (simp add: dev_inv_def caches_ok_def)
  consider (stopped) "dev' = dev" | (nomem) "alloc_item ch dev = (None, dev')"
    | (item) x dev1 where "alloc_item ch dev = (Some x, dev1)" "enqueue_item x (Some p) dev1 = Inr dev'"
    using run by (auto simp: kgpu_call_async_def andThen_eq_Inr split: if_splits prod.splits option.splits)
  then show ?thesis
  proof cases
    case stopped
    then show ?thesis by (simp add: keeps_ids_def)
  next
    case nomem
    obtain c where c: "dev' = dev\<lparr>item_cache := c\<rparr>"
      "objs c = objs (item_cache dev) @ replicate (slab_growth ch) kgpu_request_item_constructor"
      using alloc_item_None[OF nomem] by metis
    show ?thesis
      by (rule keeps_idsI[OF inv]) (use c(1) grown_same[OF ok queued_item_bound[OF inv] c(2)] in auto)
  next
    case (item x dev1)
    obtain c where c: "dev1 = dev\<lparr>item_cache := c\<rparr>" "slab_ok c" "x \<notin> inuse (item_cache dev)"
      "inuse c = insert x (inuse (item_cache dev))"
      "objs c = objs (item_cache dev) @ replicate (slab_growth ch) kgpu_request_item_constructor"
      using alloc_item_Some[OF item(1) ok] .
    have d: "dev' = dev\<lparr>item_cache := c\<lparr>objs := (objs c)[x := \<lparr>item_r = Some p\<rparr>]\<rparr>, reqs := reqs dev @ [x]\<rparr>"
      using item(2) c by (simp add: enqueue_item_def)
    show ?thesis
      by (rule keeps_idsI[OF inv]) (use d slab_kept[OF ok c(5,3)] queued_item_bound[OF inv] in auto)
  qed
qed

lemma sync_submit_keeps:
  assumes inv: "dev_inv dev" and p: "p \<in> inuse (request_cache dev)"
    and run: "call_sync_submit chd chi (Some p) dev = Inr (Inr d, dev')"
  shows "keeps_ids dev dev'"
proof -
  let ?rc = "request_cache dev" and ?r = "objs (request_cache dev) ! p"
  note acc = sync_submit_accepted[OF run]
  obtain d0 x ci cs where s: "call_sync_submit chd chi (Some p) dev = Inr (Inr d0,
      dev\<lparr>request_cache := ?rc\<lparr>objs := (objs ?rc)[p := ?r\<lparr>rq_kdata := KSync d0, rq_callback := SyncCallback\<rparr>]\<rparr>,
          item_cache := ci, sync_cache := cs, reqs := reqs dev @ [x]\<rparr>)"
    and ci: "\<forall>y \<in> inuse (item_cache dev). objs ci ! y = objs (item_cache dev) ! y"
    using call_sync_submit_ok[OF dev_inv_caches[OF inv] acc(1) p acc(2,3)] by blast
  have dev': "dev' = dev\<lparr>request_cache := ?rc\<lparr>objs := (objs ?rc)[p := ?r\<lparr>rq_kdata := KSync d0, rq_callback := SyncCallback\<rparr>]\<rparr>,
      item_cache := ci, sync_cache := cs, reqs := reqs dev @ [x]\<rparr>" using s run by simp
  show ?thesis
    by (rule keeps_idsI[OF inv]) (use dev' ci queued_item_bound[OF inv] in \<open>auto intro: put_same_id\<close>)
qed

lemma sync_refused_keeps:
  assumes inv: "dev_inv dev" and run: "call_sync_submit chd chi req dev = Inr (Inl ret, dev')"
  shows "keeps_ids dev dev'"
proof -
  have ok: "slab_ok (item_cache dev)" using inv by (simp add: dev_inv_def caches_ok_def)
  have "request_cache dev' = request_cache dev \<and> (\<exists>fresh. objs (item_cache dev') = objs (item_cache dev) @ fresh)"
    using run
    by (auto simp: call_sync_submit_def alloc_sync_data_def alloc_item_def andThen_eq_Inr
        dest: slab_alloc_None(2) split: if_splits prod.splits option.splits)
  then show ?thesis
    using grown_same[OF ok] queued_item_bound[OF inv] by (intro keeps_idsI[OF inv]) auto
qed

lemma put_request_ids:
  assumes inv: "dev_inv dev" and p: "p \<in> inuse (request_cache dev)"
    and r: "rq_id r = rq_id (objs (request_cache dev) ! p) \<or> \<not> pending p dev"
    and run: "put_request (Some p) r dev = Inr dev'"
  shows "keeps_ids dev dev'"
proof -
  have "slab_ok (request_cache dev)" using inv by (simp add: dev_inv_def caches_ok_def)
  then have d: "dev' = dev\<lparr>request_cache := (request_cache dev)\<lparr>objs := (objs (request_cache dev))[p := r]\<rparr>\<rparr>"
    using run p by (simp add: put_request_def)
  show ?thesis
  proof (rule keeps_idsI[OF inv])
    fix q assume "pending q dev"
    then have "rq_id r = rq_id (objs (request_cache dev) ! p) \<or> q \<noteq> p" using r by auto
    then show "rq_id (objs (request_cache dev') ! q) = rq_id (objs (request_cache dev) ! q)"
      using d put_same_id by auto
  qed (simp add: d)
qed

lemma client_step_keeps:
  assumes "bitmap_lib bm" and "kgpu_client cb" and step: "kstep bm cb dev e dev'" and inv: "dev_inv dev"
    and e: "\<And>x ku. e \<noteq> Delivered x ku" "\<And>x c. e \<noteq> Completed x c"
  shows "keeps_ids dev dev'"
  using step
proof (cases rule: kstep.cases)
  case (call_async p k ch ret)
  then show ?thesis using call_async_keeps[OF inv] by blast
next
  case (call_sync p chd chi d)
  then show ?thesis using sync_submit_keeps[OF inv] by blast
next
  case (call_sync_refused chd chi p ret)
  then show ?thesis using sync_refused_keeps[OF inv] by blast
next
  case (call_sync_returns p d ret)
  have "\<exists>r dev1 c. put_request (Some p) r dev = Inr dev1 \<and> dev' = dev1\<lparr>sync_cache := c\<rparr>"
    using call_sync_returns(6) unfolding call_sync_finish_def andThen_eq_Inr by blast
  then obtain r dev1 c where 1: "put_request (Some p) r dev = Inr dev1" "dev' = dev1\<lparr>sync_cache := c\<rparr>" by blast
  have "keeps_ids dev dev1" using put_request_ids[OF inv call_sync_returns(2) _ 1(1)] call_sync_returns(3) by simp
  then show ?thesis using 1(2) by (simp add: keeps_ids_def item_id_def)
next
  case (alloc_request ch q)
  have "\<exists>fresh. objs (request_cache dev') = objs (request_cache dev) @ fresh" and ic: "item_cache dev' = item_cache dev"
    using alloc_request(2) constructed_requests(1)[of "slab_growth ch" dev]
      slab_alloc_Some(4) slab_alloc_None(2) dev_inv_caches[OF inv]
    by (auto simp: kgpu_alloc_request_def caches_ok_def slab_alloc_def Let_def split: prod.splits slab_choice.splits if_splits)
  then obtain fresh where f: "objs (request_cache dev') = objs (request_cache dev) @ fresh" by blast
  have ok: "slab_ok (request_cache dev)" using inv by (simp add: dev_inv_def caches_ok_def)
  show ?thesis by (rule keeps_idsI[OF inv]) (simp_all add: ic grown_same[OF ok _ f])
next
  case (free_request p)
  then show ?thesis by (auto simp: keeps_ids_def item_id_def kgpu_free_request_def slab_free_def split: if_splits)
next
  case (fill_request p r)
  then show ?thesis using put_request_ids[OF inv] by blast
next
  case (ioctl env usr cmd arg ret)
  then have "request_cache dev' = request_cache dev" "item_cache dev' = item_cache dev"
    by (auto simp: kgpu_ioctl_def dump_gpu_bufs_def terminate_all_requests_def andThen_eq_Inr Let_def split: if_splits)
  then show ?thesis by (simp add: keeps_ids_def item_id_def)
next
  case (helper_write_refused len resp fpos ret fpos')
  then have "dev' = dev" by (auto simp: kgpu_write_def find_request_def split: if_splits)
  then show ?thesis by (simp add: keeps_ids_def)
qed (use e in \<open>auto simp: keeps_ids_def item_id_def\<close>)


section \<open>Clients\<close>

text \<open>A client whose callbacks leave the identifiers of other queued requests alone.\<close>

locale steady_client = kgpu_client +
  assumes cb_keeps: "dev_inv dev \<Longrightarrow> p \<in> inuse (request_cache dev) \<Longrightarrow> \<not> pending p dev \<Longrightarrow>
    cb k (Some p) dev = Inr dev' \<Longrightarrow> keeps_ids dev dev'"
begin

lemma invoke_keeps:
  assumes "dev_inv dev" and "p \<in> inuse (request_cache dev)" and "\<not> pending p dev"
    and "invoke_callback cb f (Some p) dev = Inr dev'"
  shows "keeps_ids dev dev'"
proof (cases f)
  case SyncCallback
  then have "sync_callback (Some p) dev = Inr dev'" using assms(4) by (simp add: invoke_callback_def)
  then obtain r :: kgpu_request where "(case rq_kdata r of KPtr a \<Rightarrow> Inl OutOfBounds
     | KSync d \<Rightarrow> andThen (slab_get (Some d) (sync_cache dev)) (\<lambda>data. put_sync_data d (data\<lparr>sync_done := 1\<rparr>) dev)) = Inr dev'"
    unfolding sync_callback_def andThen_eq_Inr by blast
  then have "\<exists>c. dev' = dev\<lparr>sync_cache := c\<rparr>"
    by (cases "rq_kdata r") (auto simp: put_sync_data_def andThen_eq_Inr)
  then show ?thesis by (auto simp: keeps_ids_def item_id_def)
qed (use assms cb_keeps in \<open>auto simp: invoke_callback_def\<close>)

lemma write_keeps:
  assumes inv: "dev_inv dev" and f: "find_item dev (resp_id resp) (rtdreqs dev) = Inr (Some x)"
    and len: "\<not> len < sizeof_ku_response" and w: "kgpu_write cb resp len fpos dev = Inr (ret, fpos', dev')"
  shows "keeps_ids (dev\<lparr>rtdreqs := remove1 x (rtdreqs dev)\<rparr>) dev'"
proof -
  have ok: "slab_ok (item_cache dev)" "slab_ok (request_cache dev)" using inv by (auto simp: dev_inv_def caches_ok_def)
  have xin: "x \<in> set (rtdreqs dev)" using find_item_ok[OF ok rtd_queue_inv[OF inv], of "resp_id resp"] f by auto
  let ?u = "\<lambda>p. unlinked x p (resp_errcode resp) dev"
  obtain p where p: "x \<in> inuse (item_cache dev)" "item_r (objs (item_cache dev) ! x) = Some p" "p \<in> inuse (request_cache dev)"
    and u: "dev_inv (?u p)" "\<not> pending p (?u p)"
    using unlinked_law[OF inv xin] .
  obtain dev3 c where 3: "invoke_callback cb (rq_callback (objs (request_cache dev) ! p)) (Some p) (?u p) = Inr dev3"
    "slab_free x (item_cache dev3) = Inr c" "dev' = dev3\<lparr>item_cache := c\<rparr>"
    using w unfolding write_unlinked[OF f len ok(1) p(1) ok(2) p(2,3)] andThen_eq_Inr by blast
  have "p \<in> inuse (request_cache (?u p))" using p(3) by (simp add: unlinked_def)
  then have "keeps_ids (?u p) dev3" using invoke_keeps[OF u(1) _ u(2) 3(1)] by simp
  moreover have "item_id (?u p) y = item_id dev y" for y by (simp add: item_id_def unlinked_def put_same_id)
  moreover have "objs c = objs (item_cache dev3)" using 3(2) by (auto simp: slab_free_def split: if_splits)
  ultimately show ?thesis using 3(3) by (simp add: keeps_ids_def queue_def unlinked_def item_id_def)
qed

text \<open>A response with the identifier of a request on \<open>rtdreqs\<close> is accepted and removes one such request.\<close>

lemma write_accepts:
  assumes inv: "dev_inv dev" and i: "resp_id resp \<in> item_id dev ` set (rtdreqs dev)"
  shows "\<exists>x dev'. kgpu_write cb resp sizeof_ku_response fpos dev =
      Inr (sint sizeof_ku_response, fpos + sizeof_ku_response, dev') \<and> dev_inv dev' \<and> reqs dev' = reqs dev \<and>
    x \<in> set (rtdreqs dev) \<and> item_id dev x = resp_id resp \<and> rtdreqs dev' = remove1 x (rtdreqs dev) \<and>
    (\<forall>y \<in> set (queue dev'). item_id dev' y = item_id dev y)"
proof -
  let ?ic = "item_cache dev" and ?rc = "request_cache dev"
  have ok: "slab_ok ?ic" "slab_ok ?rc" using inv by (auto simp: dev_inv_def caches_ok_def)
  have "find_item dev (resp_id resp) (rtdreqs dev) = Inr (find (\<lambda>x. item_id dev x = resp_id resp) (rtdreqs dev))"
    using find_item_find[OF ok rtd_queue_inv[OF inv]] by (simp add: item_id_def)
  moreover obtain x where x: "find (\<lambda>x. item_id dev x = resp_id resp) (rtdreqs dev) = Some x"
    using i by (cases "find (\<lambda>x. item_id dev x = resp_id resp) (rtdreqs dev)") (auto simp: find_None_iff)
  ultimately have f: "find_item dev (resp_id resp) (rtdreqs dev) = Inr (Some x)" by simp
  have xi: "x \<in> set (rtdreqs dev)" "item_id dev x = resp_id resp" using x by (auto simp: find_Some_iff)
  obtain dev' where w: "kgpu_write cb resp sizeof_ku_response fpos dev =
      Inr (sint sizeof_ku_response, fpos + sizeof_ku_response, dev')" "dev_inv dev'" "reqs dev' = reqs dev"
    "rtdreqs dev' = remove1 x (rtdreqs dev)"
    using write_found[OF inv f, of sizeof_ku_response fpos] by auto
  have "keeps_ids (dev\<lparr>rtdreqs := remove1 x (rtdreqs dev)\<rparr>) dev'"
    by (rule write_keeps[OF inv f _ w(1)]) simp
  then have "\<forall>y \<in> set (queue dev'). item_id dev' y = item_id dev y"
    using w(3,4) by (simp add: keeps_ids_def queue_def item_id_def)
  then show ?thesis using w xi by blast
qed

end

context bitmap_lib
begin

lemma callgpu_mycb_keeps:
  assumes inv: "dev_inv dev" and "callgpu_mycb bm k (Some p) dev = Inr dev'"
  shows "keeps_ids dev dev'"
  using assms(2)
  by (auto simp: callgpu_mycb_def kgpu_free_request_def slab_free_def andThen_eq_Inr keeps_ids_def item_id_def split: if_splits)

end

sublocale bitmap_lib \<subseteq> callgpu_steady: steady_client "callgpu_mycb bm"
  by unfold_locales (rule callgpu_mycb_keeps)


section \<open>Module and helper\<close>

text \<open>
  Runs of clients and administrator alone, and the module's answers to the helper's \<open>write\<close>s of a list of responses, with
  such runs before, between and after them.
\<close>

definition client_event :: "kevent \<Rightarrow> bool" where
  "client_event e = (case e of Delivered _ _ \<Rightarrow> False | Completed _ _ \<Rightarrow> False | _ \<Rightarrow> True)"

inductive clients :: "bitmap_ops \<Rightarrow> client \<Rightarrow> kgpu_dev \<Rightarrow> kgpu_dev \<Rightarrow> bool" for bm cb where
  clients_none: "clients bm cb dev dev"
| clients_step: "kstep bm cb dev e dev' \<Longrightarrow> client_event e \<Longrightarrow> clients bm cb dev' dev'' \<Longrightarrow> clients bm cb dev dev''"

inductive answers :: "bitmap_ops \<Rightarrow> client \<Rightarrow> kgpu_ku_response list \<Rightarrow> kgpu_dev \<Rightarrow> int list \<Rightarrow> kgpu_dev \<Rightarrow> bool" for bm cb where
  answers_nil: "clients bm cb dev dev' \<Longrightarrow> answers bm cb [] dev [] dev'"
| answers_cons: "clients bm cb dev dev1 \<Longrightarrow> kgpu_write cb q sizeof_ku_response fpos dev1 = Inr (ret, fpos', dev2) \<Longrightarrow>
    answers bm cb qs dev2 rets dev' \<Longrightarrow> answers bm cb (q # qs) dev (ret # rets) dev'"

definition rtd_ids :: "kgpu_dev \<Rightarrow> int multiset" where
  "rtd_ids dev = mset (map (item_id dev) (rtdreqs dev))"

lemma client_step_law:
  assumes "bitmap_lib bm" and "kgpu_client cb" and "kstep bm cb dev e dev'" and "client_event e" and "dev_inv dev"
  shows "dev_inv dev' \<and> rtdreqs dev' = rtdreqs dev \<and> rtd_ids dev' = rtd_ids dev \<and> prefix (reqs dev) (reqs dev')"
proof -
  have e: "\<And>x ku. e \<noteq> Delivered x ku" "\<And>x c. e \<noteq> Completed x c" using assms(4) by (auto simp: client_event_def)
  have k: "keeps_ids dev dev'" by (rule client_step_keeps[OF assms(1,2,3,5) e])
  have q: "dev_inv dev'" "queue_effect e dev dev'" using kstep_law[OF assms(1,2,3,5)] by auto
  have r: "rtdreqs dev' = rtdreqs dev" "prefix (reqs dev) (reqs dev')"
    using q(2) e by (cases e; auto simp: queue_effect_def)+
  have "map (item_id dev') (rtdreqs dev) = map (item_id dev) (rtdreqs dev)" using k by (simp add: keeps_ids_def queue_def)
  then have "rtd_ids dev' = rtd_ids dev" unfolding rtd_ids_def r(1) by metis
  then show ?thesis using q(1) r by simp
qed

lemma clients_law:
  assumes "bitmap_lib bm" and "kgpu_client cb"
  shows "clients bm cb dev dev' \<Longrightarrow> dev_inv dev \<Longrightarrow> dev_inv dev' \<and> rtdreqs dev' = rtdreqs dev \<and> rtd_ids dev' = rtd_ids dev \<and>
    prefix (reqs dev) (reqs dev')"
proof (induction rule: clients.induct)
  case (clients_step dev e dev' dev'')
  then show ?case using client_step_law[OF assms clients_step(1,2,5)] by (auto intro: prefix_order.trans)
qed simp

context steady_client
begin

text \<open>The module accepts the responses to requests it has delivered, and then no longer counts them as delivered.\<close>

lemma write_ids:
  assumes "dev_inv dev" and "resp_id q \<in># rtd_ids dev"
  shows "\<exists>dev'. kgpu_write cb q sizeof_ku_response fpos dev = Inr (8, fpos + sizeof_ku_response, dev') \<and> dev_inv dev' \<and>
    rtd_ids dev = add_mset (resp_id q) (rtd_ids dev') \<and> reqs dev' = reqs dev"
proof -
  have "resp_id q \<in> item_id dev ` set (rtdreqs dev)" using assms(2) by (auto simp: rtd_ids_def)
  from write_accepts[OF assms(1) this, of fpos] obtain x dev' where
    w: "kgpu_write cb q sizeof_ku_response fpos dev = Inr (sint sizeof_ku_response, fpos + sizeof_ku_response, dev')" "dev_inv dev'" "reqs dev' = reqs dev"
    and x: "x \<in> set (rtdreqs dev)" "item_id dev x = resp_id q" "rtdreqs dev' = remove1 x (rtdreqs dev)"
    and ids: "\<forall>y \<in> set (queue dev'). item_id dev' y = item_id dev y" by blast
  have "sint sizeof_ku_response = 8" by code_simp
  moreover have "rtd_ids dev' = image_mset (item_id dev) (mset (rtdreqs dev) - {#x#})"
    using ids x(3) by (simp add: rtd_ids_def queue_def flip: mset_remove1 mset_map cong: map_cong)
  then have "rtd_ids dev = add_mset (resp_id q) (rtd_ids dev')"
    using x(1,2) by (simp add: rtd_ids_def) (metis image_mset_add_mset insert_DiffM set_mset_mset)
  ultimately show ?thesis using w by auto
qed

lemma answers_law:
  assumes "bitmap_lib bm"
  shows "answers bm cb qs dev rets dev' \<Longrightarrow> dev_inv dev \<Longrightarrow> mset (map resp_id qs) \<subseteq># rtd_ids dev \<Longrightarrow>
    rets = replicate (length qs) 8 \<and> dev_inv dev' \<and> rtd_ids dev = mset (map resp_id qs) + rtd_ids dev'"
proof (induction rule: answers.induct)
  case (answers_nil dev dev')
  then show ?case using clients_law[OF assms kgpu_client_axioms] by simp
next
  case (answers_cons dev dev1 q fpos ret fpos' dev2 qs rets dev')
  have 1: "dev_inv dev1" "rtd_ids dev1 = rtd_ids dev" using clients_law[OF assms kgpu_client_axioms answers_cons(1,5)] by auto
  have "resp_id q \<in># rtd_ids dev1" using answers_cons.prems(2) 1(2) by (simp add: insert_subset_eq_iff)
  then have 2: "ret = 8" "dev_inv dev2" "rtd_ids dev1 = add_mset (resp_id q) (rtd_ids dev2)"
    using write_ids[OF 1(1), of q fpos] answers_cons(2) by auto
  then have "mset (map resp_id qs) \<subseteq># rtd_ids dev2" using answers_cons.prems(2) 1(2) by simp
  then show ?case using answers_cons.IH 2 1(2) by simp
qed

lemma answers_exist:
  "dev_inv dev \<Longrightarrow> mset (map resp_id qs) \<subseteq># rtd_ids dev \<Longrightarrow>
    \<exists>rets dev'. answers bm cb qs dev rets dev' \<and> reqs dev' = reqs dev"
proof (induction qs arbitrary: dev)
  case Nil
  show ?case using answers_nil[OF clients_none] by blast
next
  case (Cons q qs)
  have "resp_id q \<in># rtd_ids dev" using Cons.prems(2) by (simp add: insert_subset_eq_iff)
  then obtain dev1 where w: "kgpu_write cb q sizeof_ku_response 0 dev = Inr (8, 0 + sizeof_ku_response, dev1)" "dev_inv dev1"
    "rtd_ids dev = add_mset (resp_id q) (rtd_ids dev1)" "reqs dev1 = reqs dev" using write_ids[OF Cons.prems(1), of q 0] by blast
  then have "mset (map resp_id qs) \<subseteq># rtd_ids dev1" using Cons.prems(2) by simp
  then show ?case using Cons.IH[OF w(2)] answers_cons[OF clients_none w(1)] w(4) by metis
qed

end

text \<open>
  One round of the helper against the module. The module's answers are the results of the system calls: the \<open>write\<close>s of
  the responses to the requests \<open>ds\<close> on \<open>done_reqs\<close>, then \<open>poll\<close>, then, when the helper gets so far, the blocking \<open>read\<close>. Clients
  run in between. As the C library does, a negative result of the module is \<open>-1\<close> with \<open>errno\<close> set. What is left to
  the environment: \<open>poll\<close> may fail or time out (with the member \<open>revents\<close> left 0), \<open>malloc\<close> may fail.
  The outcome is \<open>None\<close> if the round does not end and a fault if the helper aborts.
\<close>

definition libc_ret :: "int \<Rightarrow> int" where
  "libc_ret r = (if r < 0 then - 1 else r)"

definition reads :: "round_env \<Rightarrow> 'x helper \<Rightarrow> bool" where
  "reads env h = (case list_empty (Some AllReqs) (hheap h) of Inl f \<Rightarrow> False
     | Inr idle \<Rightarrow> poll_in env \<and> poll_ret env idle = 1 \<and> malloc_ret env (hheap h) \<noteq> None)"

definition written :: "bitmap_ops \<Rightarrow> client \<Rightarrow> round_env \<Rightarrow> kgpu_dev \<Rightarrow> 'x helper \<Rightarrow> kgpu_dev \<Rightarrow> bool" where
  "written bm cb env dev h dev' \<longleftrightarrow> (\<exists>ds rets. ring (hheap h) DoneReqs (map ListOf ds) \<and>
     answers bm cb (map (response_of \<circ> sr_at h) ds) dev rets dev' \<and>
     map (write_ret env) (map (response_of \<circ> sr_at h) ds) = map libc_ret rets \<and>
     (\<forall>q. q \<notin> set (map (response_of \<circ> sr_at h) ds) \<longrightarrow> write_ret env q = 8))"

definition polled :: "round_env \<Rightarrow> kgpu_dev \<Rightarrow> bool" where
  "polled env dev \<longleftrightarrow> (\<forall>b. poll_ret env b \<in> {- 1, 0, 1} \<and> (poll_in env \<longleftrightarrow> poll_ret env b = 1)) \<and>
     (poll_in env \<longrightarrow> POLLIN \<in> kgpu_poll dev) \<and> (\<forall>hp i. malloc_ret env hp = Some i \<longrightarrow> fresh_addr hp i)"

definition read_by :: "round_env \<Rightarrow> 'x helper \<Rightarrow> kgpu_dev \<Rightarrow> kgpu_dev \<Rightarrow> bool" where
  "read_by env h dev dev' \<longleftrightarrow>
     (if reads env h
      then \<exists>signalled fpos ret ku fpos'.
        kgpu_read False signalled sizeof_ku_request fpos dev = Some (Inr (ret, ku, fpos', dev')) \<and>
        read_ret env = libc_ret ret \<and> (ret < 0 \<longrightarrow> read_errno env = - ret) \<and> (0 \<le> ret \<longrightarrow> ku = Some (read_req env))
      else dev' = dev \<and> read_ret env = 0)"

text \<open>
  The outcome of a round is \<open>None\<close> when it does not end, a fault when the helper aborts or goes astray. Results of system
  calls that the round does not make are fixed (8 and 0).
\<close>

inductive sround :: "bitmap_ops \<Rightarrow> client \<Rightarrow> 'x gpu_backend \<Rightarrow> kgpu_dev \<times> 'x helper \<Rightarrow>
  (fault + kgpu_dev \<times> 'x helper) option \<Rightarrow> bool" for bm cb be where
  sround: "written bm cb env dev h dev1 \<Longrightarrow> polled env dev1 \<Longrightarrow> clients bm cb dev1 dev2 \<Longrightarrow>
    \<forall>h1. main_passes be env h = Some (Inr h1) \<longrightarrow> read_by env h1 dev2 dev3 \<Longrightarrow>
    sround bm cb be (dev, h) (map_option (map_sum id (Pair dev3)) (main_round be env h))"

inductive srun :: "bitmap_ops \<Rightarrow> client \<Rightarrow> 'x gpu_backend set \<Rightarrow> kgpu_dev \<times> 'x helper \<Rightarrow>
  (fault + kgpu_dev \<times> 'x helper) option \<Rightarrow> bool" for bm cb Bs where
  srun_start: "srun bm cb Bs s (Some (Inr s))"
| srun_client: "srun bm cb Bs s (Some (Inr (dev, h))) \<Longrightarrow> kstep bm cb dev e dev' \<Longrightarrow> client_event e \<Longrightarrow>
    srun bm cb Bs s (Some (Inr (dev', h)))"
| srun_round: "srun bm cb Bs s (Some (Inr (dev, h))) \<Longrightarrow> be \<in> Bs \<Longrightarrow> sround bm cb be (dev, h) out \<Longrightarrow> srun bm cb Bs s out"

definition sinv :: "kgpu_dev \<Rightarrow> 'x helper \<Rightarrow> bool" where
  "sinv dev h \<longleftrightarrow> dev_inv dev \<and> (\<exists>P. hinv h P \<and> in_flight h P = rtd_ids dev)"

lemma done_ring:
  assumes "hinv h P" and "ring (hheap h) DoneReqs (map ListOf ds)"
  shows "ds = P DoneReqs"
proof -
  have "ring (hheap h) DoneReqs (map ListOf (P DoneReqs))"
    using ringsD[of "hheap h" "family P"] family_stage[OF in_stages(6)] assms(1) by (simp add: hinv_def)
  from ring_unique[OF assms(2) this] show ?thesis by (simp add: inj_map_eq_map[OF node_inj(1)])
qed

lemma done_ids:
  assumes "hinv h P"
  shows "mset (map resp_id (map (response_of \<circ> sr_at h) (P DoneReqs))) +
    mset (map (\<lambda>i. sr_id (sr_at h i)) (filter (\<lambda>i. i \<notin> set (P DoneReqs)) (P AllReqs))) = in_flight h P"
  using split_done[OF assms, of "\<lambda>i. sr_id (sr_at h i)"] by (simp add: in_flight_def response_of_def comp_def)

lemma read_ids:
  assumes "dev_inv dev" and "reqs dev = x # xs"
    and "kgpu_read False signalled sizeof_ku_request fpos dev = Some (Inr (ret, ku, fpos', dev'))"
  shows "ret = 88" and "dev_inv dev'" and "\<exists>k. ku = Some k \<and> rtd_ids dev' = add_mset (ku_id k) (rtd_ids dev)" and "reqs dev' = xs"
proof -
  note r = read_eq[OF assms(1,2), of False signalled fpos]
  have "sint sizeof_ku_request = 88" by code_simp
  then show "ret = 88" using r assms(3) by simp
  show "dev_inv dev'" using read_law[OF assms(1,2), of False signalled fpos] assms(3) by auto
  have "dev' = dev\<lparr>reqs := xs, rtdreqs := rtdreqs dev @ [x]\<rparr>" using r assms(3) by simp
  then show "reqs dev' = xs" by simp
  have "rtd_ids dev' = add_mset (item_id dev x) (rtd_ids dev)" using \<open>dev' = _\<close> by (simp add: rtd_ids_def item_id_def[abs_def])
  then show "\<exists>k. ku = Some k \<and> rtd_ids dev' = add_mset (ku_id k) (rtd_ids dev)"
    using r assms(3) by (auto simp: fill_ku_request_def item_id_def)
qed

text \<open>
  The last part of a round: polling and reading. A request that is read leaves \<open>reqs\<close> and adds at most six list steps to the work
  of the helper.
\<close>

definition reading :: "bool \<Rightarrow> kgpu_dev \<Rightarrow> pipeline \<Rightarrow> kgpu_dev \<Rightarrow> pipeline \<Rightarrow> bool" where
  "reading b dev P dev' P' \<longleftrightarrow> (if b then (\<exists>x. reqs dev = x # reqs dev') \<and> work P' \<le> work P + 6 else reqs dev' = reqs dev \<and> P' = P)"

lemma entry_work: "work (P(entry_list s := P (entry_list s) @ [i], AllReqs := A)) \<le> work P + 6"
  by (auto simp: work_def stages_def rank_def entry_list_def split: option.splits)

lemma hinv_list_empty: "hinv h P \<Longrightarrow> list_empty (Some AllReqs) (hheap h) = Inr (P AllReqs = [])"
  using list_empty_rings[of "hheap h" "family P"] family_all[of P] by (simp add: hinv_def)

lemma get_next_keeps:
  assumes h: "hinv h P" "in_flight h P = rtd_ids dev" and d: "dev_inv dev" "poll_in env \<longrightarrow> reqs dev \<noteq> []"
    and env: "\<forall>q. 0 \<le> write_ret env q" "polled env dev0" "read_by env h dev dev'"
  shows "\<exists>r h' P'. kh_get_next_service_request env h = Some (Inr (r, h')) \<and> dev_inv dev' \<and> hinv h' P' \<and> in_flight h' P' = rtd_ids dev' \<and>
    reading (reads env h) dev P dev' P'"
proof -
  note le = hinv_list_empty[OF h(1)]
  have rd: "dev' = dev \<and> read_ret env = 0" if "\<not> reads env h" using that env(3) by (simp add: read_by_def)
  have rd1: "read_ret env = 88 \<and> dev_inv dev' \<and> rtd_ids dev' = add_mset (ku_id (read_req env)) (rtd_ids dev) \<and> (\<exists>x. reqs dev = x # reqs dev')"
    if r: "reads env h"
  proof -
    obtain x xs where q: "reqs dev = x # xs" using d(2) r le by (cases "reqs dev") (auto simp: reads_def)
    obtain signalled fpos ret ku fpos' where k: "kgpu_read False signalled sizeof_ku_request fpos dev = Some (Inr (ret, ku, fpos', dev'))"
      "read_ret env = libc_ret ret" "0 \<le> ret \<longrightarrow> ku = Some (read_req env)"
      using env(3) r unfolding read_by_def by auto
    show ?thesis using read_ids[OF d(1) q k(1)] k(2,3) q by (auto simp: libc_ret_def)
  qed
  have ok: "env_ok env" using env(1,2) rd rd1 by (cases "reads env h") (auto simp: env_ok_def polled_def)
  obtain r h' P' where n: "kh_get_next_service_request env h = Some (Inr (r, h'))" "hinv h' P'"
    "\<forall>j \<in> set (P AllReqs). sr_at h' j = sr_at h j"
    "if accepts env (P AllReqs = []) (hheap h) then \<exists>i. entered env h P h' P' i else P' = P"
    using get_next_law[OF h(1) ok] by blast
  have same: "image_mset (\<lambda>i. sr_id (sr_at h' i)) (mset (P AllReqs)) = image_mset (\<lambda>i. sr_id (sr_at h i)) (mset (P AllReqs))"
    using n(3) by (intro image_mset_cong) auto
  have acc: "accepts env (P AllReqs = []) (hheap h) \<longleftrightarrow> reads env h"
    using rd rd1 le by (cases "reads env h") (auto simp: accepts_def reads_def)
  show ?thesis
  proof (cases "reads env h")
    case True
    then obtain i s where e: "P' = P(entry_list s := P (entry_list s) @ [i], AllReqs := P AllReqs @ [i])"
      "sr_id (sr_at h' i) = ku_id (read_req env)" using n(4) acc by (auto simp: entered_def)
    then have "in_flight h' P' = rtd_ids dev'" using rd1[OF True] h(2) same by (simp add: in_flight_def)
    moreover have "work P' \<le> work P + 6" unfolding e(1) by (rule entry_work)
    ultimately show ?thesis using n(1,2) rd1[OF True] True by (auto simp: reading_def)
  next
    case False
    then have "in_flight h' P' = rtd_ids dev'" using rd n(4) acc h(2) same by (simp add: in_flight_def)
    moreover have "P' = P" using False n(4) acc by simp
    ultimately show ?thesis using n(1,2) rd[OF False] d(1) False by (auto simp: reading_def)
  qed
qed

text \<open>One round against the module: invariants, and what becomes of the work of both sides.\<close>

lemma round_step:
  assumes "bitmap_lib bm" and "steady_client cb" and be: "gpu_contract be"
    and P: "hinv h P" "in_flight h P = rtd_ids dev" "dev_inv dev"
    and wrt: "written bm cb env dev h dev1" and pol: "polled env dev1" and cls: "clients bm cb dev1 dev2"
    and rdb: "\<forall>h1. main_passes be env h = Some (Inr h1) \<longrightarrow> read_by env h1 dev2 dev3"
  shows "\<exists>h1 P1 h' P'. main_passes be env h = Some (Inr h1) \<and> main_round be env h = Some (Inr h') \<and> dev_inv dev3 \<and>
    hinv h' P' \<and> in_flight h' P' = rtd_ids dev3 \<and> work P1 \<le> work P \<and> (prompt be \<longrightarrow> P AllReqs \<noteq> [] \<longrightarrow> work P1 < work P) \<and>
    hinv h1 P1 \<and> reading (reads env h1) dev2 P1 dev3 P'"
proof -
  have cl: "kgpu_client cb" using assms(2) by (simp add: steady_client_def)
  let ?rs = "map (response_of \<circ> sr_at h) (P DoneReqs)"
  obtain rets where w: "answers bm cb ?rs dev rets dev1" "map (write_ret env) ?rs = map libc_ret rets"
    "\<forall>q. q \<notin> set ?rs \<longrightarrow> write_ret env q = 8"
    using wrt done_ring[OF P(1)] unfolding written_def by blast
  have "mset (map resp_id ?rs) \<subseteq># rtd_ids dev" unfolding P(2)[symmetric] done_ids[OF P(1), symmetric] by simp
  then have a: "rets = replicate (length ?rs) 8" "dev_inv dev1" "rtd_ids dev = mset (map resp_id ?rs) + rtd_ids dev1"
    using steady_client.answers_law[OF assms(2,1) w(1) P(3)] by auto
  have "write_ret env q = 8" if "q \<in> set ?rs" for q
  proof -
    have "write_ret env q \<in> set (map libc_ret rets)" using that unfolding w(2)[symmetric] set_map by (rule imageI)
    then show ?thesis unfolding a(1) by (auto simp: libc_ret_def split: if_splits)
  qed
  then have wr: "\<forall>q. 0 \<le> write_ret env q" using w(3) by (metis zero_le_numeral)
  have c: "dev_inv dev2" "rtd_ids dev2 = rtd_ids dev1" "prefix (reqs dev1) (reqs dev2)"
    using clients_law[OF assms(1) cl cls a(2)] by auto
  obtain h1 P1 where 1: "main_passes be env h = Some (Inr h1)" "hinv h1 P1"
    "P1 AllReqs = filter (\<lambda>i. i \<notin> set (P DoneReqs)) (P AllReqs)"
    "\<forall>i \<in> set (P1 AllReqs). sr_id (sr_at h1 i) = sr_id (sr_at h i)"
    "work P1 \<le> work P" "prompt be \<longrightarrow> P AllReqs \<noteq> [] \<longrightarrow> work P1 < work P"
    using gpu_contract.passes_law[OF be P(1), of env] wr by blast
  have "map (\<lambda>i. sr_id (sr_at h1 i)) (P1 AllReqs) = map (\<lambda>i. sr_id (sr_at h i)) (P1 AllReqs)" using 1(4) by simp
  then have fl: "in_flight h1 P1 = mset (map (\<lambda>i. sr_id (sr_at h i)) (P1 AllReqs))" unfolding in_flight_def by (rule arg_cong)
  have "mset (map resp_id ?rs) + in_flight h1 P1 = mset (map resp_id ?rs) + rtd_ids dev1"
    unfolding fl 1(3) done_ids[OF P(1)] P(2) by (rule a(3))
  then have f: "in_flight h1 P1 = rtd_ids dev2" using c(2) by simp
  have q: "poll_in env \<longrightarrow> reqs dev2 \<noteq> []"
    using pol c(3) by (auto simp: polled_def kgpu_poll_def split: if_splits)
  obtain r h' P' where n: "kh_get_next_service_request env h1 = Some (Inr (r, h'))" "dev_inv dev3" "hinv h' P'"
    "in_flight h' P' = rtd_ids dev3" "reading (reads env h1) dev2 P1 dev3 P'"
    using get_next_keeps[OF 1(2) f c(1) q wr pol] rdb 1(1) by blast
  have "main_round be env h = Some (Inr h')" using n(1) 1(1) by (simp add: main_round_def)
  then show ?thesis using 1(1,2,5,6) n(2-) by (intro exI[of _ h1] exI[of _ P1] exI[of _ h'] exI[of _ P']) simp
qed

lemma sround_law:
  assumes "bitmap_lib bm" and "steady_client cb" and be: "gpu_contract be" and inv: "sinv dev h"
    and "sround bm cb be (dev, h) out"
  shows "\<exists>dev' h'. out = Some (Inr (dev', h')) \<and> sinv dev' h'"
  using assms(5)
proof (cases rule: sround.cases)
  case (sround env dev1 dev2 dev3)
  obtain P where P: "hinv h P" "in_flight h P = rtd_ids dev" "dev_inv dev" using inv by (auto simp: sinv_def)
  obtain h' P' where "main_round be env h = Some (Inr h')" "dev_inv dev3" "hinv h' P'" "in_flight h' P' = rtd_ids dev3"
    using round_step[OF assms(1-3) P sround(2-5)] by blast
  then show ?thesis using sround(1) by (auto simp: sinv_def)
qed

lemma srun_law:
  assumes "bitmap_lib bm" and "steady_client cb" and be: "\<forall>be \<in> Bs. gpu_contract be"
  shows "srun bm cb Bs s out \<Longrightarrow> sinv (fst s) (snd s) \<Longrightarrow> \<exists>dev' h'. out = Some (Inr (dev', h')) \<and> sinv dev' h'"
proof (induction rule: srun.induct)
  case (srun_start s)
  then show ?case by (metis prod.collapse)
next
  case (srun_client s dev h e dev')
  have cl: "kgpu_client cb" using assms(2) by (simp add: steady_client_def)
  have i: "sinv dev h" using srun_client.IH srun_client.prems by simp
  then show ?case using client_step_law[OF assms(1) cl srun_client(2,3)] by (auto simp: sinv_def)
next
  case (srun_round s dev h be out)
  have i: "sinv dev h" using srun_round.IH srun_round.prems by simp
  show ?case using sround_law[OF assms(1,2) _ i srun_round(3)] be srun_round(2) by blast
qed

section \<open>Properties\<close>


lemma idle_passes: "main_passes be env (start_helper g r) = Some (Inr (start_helper g r))"
  by (simp add: main_passes_def kh_process_request_def list_for_each_safe_def start_helper_def start_heap_def heap_ops
      for_each_safe_loop.simps stages_def)

definition delivery_env :: round_env where
  "delivery_env = (request_env 1 [])\<lparr>read_req := fill_ku_request (gmpool queued_dev) (objs (request_cache queued_dev) ! 0)\<rparr>"

lemma queued_dev_inv: "dev_inv queued_dev"
proof -
  have "kstep ref_bitmap (callgpu_mycb ref_bitmap) filled_dev (if (0::int) = 0 then Submitted (last (reqs queued_dev)) else Internal) queued_dev"
    by (rule kstep.call_async[where p = 0 and k = 0, OF _ _ _ queued_dev_steps(1)])
      (simp_all add: filled_dev_def pending_def queue_def idle_dev_def)
  then show ?thesis using kstep_law[OF ref_bm.bitmap_lib_axioms ref_bm.callgpu.kgpu_client_axioms _ filled_dev_inv] by blast
qed

lemma queued_dev_queues: "reqs queued_dev = [0]" "rtdreqs queued_dev = []" "item_r (objs (item_cache queued_dev) ! 0) = Some 0"
  by (simp_all add: queued_dev_def filled_dev_def idle_dev_def)

text \<open>A round that delivers the request of \<open>queued_dev\<close> to an idle helper.\<close>

lemma delivery_round:
  "sround ref_bitmap (callgpu_mycb ref_bitmap) be (queued_dev, start_helper g boot_registry)
     (map_option (map_sum id (Pair (queued_dev\<lparr>reqs := [], rtdreqs := [0]\<rparr>))) (main_round be delivery_env (start_helper g boot_registry)))"
proof (rule sround.sround)
  have "ring start_heap DoneReqs (map ListOf [])" by (simp add: ring_def start_heap_def stages_def)
  moreover have "answers ref_bitmap (callgpu_mycb ref_bitmap) [] queued_dev [] queued_dev"
    by (intro answers.intros clients.intros)
  ultimately show "written ref_bitmap (callgpu_mycb ref_bitmap) delivery_env queued_dev (start_helper g boot_registry) queued_dev"
    unfolding written_def by (intro exI[of _ "[]"]) (simp add: start_helper_def delivery_env_def request_env_def quiet_env_def)
  show "polled delivery_env queued_dev"
    by (simp add: polled_def delivery_env_def request_env_def quiet_env_def kgpu_poll_def queued_dev_queues)
  show "clients ref_bitmap (callgpu_mycb ref_bitmap) queued_dev queued_dev" by (rule clients.clients_none)
  have s: "sint sizeof_ku_request = 88" by code_simp
  have r: "reads delivery_env (start_helper g boot_registry)"
    by (simp add: reads_def start_helper_def start_heap_def list_empty_def heap_ops delivery_env_def request_env_def fresh_addr_def
        stages_def)
  have k: "kgpu_read False False sizeof_ku_request 0 queued_dev = Some (Inr (88, Some (read_req delivery_env), sizeof_ku_request,
      queued_dev\<lparr>reqs := [], rtdreqs := [0]\<rparr>))"
    using read_eq[OF queued_dev_inv queued_dev_queues(1), of False False 0] by (simp add: s queued_dev_queues delivery_env_def)
  have "read_ret delivery_env = libc_ret 88" by (simp add: libc_ret_def delivery_env_def request_env_def)
  then have "read_by delivery_env (start_helper g boot_registry) queued_dev (queued_dev\<lparr>reqs := [], rtdreqs := [0]\<rparr>)"
    unfolding read_by_def if_P[OF r] using k
    by (intro exI[of _ False] exI[of _ "0 :: ulong"] exI[of _ "88 :: int"] exI[of _ "Some (read_req delivery_env)"]
        exI[of _ sizeof_ku_request] conjI) simp_all
  then show "\<forall>h1. main_passes be delivery_env (start_helper g boot_registry) = Some (Inr h1) \<longrightarrow>
      read_by delivery_env h1 queued_dev (queued_dev\<lparr>reqs := [], rtdreqs := [0]\<rparr>)"
    unfolding idle_passes by blast
qed

lemma outcome_dev: "map_option (map_sum id (Pair d)) m = Some (Inr (a, b)) \<Longrightarrow> a = d"
  by (cases m; cases "the m") auto



definition delivered_dev :: kgpu_dev where
  "delivered_dev = queued_dev\<lparr>reqs := [], rtdreqs := [0]\<rparr>"

lemma delivered_dev_facts: "dev_inv delivered_dev" "rtd_ids delivered_dev = {#1#}"
proof -
  show "dev_inv delivered_dev"
    using read_law[OF queued_dev_inv queued_dev_queues(1), of False False 0] read_eq[OF queued_dev_inv queued_dev_queues(1), of False False 0]
    by (simp add: delivered_dev_def queued_dev_queues)
  show "rtd_ids delivered_dev = {#1#}" by (simp add: rtd_ids_def item_id_def delivered_dev_def queued_dev_def filled_dev_def)
qed


end
