(* ===== verification/Utils.thy ===== *)
theory Utils
  imports Mempool "HOL-Library.Sublist"
begin

text \<open>
  Utilities shared by module and helper: the log function (\<^verbatim>\<open>kgpu/src/kgpu_log.c\<close>, \<^verbatim>\<open>include/kgpu_log.h\<close>), the page
  lookup of \<^verbatim>\<open>kgpu/src/kgpu_kutils.c\<close> that fills the buffer pool's page array, and the messages of
  \<^verbatim>\<open>kgpu/src/utils/errorOpenCl.c\<close>. Output is the string that is printed.
\<close>

section \<open>Decimal numbers\<close>

fun dec_nat :: "nat \<Rightarrow> string" where
  "dec_nat n = (if n < 10 then [char_of (48 + n)] else dec_nat (n div 10) @ [char_of (48 + n mod 10)])"

declare dec_nat.simps [simp del]

text \<open>What \<open>%d\<close> prints.\<close>

definition dec_int :: "int \<Rightarrow> string" where
  "dec_int i = (if i < 0 then ''-'' @ dec_nat (nat (- i)) else dec_nat (nat i))"

text \<open>\<open>atoi\<close>: white space, an optional sign, digits up to the first other character.\<close>

fun atoi_digits :: "int \<Rightarrow> string \<Rightarrow> int" where
  "atoi_digits v [] = v"
| "atoi_digits v (c # cs) =
     (if 48 \<le> (of_char c :: nat) \<and> (of_char c :: nat) \<le> 57 then atoi_digits (10 * v + (int (of_char c) - 48)) cs else v)"

fun atoi :: "string \<Rightarrow> int" where
  "atoi [] = 0"
| "atoi (c # cs) =
     (if of_char c = (32 :: nat) \<or> 9 \<le> (of_char c :: nat) \<and> (of_char c :: nat) \<le> 13 then atoi cs
      else if c = CHR ''-'' then - atoi_digits 0 cs
      else if c = CHR ''+'' then atoi_digits 0 cs
      else atoi_digits 0 (c # cs))"

section \<open>Logging\<close>

definition KGPU_LOG_INFO :: int where "KGPU_LOG_INFO = 1"

definition KGPU_LOG_DEBUG :: int where "KGPU_LOG_DEBUG = 2"

definition KGPU_LOG_ALERT :: int where "KGPU_LOG_ALERT = 3"

definition KGPU_LOG_ERROR :: int where "KGPU_LOG_ERROR = 4"

definition KGPU_LOG_PRINT :: int where "KGPU_LOG_PRINT = 5"

lemmas log_levels = KGPU_LOG_INFO_def KGPU_LOG_DEBUG_def KGPU_LOG_ALERT_def KGPU_LOG_ERROR_def KGPU_LOG_PRINT_def

text \<open>\<open>__FILE_NAME__\<close>: what follows the last slash of \<open>__FILE__\<close> (\<open>strrchr\<close>), or all of it.\<close>

fun strrchr :: "string \<Rightarrow> char \<Rightarrow> string option" where
  "strrchr [] c = None"
| "strrchr (x # xs) c = (case strrchr xs c of Some t \<Rightarrow> Some t | None \<Rightarrow> if x = c then Some (x # xs) else None)"

definition FILE_NAME :: "string \<Rightarrow> string" where
  "FILE_NAME path = (case strrchr path CHR ''/'' of Some t \<Rightarrow> tl t | None \<Rightarrow> path)"

text \<open>
  \<open>kgpu_generic_log\<close>; \<open>level\<close> is the variable \<open>kgpu_log_level\<close> and \<open>msg\<close> what \<open>vprintk\<close> makes of the format and the arguments.
\<close>

definition log_tag :: "int \<Rightarrow> string option" where
  "log_tag pLevel =
     (if pLevel = KGPU_LOG_INFO then Some ''() INFO: ''
      else if pLevel = KGPU_LOG_DEBUG then Some ''() DEBUG: ''
      else if pLevel = KGPU_LOG_ALERT then Some ''() ALERT: ''
      else if pLevel = KGPU_LOG_ERROR then Some ''() ERROR: ''
      else if pLevel = KGPU_LOG_PRINT then Some ''(): ''
      else None)"

definition kgpu_generic_log :: "int \<Rightarrow> int \<Rightarrow> string \<Rightarrow> string \<Rightarrow> int \<Rightarrow> string \<Rightarrow> string \<Rightarrow> string" where
  "kgpu_generic_log level pLevel pModule pFilename pLineno pFunction msg =
     (if pLevel < level then []
      else (case log_tag pLevel of
              Some t \<Rightarrow> ''['' @ pModule @ ''] '' @ pFilename @ ''::'' @ dec_int pLineno @ '' '' @ pFunction @ t
            | None \<Rightarrow> []) @ msg)"

definition kgpu_do_log :: "int \<Rightarrow> int \<Rightarrow> string \<Rightarrow> string \<Rightarrow> int \<Rightarrow> string \<Rightarrow> string \<Rightarrow> string" where
  "kgpu_do_log level pLevel pModule path pLineno pFunction msg =
     kgpu_generic_log level pLevel pModule (FILE_NAME path) pLineno pFunction msg"

section \<open>Page lookup\<close>

text \<open>The kernel's page table accessors, by the types of the entries of the four levels.\<close>

record ('pgd, 'pud, 'pmd, 'pte) page_tables =
  pgd_offset :: "ulong \<Rightarrow> 'pgd"
  pgd_none :: "'pgd \<Rightarrow> bool"
  pud_offset :: "'pgd \<Rightarrow> ulong \<Rightarrow> 'pud"
  pud_none :: "'pud \<Rightarrow> bool"
  pmd_offset :: "'pud \<Rightarrow> ulong \<Rightarrow> 'pmd"
  pmd_none :: "'pmd \<Rightarrow> bool"
  pte_offset_map :: "'pmd \<Rightarrow> ulong \<Rightarrow> 'pte"
  pte_present :: "'pte \<Rightarrow> bool"
  pte_page :: "'pte \<Rightarrow> page"

definition kgpu_v2page :: "('pgd, 'pud, 'pmd, 'pte) page_tables \<Rightarrow> ulong \<Rightarrow> page option" where
  "kgpu_v2page pt v =
     (let pgd = pgd_offset pt v in
      if \<not> pgd_none pt pgd then
        let pud = pud_offset pt pgd v in
        if \<not> pud_none pt pud then
          let pmd = pmd_offset pt pud v in
          if \<not> pmd_none pt pmd then
            let pte = pte_offset_map pt pmd v in
            if pte_present pt pte then Some (pte_page pt pte) else None
          else None
        else None
      else None)"

section \<open>OpenCL error messages\<close>

text \<open>The codes of the OpenCL header, in the order of the table.\<close>

record cl_codes =
  CL_INVALID_PLATFORM :: int
  CL_DEVICE_NOT_FOUND :: int
  CL_INVALID_DEVICE_TYPE :: int
  CL_INVALID_CONTEXT :: int
  CL_INVALID_VALUE :: int
  CL_INVALID_COMMAND_QUEUE :: int
  CL_OUT_OF_RESOURCES :: int
  CL_INVALID_BUFFER_SIZE :: int
  CL_INVALID_HOST_PTR :: int
  CL_INVALID_MEM_OBJECT :: int
  CL_MEM_OBJECT_ALLOCATION_FAILURE :: int
  CL_OUT_OF_HOST_MEMORY :: int

definition errorMessages :: "cl_codes \<Rightarrow> (int \<times> string option) list" where
  "errorMessages cl =
     [(- 999, Some ''No space on host for allocate the basic structure.''),
      (CL_INVALID_PLATFORM cl, Some ''Not a valid platform.''),
      (CL_DEVICE_NOT_FOUND cl, Some ''No OpenCL devices that matched device were found''),
      (CL_INVALID_DEVICE_TYPE cl, Some ''Is not a valid value.''),
      (CL_INVALID_CONTEXT cl, Some ''The context is invalid.''),
      (CL_INVALID_VALUE cl, Some ''Invalid value.''),
      (CL_INVALID_COMMAND_QUEUE cl, Some ''Not a valid command queue''),
      (CL_OUT_OF_RESOURCES cl, Some (''Failure to allocate resources required by the OpenCL'' @ ''implementation on the device'')),
      (CL_INVALID_BUFFER_SIZE cl, Some ''Invalid buffer size.''),
      (CL_INVALID_HOST_PTR cl, Some ''Invalid host pointer.''),
      (CL_INVALID_MEM_OBJECT cl, Some ''Not a valid memory object.''),
      (CL_MEM_OBJECT_ALLOCATION_FAILURE cl, Some ''Problem when try to allocate memory.''),
      (CL_OUT_OF_HOST_MEMORY cl, Some ''Out of host memory.''),
      (0, None)]"

text \<open>The loop ends at the entry without a message.\<close>

fun print_messages :: "int \<Rightarrow> (int \<times> string option) list \<Rightarrow> fault + string" where
  "print_messages pCode [] = Inl OutOfBounds"
| "print_messages pCode ((c, None) # es) = Inr []"
| "print_messages pCode ((c, Some m) # es) =
     andThen (print_messages pCode es) (\<lambda>out.
     Inr ((if c = pCode then '' '' @ m @ '' ('' @ dec_int pCode @ '') '' @ [CHR 0x0A] else []) @ out))"

definition printErrorMessage :: "cl_codes \<Rightarrow> int \<Rightarrow> fault + string" where
  "printErrorMessage cl pCode =
     andThen (print_messages pCode (errorMessages cl)) (\<lambda>out. Inr (''Error code: '' @ dec_int pCode @ [CHR 0x0A] @ out))"

section \<open>Lemmas\<close>

lemma dec_nat_digits: "c \<in> set (dec_nat n) \<Longrightarrow> 48 \<le> (of_char c :: nat) \<and> (of_char c :: nat) \<le> 57"
proof (induction n rule: dec_nat.induct)
  case (1 n)
  show ?case
  proof (cases "n < 10")
    case True
    then show ?thesis using "1.prems" by (simp add: dec_nat.simps[of n])
  next
    case False
    then have "c \<in> set (dec_nat (n div 10)) \<or> c = char_of (48 + n mod 10)" using "1.prems" by (auto simp: dec_nat.simps[of n])
    moreover have "of_char (char_of (48 + n mod 10) :: char) = 48 + n mod 10" by simp
    ultimately show ?thesis using "1.IH"[OF False] by auto
  qed
qed

lemma atoi_digits_append:
  "\<forall>c \<in> set xs. 48 \<le> (of_char c :: nat) \<and> (of_char c :: nat) \<le> 57 \<Longrightarrow> atoi_digits v (xs @ ys) = atoi_digits (atoi_digits v xs) ys"
  by (induction xs arbitrary: v) auto

lemma atoi_digits_dec: "atoi_digits 0 (dec_nat n) = int n"
proof (induction n rule: dec_nat.induct)
  case (1 n)
  show ?case
  proof (cases "n < 10")
    case True
    then show ?thesis by (simp add: dec_nat.simps[of n])
  next
    case False
    have "atoi_digits 0 (dec_nat n) = atoi_digits (atoi_digits 0 (dec_nat (n div 10))) [char_of (48 + n mod 10)]"
      using False dec_nat_digits by (simp add: dec_nat.simps[of n] atoi_digits_append)
    also have "\<dots> = 10 * int (n div 10) + int (n mod 10)" using "1.IH"[OF False] by simp
    also have "\<dots> = int n" by (metis mult_div_mod_eq of_nat_add of_nat_mult of_nat_numeral)
    finally show ?thesis .
  qed
qed

lemma dec_nat_Cons: "\<exists>c cs. dec_nat n = c # cs \<and> 48 \<le> (of_char c :: nat) \<and> (of_char c :: nat) \<le> 57"
proof -
  have "dec_nat n \<noteq> []" by (simp add: dec_nat.simps[of n])
  then obtain c cs where "dec_nat n = c # cs" by (cases "dec_nat n") auto
  then show ?thesis using dec_nat_digits[of c n] by auto
qed

text \<open>\<open>FILE_NAME\<close> is the longest suffix without a slash.\<close>

lemma strrchr_spec:
  "case strrchr s c of None \<Rightarrow> c \<notin> set s | Some t \<Rightarrow> \<exists>pre. s = pre @ t \<and> t \<noteq> [] \<and> hd t = c \<and> c \<notin> set (tl t)"
proof (induction s)
  case (Cons x xs)
  then show ?case by (cases "strrchr xs c") (auto intro: exI[of _ "x # _"])
qed simp

lemma file_name_longest:
  "suffix (FILE_NAME path) path \<and> CHR ''/'' \<notin> set (FILE_NAME path) \<and>
   (\<forall>t. suffix t path \<longrightarrow> CHR ''/'' \<notin> set t \<longrightarrow> suffix t (FILE_NAME path))"
proof (cases "strrchr path CHR ''/''")
  case None
  then show ?thesis using strrchr_spec[where s = path and c = "CHR ''/''"] by (simp add: FILE_NAME_def)
next
  case (Some u)
  obtain pre rest where u: "path = pre @ CHR ''/'' # rest" "u = CHR ''/'' # rest" "CHR ''/'' \<notin> set rest"
    using strrchr_spec[where s = path and c = "CHR ''/''"] Some by (cases u) auto
  have "suffix t rest" if t: "suffix t path" "CHR ''/'' \<notin> set t" for t
  proof (rule ccontr)
    assume "\<not> suffix t rest"
    moreover have "suffix rest path" using u(1) by (auto simp: suffix_def)
    ultimately have "suffix (CHR ''/'' # rest) t"
      using suffix_same_cases[OF t(1), of "CHR ''/'' # rest"] u(1) by (auto simp: suffix_def Cons_eq_append_conv)
    then show False using t(2) by (auto simp: suffix_def)
  qed
  then show ?thesis using Some u by (auto simp: FILE_NAME_def suffix_def)
qed

text \<open>\<open>printErrorMessage\<close> stays within the table; a code that is in the table once gets its message once.\<close>

lemma print_messages_ends:
  "(c, None) \<in> set es \<Longrightarrow> \<exists>out. print_messages pCode es = Inr out"
  by (induction pCode es rule: print_messages.induct) auto

lemma printErrorMessage_ends: "\<exists>out. printErrorMessage cl pCode = Inr (''Error code: '' @ dec_int pCode @ [CHR 0x0A] @ out)"
proof -
  have "(0, None) \<in> set (errorMessages cl)" by (simp add: errorMessages_def)
  then obtain out where "print_messages pCode (errorMessages cl) = Inr out" using print_messages_ends by blast
  then show ?thesis by (simp add: printErrorMessage_def)
qed

text \<open>
  \<open>kgpu_v2page\<close> finds a page exactly when all four levels of the table have an entry. \<open>set_gpu_mempool\<close> stores what it finds, also the null pointer for an
  address that is not mapped, and returns 0.
\<close>

lemma v2page_Some_iff:
  "(\<exists>p. kgpu_v2page pt v = Some p) \<longleftrightarrow>
    (let pgd = pgd_offset pt v; pud = pud_offset pt pgd v; pmd = pmd_offset pt pud v in
     \<not> pgd_none pt pgd \<and> \<not> pud_none pt pud \<and> \<not> pmd_none pt pmd \<and> pte_present pt (pte_offset_map pt pmd v))"
  by (simp add: kgpu_v2page_def Let_def)

lemma unmapped_page_accepted:
  assumes "kgpu_v2page pt (0x7000000 + 3 * PAGE_SIZE) = None"
  shows "\<exists>gm ps. set_gpu_mempool ref_bitmap ((sample_env [0, 0])\<lparr>v2page := kgpu_v2page pt\<rparr>) 0x7000000 KGPU_BUF_SIZE empty_mempool = Inr (0, gm) \<and>
    pages gm = Some ps \<and> length ps = 512 \<and> ps ! 3 = None"
proof -
  let ?env = "(sample_env [0, 0])\<lparr>v2page := kgpu_v2page pt\<rparr>"
  have sz: "unat KGPU_BUF_SIZE < 2 ^ 44" "512 = unat KGPU_BUF_SIZE div 4096" "2 = unat KGPU_BUF_SIZE div 2 ^ 20" by (simp_all add: kgpu_consts)
  have "\<exists>gm. set_gpu_mempool ref_bitmap ?env 0x7000000 KGPU_BUF_SIZE empty_mempool = Inr (0, gm) \<and> pool_inv gm \<and>
      pool_blocks gm = Map.empty \<and> unat (nunits gm) = 2 \<and> unat (npages gm) = 512 \<and> uva gm = 0x7000000 \<and>
      pages gm = Some (map (\<lambda>i. v2page ?env (0x7000000 + of_nat i * PAGE_SIZE)) [0 ..< 512])"
    by (rule bitmap_lib.set_gpu_mempool_ready[OF ref_bm.bitmap_lib_axioms sz(1) _ _ _ sz(2,3), where ps = "replicate 512 None" and bits = "replicate 64 True" and sizes = "[0, 0]"])
      (simp_all add: empty_mempool_def sample_env_def bits_to_longs_def)
  then show ?thesis using assms by (elim exE conjE) (intro exI conjI, assumption+, simp_all)
qed

section \<open>Properties\<close>

text \<open>
  Numbers survive printing and reading: \<open>atoi\<close>, with which \<open>main\<close> reads the argument of \<open>-v\<close>, applied to what \<open>%d\<close> prints
  for a number gives the number, whatever follows it that is not a digit.
\<close>

theorem atoi_dec_roundtrip:
  assumes "rest = [] \<or> \<not> (48 \<le> (of_char (hd rest) :: nat) \<and> (of_char (hd rest) :: nat) \<le> 57)"
  shows "atoi (dec_int i @ rest) = i"
proof -
  have d: "atoi_digits 0 (dec_nat n @ rest) = int n" for n
  proof -
    have "atoi_digits v rest = v" for v using assms by (cases rest) auto
    then show ?thesis using dec_nat_digits atoi_digits_dec[of n] by (simp add: atoi_digits_append)
  qed
  obtain c cs where c: "dec_nat (nat i) = c # cs" "48 \<le> (of_char c :: nat)" using dec_nat_Cons by blast
  have "c \<noteq> CHR ''-''" "c \<noteq> CHR ''+''" using c(2) by auto
  then have "0 \<le> i \<Longrightarrow> atoi (dec_nat (nat i) @ rest) = i" using d[of "nat i"] c by simp
  moreover have "i < 0 \<Longrightarrow> atoi (''-'' @ dec_nat (nat (- i)) @ rest) = i" using d[of "nat (- i)"] by simp
  ultimately show ?thesis by (cases "i < 0") (simp_all add: dec_int_def)
qed

theorem atoi_dec_roundtrip_witness: "atoi (dec_int (- 340) @ ''x'') = - 340 \<and> dec_int (- 340) = ''-340''"
proof -
  have "atoi (dec_int (- 340) @ ''x'') = - 340" by (rule atoi_dec_roundtrip) simp
  moreover have "dec_int (- 340) = ''-340''" by code_simp
  ultimately show ?thesis by blast
qed

end
