(* ===== verification/Startup.thy ===== *)
theory Startup
  imports System Utils
begin

text \<open>
  Start-up and shutdown of the helper (\<^verbatim>\<open>kgpu/src/userSpace/helper.c\<close>: \<open>main\<close>, \<open>kh_init\<close>, \<open>kh_finit\<close>) against the
  module's \<open>open\<close>, \<open>mmap\<close>, \<open>ioctl\<close> and \<open>release\<close>. The result is the state in which the runs of \<open>System\<close> begin.
\<close>

section \<open>Options\<close>

record helper_opts =
  kgpudev_path :: string
  service_lib_dir :: string
  log_level :: int

definition default_opts :: helper_opts where
  "default_opts = \<lparr>kgpudev_path = ''/dev/kgpu'', service_lib_dir = ''./'', log_level = KGPU_LOG_DEBUG\<rparr>"

text \<open>The loop of \<open>main\<close> over what \<open>getopt\<close> returns, option and argument; \<open>None\<close> is the exit after the usage message.\<close>

fun parse_opts :: "(char \<times> string) list \<Rightarrow> helper_opts \<Rightarrow> helper_opts option" where
  "parse_opts [] opts = Some opts"
| "parse_opts ((c, optarg) # rest) opts =
     (if c = CHR ''d'' then parse_opts rest (opts\<lparr>kgpudev_path := optarg\<rparr>)
      else if c = CHR ''l'' then parse_opts rest (opts\<lparr>service_lib_dir := optarg\<rparr>)
      else if c = CHR ''v'' then parse_opts rest (opts\<lparr>log_level := atoi optarg\<rparr>)
      else None)"

section \<open>Set-up and release\<close>

text \<open>The functions of a back end that set it up, beside those of \<open>gpu_backend\<close>.\<close>

record 'x gpu_setup =
  su_alloc_pinned :: "ulong \<Rightarrow> 'x gpu_common_scheme \<Rightarrow> fault + (ulong option \<times> 'x gpu_common_scheme)"
  su_init :: "'x gpu_common_scheme \<Rightarrow> fault + 'x gpu_common_scheme"
  su_finit :: "'x gpu_common_scheme \<Rightarrow> fault + 'x gpu_common_scheme"
  su_free_pinned :: "ulong \<Rightarrow> 'x gpu_common_scheme \<Rightarrow> fault + 'x gpu_common_scheme"

text \<open>\<open>gpu_free_pinned_mem\<close> of the OpenCL back end drops the result of \<open>clReleaseMemObject\<close>.\<close>

definition gpu_free_pinned_mem :: "ulong \<Rightarrow> gpu_state \<Rightarrow> gpu_state" where
  "gpu_free_pinned_mem memory gs = gs"

definition opencl_setup :: "cl_answers \<Rightarrow> unit gpu_state_ext gpu_setup" where
  "opencl_setup cl = \<lparr>su_alloc_pinned = gpu_alloc_pinned_mem cl, su_init = gpu_init cl, su_finit = gpu_finit cl,
     su_free_pinned = (\<lambda>p gs. Inr (gpu_free_pinned_mem p gs))\<rparr>"

definition cuda_setup :: "cuda_driver \<Rightarrow> unit cuda_state_ext gpu_setup" where
  "cuda_setup drv = \<lparr>su_alloc_pinned = (\<lambda>sz gs. andThen (cuda_alloc_pinned_mem drv sz) (\<lambda>p. Inr (Some p, gs))),
     su_init = cuda_gpu_init drv, su_finit = cuda_gpu_finit drv,
     su_free_pinned = (\<lambda>p gs. andThen (cuda_free_pinned_mem drv p) (\<lambda>_. Inr gs))\<rparr>"

text \<open>
  What start-up gets from its surroundings: whether a path is the module's device node, what an uninitialised return
  value holds, which memory can be written, the result of \<open>mlock\<close>, the address range found for \<open>mmap\<close> (\<open>None\<close>: there is
  none), the arrays \<open>kmalloc\<close> gives \<open>kgpu_mmap\<close>, and the kernel's and the process's side of the \<open>ioctl\<close>.
\<close>

record startup_env =
  is_kgpu :: "string \<Rightarrow> bool"
  garbage :: ulong
  writable :: "ulong \<Rightarrow> ulong \<Rightarrow> bool"
  mlock_ret :: "ulong \<Rightarrow> ulong \<Rightarrow> int"
  mmap_base :: "ulong option"
  mmap_sz :: "u32 list option"
  mmap_bits :: "bool list option"
  pool_kernel :: pool_env
  hostbuf_addr :: ulong
  user_access :: "bool \<Rightarrow> ulong \<Rightarrow> u32 \<Rightarrow> bool"

definition mapping_of :: "ulong \<Rightarrow> vm_area" where
  "mapping_of base = \<lparr>vm_start = base, vm_end = base + KGPU_BUF_SIZE, vm_flags = {}, vm_ops = DefaultOps, vm_ptes = Map.empty\<rparr>"

definition kh_init :: "bitmap_ops \<Rightarrow> 'x gpu_setup \<Rightarrow> startup_env \<Rightarrow> string \<Rightarrow> kgpu_dev \<times> 'x gpu_common_scheme \<Rightarrow>
  fault + (int \<times> kgpu_dev \<times> 'x gpu_common_scheme)" where
  "kh_init bm su env path s =
     andThen (if is_kgpu env path then Inr (kgpu_open (fst s)) else Inl Aborted) (\<lambda>(devfd, dev1).
     andThen (safe_syscall devfd) (\<lambda>_.
     andThen (su_alloc_pinned su (KGPU_BUF_SIZE + PAGE_SIZE) (snd s)) (\<lambda>(q, g1).
     let pinnedMemory = (case q of None \<Rightarrow> garbage env | Some a \<Rightarrow> a);
         g2 = g1\<lparr>hostbuf := \<lparr>mi_uva = pinnedMemory, mi_size = KGPU_BUF_SIZE\<rparr>\<rparr> in
     if pinnedMemory = 0 then Inl NullDeref
     else if \<not> writable env pinnedMemory KGPU_BUF_SIZE then Inl OutOfBounds
     else
       andThen (safe_syscall (mlock_ret env pinnedMemory KGPU_BUF_SIZE)) (\<lambda>_.
       andThen (su_init su g2) (\<lambda>g3.
       case mmap_base env of
         None \<Rightarrow> Inl Aborted
       | Some base \<Rightarrow>
           andThen (kgpu_mmap bm (mmap_sz env) (mmap_bits env) (mapping_of base) (vm dev1)) (\<lambda>(r, w).
           if r < 0 then Inl Aborted
           else
             let g4 = g3\<lparr>hostvma := \<lparr>mi_uva = base, mi_size = KGPU_BUF_SIZE\<rparr>\<rparr>;
                 usr = \<lparr>access_ok = user_access env, user_mem_info = (\<lambda>a. hostbuf g4)\<rparr> in
             andThen (kgpu_ioctl bm (pool_kernel env) usr KGPU_IOC_SET_GPU_BUFS (hostbuf_addr env) (dev1\<lparr>vm := w\<rparr>)) (\<lambda>(r, dev2).
             if r < 0 then Inl Aborted else Inr (0, dev2, g4))))))))"

definition kh_finit :: "bitmap_ops \<Rightarrow> 'x gpu_setup \<Rightarrow> startup_env \<Rightarrow> kgpu_dev \<times> 'x gpu_common_scheme \<Rightarrow>
  fault + (int \<times> kgpu_dev \<times> 'x gpu_common_scheme)" where
  "kh_finit bm su env s =
     andThen (kgpu_ioctl bm (pool_kernel env) \<lparr>access_ok = user_access env, user_mem_info = (\<lambda>a. hostbuf (snd s))\<rparr>
       KGPU_IOC_SET_STOP 0 (fst s)) (\<lambda>(_, dev1).
     let (_, dev2) = kgpu_release dev1 in
     andThen (su_finit su (snd s)) (\<lambda>g1.
     andThen (su_free_pinned su (mi_uva (hostbuf g1)) g1) (\<lambda>g2. Inr (0, dev2, g2))))"

text \<open>
  \<open>main\<close> up to the main loop: \<open>None\<close> when it exits with the usage message, else the module and the helper at the
  start of \<open>kh_main_loop\<close>. \<open>glb\<close> is \<open>glob\<close>; the pattern is cut to the 255 characters of the buffer. The loop itself is
  \<open>kh_main_loop\<close>; nothing in the program clears \<open>kh_loop_continue\<close>, so \<open>kh_finit\<close> is reached only if something else does.
\<close>

definition lib_pattern :: "string \<Rightarrow> string" where
  "lib_pattern dir = take 255 (dir @ ''/libsrv_*'')"

definition main_start :: "bitmap_ops \<Rightarrow> 'x gpu_setup \<Rightarrow> startup_env \<Rightarrow> linker \<Rightarrow> (string \<Rightarrow> string list) \<Rightarrow>
  (char \<times> string) list \<Rightarrow> registry \<Rightarrow> kgpu_dev \<times> 'x gpu_common_scheme \<Rightarrow> (kgpu_dev \<times> 'x helper) option run" where
  "main_start bm su env dl glb args rg s =
     (case parse_opts args default_opts of
        None \<Rightarrow> Some (Inr None)
      | Some opts \<Rightarrow>
          bindO (Some (kh_init bm su env (kgpudev_path opts) s)) (\<lambda>(_, dev1, g1).
          bindO (kh_load_all_services dl (glb (lib_pattern (service_lib_dir opts))) rg) (\<lambda>(_, rg1).
          Some (Inr (Some (dev1, start_helper g1 rg1))))))"

section \<open>What start-up relies on\<close>

definition streams_idle :: "'x gpu_common_scheme \<Rightarrow> bool" where
  "streams_idle g \<longleftrightarrow> streams_ok g \<and> busy_streams g = {}"

lemma streams_idle_iff: "streams_idle g \<longleftrightarrow> length (streams g) = MAX_STREAM_NR \<and> streamuses g = replicate MAX_STREAM_NR 0"
  by (auto simp: streams_idle_def streams_ok_def busy_streams_def list_eq_iff_nth_eq)

text \<open>A back end that is set up: the streams are free and the helper's buffer is where it was.\<close>

locale gpu_start =
  fixes su :: "'x gpu_setup"
  assumes pinned_law: "su_alloc_pinned su sz g = Inr (q, g') \<Longrightarrow> streams_idle g \<Longrightarrow> streams_idle g'"
    and init_law: "su_init su g = Inr g' \<Longrightarrow> streams_idle g \<Longrightarrow> streams_idle g' \<and> hostbuf g' = hostbuf g"

definition same_streams :: "'x gpu_common_scheme \<Rightarrow> 'x gpu_common_scheme \<Rightarrow> bool" where
  "same_streams g g' \<longleftrightarrow> streams g' = streams g \<and> streamuses g' = streamuses g \<and> hostbuf g' = hostbuf g"

lemma same_streams_trans [trans]: "same_streams g g' \<Longrightarrow> same_streams g' g'' \<Longrightarrow> same_streams g g''"
  by (simp add: same_streams_def)

lemma same_streams_refl [simp]: "same_streams g g"
  by (simp add: same_streams_def)

lemma cl_free_same: "cl_free q g = Inr g' \<Longrightarrow> same_streams g g'"
  by (auto simp: cl_free_def same_streams_def split: option.splits if_splits)

lemma initializePlatform_same: "initializePlatform cl g = (st, q, g') \<Longrightarrow> same_streams g g'"
  by (auto simp: initializePlatform_def cl_alloc_def same_streams_def split: if_splits)

lemma initializeDevice_same: "initializeDevice cl g = (st, g') \<Longrightarrow> same_streams g g'"
  by (auto simp: initializeDevice_def cl_alloc_def same_streams_def split: if_splits)

lemma initializeOpenCL_same:
  assumes "initializeOpenCL cl g = Inr (st, g')"
  shows "same_streams g g'"
proof -
  obtain g0 where g0: "(if openCLData g \<noteq> None then cl_free (openCLData g) g else Inr g) = Inr g0"
    using assms by (auto simp: initializeOpenCL_def andThen_eq_Inr)
  have s0: "same_streams g g0" using g0 cl_free_same by (auto simp: same_streams_def split: if_splits)
  define g2 where "g2 = g0\<lparr>cl_next := Suc (cl_next g0), cl_live := insert (cl_next g0) (cl_live g0), openCLData := Some (cl_next g0)\<rparr>"
  obtain s3 pl g3 where p: "initializePlatform cl g2 = (s3, pl, g3)" by (cases "initializePlatform cl g2")
  obtain s4 g4 where d: "initializeDevice cl g3 = (s4, g4)" by fastforce
  have s2: "same_streams g0 g2" by (simp add: g2_def same_streams_def)
  have s4: "same_streams g0 g3" "same_streams g0 g4"
    using s2 initializePlatform_same[OF p] initializeDevice_same[OF d] same_streams_trans by blast+
  have "same_streams g0 g'"
  proof (cases "malloc_data cl")
    case False
    then show ?thesis using assms g0 by (auto simp: initializeOpenCL_def same_streams_def)
  next
    case True
    have "\<exists>gx. (gx = g3 \<or> gx = g4) \<and> same_streams gx g'"
      using assms g0 True p d
      by (auto simp: initializeOpenCL_def cl_alloc_def initializeContext_def andThen_eq_Inr Let_def g2_def[symmetric]
          split: if_splits prod.splits dest!: cl_free_same intro: same_streams_trans same_streams_refl)
    then show ?thesis using s4 same_streams_trans by blast
  qed
  with s0 show ?thesis by (rule same_streams_trans)
qed

lemma idle_same: "same_streams g g' \<Longrightarrow> streams_idle g \<Longrightarrow> streams_idle g' \<and> hostbuf g' = hostbuf g"
  by (simp add: same_streams_def streams_idle_iff)

interpretation opencl_start: gpu_start "opencl_setup cl" for cl
proof
  fix sz and g g' :: gpu_state and q
  assume "su_alloc_pinned (opencl_setup cl) sz g = Inr (q, g')" and i: "streams_idle g"
  then have "same_streams g g'"
    by (auto simp: opencl_setup_def gpu_alloc_pinned_mem_def andThen_eq_Inr same_streams_def dest!: initializeOpenCL_same split: if_splits)
  then show "streams_idle g'" using idle_same i by blast
next
  fix g g' :: gpu_state
  assume a: "su_init (opencl_setup cl) g = Inr g'" and i: "streams_idle g"
  obtain st g1 where m: "(if initialized g = 0
              then andThen (initializeOpenCL cl g) (\<lambda>(status, gs1).
                   Inr (status, if status = CL_SUCCESS then gs1\<lparr>initialized := 1\<rparr> else gs1))
              else Inr (CL_SUCCESS, g)) = Inr (st, g1)" (is "?m = _")
    using a by (cases ?m) (auto simp: opencl_setup_def gpu_init_def)
  have "same_streams g g1"
  proof (cases "initialized g = 0")
    case True
    then obtain st0 g0 where "initializeOpenCL cl g = Inr (st0, g0)" "g1 = (if st0 = CL_SUCCESS then g0\<lparr>initialized := 1\<rparr> else g0)"
      using m by (auto simp: andThen_eq_Inr)
    then show ?thesis using initializeOpenCL_same by (auto simp: same_streams_def)
  qed (use m in simp)
  then have g1: "streams_idle g1 \<and> hostbuf g1 = hostbuf g" using idle_same i by blast
  show "streams_idle g' \<and> hostbuf g' = hostbuf g"
    using a m g1 by (cases "cl_deref g1") (auto simp: opencl_setup_def gpu_init_def streams_idle_iff Let_def split: if_splits)
qed

lemma create_streams_idle:
  assumes "create_streams drv i k g = Inr g'" and "length (streams g) = MAX_STREAM_NR" and "streamuses g = replicate MAX_STREAM_NR 0"
  shows "streams_idle g' \<and> hostbuf g' = hostbuf g"
  using assms
proof (induction drv i k g rule: create_streams.induct)
  case (2 drv i k g)
  obtain e s where "cudaStreamCreate drv i = (e, s)" by fastforce
  moreover have "(replicate n (0 :: int))[i := 0] = replicate n 0" for n by (cases "i < n") (auto simp: list_eq_iff_nth_eq nth_list_update)
  ultimately show ?case using 2 by (auto simp: andThen_eq_Inr)
qed (simp add: streams_idle_iff)

interpretation cuda_start: gpu_start "cuda_setup drv" for drv
proof
  fix sz and g g' :: cuda_state and q
  assume "su_alloc_pinned (cuda_setup drv) sz g = Inr (q, g')" and "streams_idle g"
  then show "streams_idle g'" by (auto simp: cuda_setup_def andThen_eq_Inr)
next
  fix g g' :: cuda_state
  assume "su_init (cuda_setup drv) g = Inr g'" and "streams_idle g"
  then show "streams_idle g' \<and> hostbuf g' = hostbuf g"
    by (auto simp: cuda_setup_def cuda_gpu_init_def alloc_dev_mem_def andThen_eq_Inr streams_idle_iff[of g] Let_def
        split: prod.splits dest!: create_streams_idle)
qed

text \<open>
  The libraries found at start-up: \<open>init_service\<close> ends without a fault and leaves a registry that is a list of
  services which keep their contract.
\<close>

definition libs_ok :: "registry \<Rightarrow> bool" where
  "libs_ok r \<longleftrightarrow> (\<exists>xs. registered r xs) \<and> (\<forall>s. service_plugin (service_at r s))"

locale service_libs =
  fixes dl :: linker
  assumes init_law: "dl_init dl lh = Some f \<Longrightarrow> libs_ok r \<Longrightarrow> \<exists>e r'. f r = Some (Inr (e, r')) \<and> libs_ok r'"
begin

lemma load_law: "libs_ok r \<Longrightarrow> \<exists>e r'. kh_load_service dl p r = Some (Inr (e, r')) \<and> libs_ok r'"
proof (cases "dlopen dl p")
  case (Some lh)
  assume ok: "libs_ok r"
  have o: "libs_ok (r\<lparr>open_libs := l\<rparr>)" if "libs_ok r" for l r using that by (simp add: libs_ok_def registered_def)
  show ?thesis
  proof (cases "dl_init dl lh")
    case None
    then show ?thesis using Some ok o by (simp add: kh_load_service_def dlclose_def)
  next
    case (Some f)
    obtain e r' where "f (r\<lparr>open_libs := lh # open_libs r\<rparr>) = Some (Inr (e, r'))" "libs_ok r'"
      using init_law[OF Some o[OF ok]] by blast
    then show ?thesis using \<open>dlopen dl p = Some lh\<close> Some o by (auto simp: kh_load_service_def dlclose_def)
  qed
qed (simp add: kh_load_service_def)

lemma load_all_law: "libs_ok r \<Longrightarrow> \<exists>e r'. kh_load_all_services dl ps r = Some (Inr (e, r')) \<and> libs_ok r'"
proof (induction ps arbitrary: r)
  case (Cons p ps)
  obtain e r1 where 1: "kh_load_service dl p r = Some (Inr (e, r1))" "libs_ok r1" using load_law[OF Cons.prems] by blast
  show ?case using Cons.IH[OF 1(2)] 1(1) by auto
qed simp

end

text \<open>The test library, linked into a process whose \<open>malloc\<close> has room for one item.\<close>

definition one_item :: "registry \<Rightarrow> nat option" where
  "one_item r = (if alive (sheap r) (SItem 0) then None else Some 0)"

definition srv_linker :: linker where
  "srv_linker = \<lparr>dlopen = (\<lambda>p. if p = ''./libsrv_test.so'' then Some 7 else None),
     dl_init = (\<lambda>lh. Some (\<lambda>r. init_service (one_item r) 2 lh r)), dl_finit = (\<lambda>lh. Some finit_service)\<rparr>"

interpretation srv: service_libs srv_linker
proof
  fix lh f r
  assume f: "dl_init srv_linker lh = Some f" and ok: "libs_ok r"
  let ?r = "r\<lparr>service_at := (service_at r)(2 := empty_srv)\<rparr>"
  have pl: "service_plugin (service_at ?r s)" for s using ok empty_service.service_plugin_axioms by (simp add: libs_ok_def)
  obtain xs where xs: "registered ?r xs" using ok by (auto simp: libs_ok_def registered_def)
  have f': "f r = Some (kh_register_service (one_item r) (Some 2) (Some lh) ?r)"
    using f by (auto simp: srv_linker_def init_service_def)
  show "\<exists>e r'. f r = Some (Inr (e, r')) \<and> libs_ok r'"
  proof (cases "alive (sheap r) (SItem 0)")
    case True
    then show ?thesis using f' xs pl by (auto simp: kh_register_service_def one_item_def libs_ok_def)
  next
    case False
    have "ring (sheap ?r) ServicesHead (map SItem xs)" using ringsD[of "sheap ?r"] xs by (simp add: registered_def)
    then have "0 \<notin> set xs" using False by (auto simp: ring_def)
    then show ?thesis using register_law[OF xs, of 0 2 "Some lh"] f' False pl by (auto simp: one_item_def libs_ok_def)
  qed
qed

lemma init_dev:
  assumes "kgpu_init all_succeed dev0 = (0, res, dev)"
  shows "gmpool dev = empty_mempool" and "rtdreqs dev = []" and "kgpudev_av dev = kgpudev_av dev0"
    and "pool_inv gm \<Longrightarrow> vm_inv w \<Longrightarrow> dev_inv (dev\<lparr>kgpudev_av := 0, vm := w, gmpool := gm\<rparr>)"
  using assms by (auto simp: kgpu_init_def all_succeed_def dev_inv_def queue_def queue_inv_def sync_inv_def sync_at_def caches_ok_def
      slab_ok_def empty_slab_def Let_def)

lemma set_bufs_ioctl:
  assumes "access_ok usr False arg 16"
  shows "kgpu_ioctl bm env usr KGPU_IOC_SET_GPU_BUFS arg dev =
    andThen (set_gpu_mempool bm env (mi_uva (user_mem_info usr arg)) (mi_size (user_mem_info usr arg)) (gmpool dev)) (\<lambda>(err, gm).
    Inr (err, dev\<lparr>gmpool := gm\<rparr>))"
proof -
  have c: "IOC_TYPE KGPU_IOC_SET_GPU_BUFS = KGPU_IOC_MAGIC" "IOC_NR KGPU_IOC_SET_GPU_BUFS = 1"
    "IOC_DIR KGPU_IOC_SET_GPU_BUFS = 1" "IOC_SIZE KGPU_IOC_SET_GPU_BUFS = 16" by code_simp+
  have d: "KGPU_IOC_MAXNR \<noteq> 0" "\<not> KGPU_IOC_MAXNR < 1" "(1 :: u32) AND IOC_READ = 0" by code_simp+
  show ?thesis using assms by (simp add: kgpu_ioctl_def c d Let_def)
qed

text \<open>
  Answers with which start-up succeeds: the device node is there, the back end gets a buffer, which can be written
  and locked, there is a range for the mapping, the allocations of the module succeed, \<open>kmalloc\<close> clears the pool's
  \<open>alloc_sz\<close> (the module clears a quarter of it), and the address of \<open>hostbuf\<close> is a user address.
\<close>

definition good_answers :: "startup_env \<Rightarrow> string \<Rightarrow> ulong \<Rightarrow> ulong \<Rightarrow> bool" where
  "good_answers env path buf base \<longleftrightarrow> is_kgpu env path \<and> buf \<noteq> 0 \<and> writable env buf KGPU_BUF_SIZE \<and> mlock_ret env buf KGPU_BUF_SIZE = 0 \<and>
     mmap_base env = Some base \<and> (\<exists>sz. mmap_sz env = Some sz \<and> 512 \<le> length sz) \<and> (\<exists>bits. mmap_bits env = Some bits \<and> 512 \<le> length bits) \<and>
     (\<exists>ps. km_pages (pool_kernel env) 512 = Some ps \<and> length ps = 512) \<and>
     (\<exists>bits. km_bitmap (pool_kernel env) 64 = Some bits \<and> length bits = 64) \<and> km_alloc_sz (pool_kernel env) 2 = Some [0, 0] \<and>
     (\<forall>qs n. vmap (pool_kernel env) qs n \<noteq> 0) \<and> user_access env False (hostbuf_addr env) 16"

lemma buf_units: "unat KGPU_BUF_SIZE div 4096 = 512" "unat KGPU_BUF_SIZE div 2 ^ 20 = 2" "64 * bits_to_longs 2 = 64" "unat KGPU_BUF_SIZE < 2 ^ 44"
  by (simp_all add: kgpu_consts bits_to_longs_def)

lemma kh_init_succeeds:
  assumes bm: "bitmap_lib bm" and su: "gpu_start su" and dev: "kgpu_init all_succeed dev0 = (0, res, dev)" "kgpudev_av dev0 = 1"
    and env: "good_answers env path buf base" and idle: "streams_idle g"
    and pin: "su_alloc_pinned su (KGPU_BUF_SIZE + PAGE_SIZE) g = Inr (Some buf, g1)"
    and ini: "su_init su (g1\<lparr>hostbuf := \<lparr>mi_uva = buf, mi_size = KGPU_BUF_SIZE\<rparr>\<rparr>) = Inr g3"
  shows "\<exists>dev' g'. kh_init bm su env path (dev, g) = Inr (0, dev', g') \<and> dev_inv dev' \<and> rtdreqs dev' = [] \<and> streams_idle g' \<and>
    kgpudev_av dev' = 0 \<and> mi_uva (hostbuf g') = uva (gmpool dev') \<and> mi_uva (hostvma g') = vstart (vm dev') \<and>
    unat (nunits (gmpool dev')) = 2 \<and> unat (vnpages (vm dev')) = 512 \<and> pool_blocks (gmpool dev') = Map.empty \<and> vm_blocks (vm dev') = Map.empty"
proof -
  note i = init_dev[OF dev(1)]
  let ?d1 = "dev\<lparr>kgpudev_av := 0\<rparr>" and ?info = "\<lparr>mi_uva = buf, mi_size = KGPU_BUF_SIZE\<rparr>"
  let ?g4 = "g3\<lparr>hostvma := \<lparr>mi_uva = base, mi_size = KGPU_BUF_SIZE\<rparr>\<rparr>"
  let ?usr = "\<lparr>access_ok = user_access env, user_mem_info = (\<lambda>a. hostbuf ?g4)\<rparr>"
  have o: "kgpu_open dev = (0, ?d1)" using i(3) dev(2) by (simp add: kgpu_open_def)
  have g1: "streams_idle (g1\<lparr>hostbuf := ?info\<rparr>)" using gpu_start.pinned_law[OF su pin idle] by (simp add: streams_idle_iff)
  then have g3: "streams_idle g3" "hostbuf g3 = ?info" using gpu_start.init_law[OF su ini g1] by auto
  obtain sz bits where sz: "mmap_sz env = Some sz" "512 \<le> length sz" "mmap_bits env = Some bits" "512 \<le> length bits"
    using env by (auto simp: good_answers_def)
  have m: "vm_end (mapping_of base) - vm_start (mapping_of base) = KGPU_MMAP_SIZE"
    by (simp add: mapping_of_def) code_simp
  obtain w where w: "kgpu_mmap bm (mmap_sz env) (mmap_bits env) (mapping_of base) (vm ?d1) = Inr (0, w)" "vm_inv w"
      "unat (vnpages w) = 512" "vstart w = base" "vm_blocks w = Map.empty"
    using bitmap_lib.mmap_ready[OF bm sz(2,4) m, of "vm ?d1"] by (auto simp: sz mapping_of_def)
  obtain ps bs where ps: "km_pages (pool_kernel env) 512 = Some ps" "length ps = 512"
      "km_bitmap (pool_kernel env) 64 = Some bs" "length bs = 64"
    using env by (auto simp: good_answers_def)
  have "\<exists>gm. set_gpu_mempool bm (pool_kernel env) buf KGPU_BUF_SIZE empty_mempool = Inr (0, gm) \<and> pool_inv gm \<and>
      pool_blocks gm = Map.empty \<and> unat (nunits gm) = 2 \<and> unat (npages gm) = 512 \<and> uva gm = buf \<and>
      pages gm = Some (map (\<lambda>i. v2page (pool_kernel env) (buf + of_nat i * PAGE_SIZE)) [0 ..< 512])"
    by (rule bitmap_lib.set_gpu_mempool_ready[OF bm buf_units(4), where np = 512 and nu = 2 and ps = ps and bits = bs and sizes = "[0, 0]"])
      (use env ps buf_units in \<open>simp_all add: good_answers_def empty_mempool_def\<close>)
  then obtain gm where gm: "set_gpu_mempool bm (pool_kernel env) buf KGPU_BUF_SIZE empty_mempool = Inr (0, gm)" "pool_inv gm"
      "pool_blocks gm = Map.empty" "unat (nunits gm) = 2" "uva gm = buf" by blast
  have a: "access_ok ?usr False (hostbuf_addr env) 16" using env by (simp add: good_answers_def)
  let ?d2 = "dev\<lparr>kgpudev_av := 0, vm := w, gmpool := gm\<rparr>"
  have "kgpu_ioctl bm (pool_kernel env) ?usr KGPU_IOC_SET_GPU_BUFS (hostbuf_addr env) (?d1\<lparr>vm := w\<rparr>) = Inr (0, ?d2)"
    unfolding set_bufs_ioctl[OF a] using gm(1) g3(2) i(1) by simp
  then have "kh_init bm su env path (dev, g) = Inr (0, ?d2, ?g4)"
    using env o pin ini w(1) by (simp add: kh_init_def good_answers_def safe_syscall_def Let_def)
  then show ?thesis using i(2) i(4)[OF gm(2) w(2)] g3 w gm by (intro exI conjI) (assumption | simp add: streams_idle_iff)+
qed

lemma ioctl_keeps_av: "kgpu_ioctl bm env usr cmd arg dev = Inr (r, dev') \<Longrightarrow> kgpudev_av dev' = kgpudev_av dev"
  by (auto simp: kgpu_ioctl_def andThen_eq_Inr Let_def dump_gpu_bufs_def terminate_all_requests_def split: if_splits)

lemma set_stop_ioctl: "kgpu_ioctl bm env usr KGPU_IOC_SET_STOP arg dev = Inr (0, dev\<lparr>dev_state := KGPU_TERMINATED\<rparr>)"
proof -
  have c: "IOC_TYPE KGPU_IOC_SET_STOP = KGPU_IOC_MAGIC" "IOC_NR KGPU_IOC_SET_STOP = 3" "IOC_DIR KGPU_IOC_SET_STOP = 0"
    "KGPU_IOC_SET_STOP \<noteq> KGPU_IOC_SET_GPU_BUFS" "KGPU_IOC_SET_STOP \<noteq> KGPU_IOC_GET_GPU_BUFS" by code_simp+
  have d: "\<not> KGPU_IOC_MAXNR < 3" by code_simp
  show ?thesis by (simp add: kgpu_ioctl_def c d terminate_all_requests_def)
qed

lemma kh_init_open:
  assumes "kh_init bm su env path (dev, g) = Inr (r, dev', g')"
  shows "kgpudev_av dev = 1 \<and> kgpudev_av dev' = 0"
proof -
  obtain fd dev1 where o: "kgpu_open dev = (fd, dev1)" by fastforce
  have fd: "\<not> fd < 0" using assms o by (auto simp: kh_init_def safe_syscall_def andThen_eq_Inr split: if_splits)
  then have d1: "kgpudev_av dev = 1" "kgpudev_av dev1 = 0" using o by (auto simp: kgpu_open_def errno_defs Let_def split: if_splits)
  have "kgpudev_av dev' = kgpudev_av dev1"
    using assms o by (auto simp: kh_init_def andThen_eq_Inr Let_def split: if_splits option.splits dest!: ioctl_keeps_av)
  then show ?thesis using d1 by simp
qed

lemma kh_init_busy:
  assumes "kgpudev_av dev \<noteq> 1"
  shows "kh_init bm su env path (dev, g) = Inl Aborted"
  using assms by (simp add: kh_init_def kgpu_open_def safe_syscall_def errno_defs Let_def)

lemma start_law:
  assumes "bitmap_lib bm" and "gpu_start su" and "service_libs dl" and "libs_ok rg" and "streams_idle g"
    and "kgpu_init all_succeed dev0 = (0, res, dev)" and "kgpudev_av dev0 = 1"
    and opts: "parse_opts args default_opts = Some opts" and "good_answers env (kgpudev_path opts) buf base"
    and "su_alloc_pinned su (KGPU_BUF_SIZE + PAGE_SIZE) g = Inr (Some buf, g1)"
    and "su_init su (g1\<lparr>hostbuf := \<lparr>mi_uva = buf, mi_size = KGPU_BUF_SIZE\<rparr>\<rparr>) = Inr g3"
  shows "\<exists>dev' h. main_start bm su env dl glb args rg (dev, g) = Some (Inr (Some (dev', h))) \<and>
    dev_inv dev' \<and> hinv h (\<lambda>_. []) \<and> in_flight h (\<lambda>_. []) = rtd_ids dev' \<and> kgpudev_av dev' = 0 \<and>
    mi_uva (hostbuf (gpu h)) = uva (gmpool dev') \<and> mi_uva (hostvma (gpu h)) = vstart (vm dev') \<and>
    unat (nunits (gmpool dev')) = 2 \<and> unat (vnpages (vm dev')) = 512 \<and>
    pool_blocks (gmpool dev') = Map.empty \<and> vm_blocks (vm dev') = Map.empty"
proof -
  obtain dev' g' where d: "kh_init bm su env (kgpudev_path opts) (dev, g) = Inr (0, dev', g')" "dev_inv dev'" "rtdreqs dev' = []"
      "streams_idle g'" "kgpudev_av dev' = 0" "mi_uva (hostbuf g') = uva (gmpool dev')" "mi_uva (hostvma g') = vstart (vm dev')"
      "unat (nunits (gmpool dev')) = 2" "unat (vnpages (vm dev')) = 512" "pool_blocks (gmpool dev') = Map.empty" "vm_blocks (vm dev') = Map.empty"
    using kh_init_succeeds[OF assms(1,2,6,7,9,5,10,11)] by (elim exE conjE) (rule that)
  obtain e r where r: "kh_load_all_services dl (glb (lib_pattern (service_lib_dir opts))) rg = Some (Inr (e, r))" "libs_ok r"
    using service_libs.load_all_law[OF assms(3,4)] by blast
  have "main_start bm su env dl glb args rg (dev, g) = Some (Inr (Some (dev', start_helper g' r)))"
    using opts d(1) r(1) by (simp add: main_start_def)
  moreover have "hinv (start_helper g' r) (\<lambda>_. [])" using d(4) r(2) start_hinv_any by (auto simp: streams_idle_def libs_ok_def)
  moreover have "in_flight (start_helper g' r) (\<lambda>_. []) = rtd_ids dev'" using d(3) by (simp add: in_flight_def rtd_ids_def)
  moreover have "gpu (start_helper g' r) = g'" by (simp add: start_helper_def)
  ultimately show ?thesis using d(2,5-) by (intro exI[of _ dev'] exI[of _ "start_helper g' r"]) simp
qed

section \<open>Properties\<close>


definition boot_gpu :: gpu_state where
  "boot_gpu = \<lparr>streams = replicate 8 0, streamuses = replicate 8 0, hostbuf = \<lparr>mi_uva = 0, mi_size = 0\<rparr>, hostvma = \<lparr>mi_uva = 0, mi_size = 0\<rparr>,
     initialized = 0, openCLData = None, cl_devices = None, cl_next = 0, cl_live = {}, deviceBuffer = 0, deviceBufferForVMA = 0\<rparr>"

definition cl_good :: cl_answers where
  "cl_good = \<lparr>malloc_data = True, platform_count_status = 0, malloc_platforms = True, platform_status = 0, device_count_status = 0,
     malloc_devices = True, device_status = 0, context_status = 0, buffer_status = 0, buffer_handle = 0x10, vma_buffer_status = 0,
     vma_buffer_handle = 0x20, queue_handles = [1, 2, 3, 4, 5, 6, 7, 8], pinned_status = 0, pinned_handle = 0x30, pinned_info_status = 0,
     pinned_pointer = 0x7000000, release_status = 0, vma_release_status = 0\<rparr>"

definition start_env :: startup_env where
  "start_env = \<lparr>is_kgpu = (\<lambda>p. p = ''/dev/kgpu''), garbage = 1, writable = (\<lambda>p n. p = 0x7000000 \<and> n \<le> 2 ^ 21), mlock_ret = (\<lambda>p n. 0),
     mmap_base = Some 0x9000000, mmap_sz = Some (replicate 512 7), mmap_bits = Some (replicate 512 True), pool_kernel = sample_env [0, 0],
     hostbuf_addr = 0x400000, user_access = (\<lambda>w p n. True)\<rparr>"

lemma start_env_good: "good_answers start_env ''/dev/kgpu'' 0x7000000 0x9000000"
  by (simp add: good_answers_def start_env_def sample_env_def kgpu_consts)

lemma boot_gpu_setup:
  "\<exists>g1 g3. su_alloc_pinned (opencl_setup cl_good) (KGPU_BUF_SIZE + PAGE_SIZE) boot_gpu = Inr (Some 0x7000000, g1) \<and>
     su_init (opencl_setup cl_good) (g1\<lparr>hostbuf := \<lparr>mi_uva = 0x7000000, mi_size = KGPU_BUF_SIZE\<rparr>\<rparr>) = Inr g3"
  by (simp add: opencl_setup_def gpu_alloc_pinned_mem_def gpu_init_def initializeOpenCL_def initializePlatform_def initializeDevice_def
      initializeContext_def cl_alloc_def cl_deref_def cl_good_def boot_gpu_def CL_SUCCESS_def)

definition loaded_module :: kgpu_dev where
  "loaded_module = snd (snd (kgpu_init all_succeed (idle_dev\<lparr>kgpudev_av := 1\<rparr>)))"

lemma loaded_module_init:
  "kgpu_init all_succeed (idle_dev\<lparr>kgpudev_av := 1\<rparr>) =
     (0, [RequestCache, ItemCache, SyncDataCache, DevClass, ChrdevRegion, CharDevice, DeviceNode], loaded_module)"
  by (simp add: loaded_module_def kgpu_init_def all_succeed_def Let_def)

lemma boot_facts: "libs_ok boot_registry" "streams_idle boot_gpu" "kgpudev_av (idle_dev\<lparr>kgpudev_av := 1\<rparr>) = 1"
  "parse_opts [(CHR ''v'', ''3'')] default_opts = Some (default_opts\<lparr>log_level := 3\<rparr>)"
  "good_answers start_env (kgpudev_path (default_opts\<lparr>log_level := 3\<rparr>)) 0x7000000 0x9000000"
  using boot_registry_empty boot_plugins start_env_good
  by (auto simp: libs_ok_def streams_idle_iff boot_gpu_def MAX_STREAM_NR_def default_opts_def)




end
