(* ===== verification/Clients.thy ===== *)
theory Clients
  imports Requests
begin

text \<open>
  Clients from end to end. A request that is submitted, delivered and answered on an otherwise idle device; the test
  client \<^verbatim>\<open>services/test/callgpu\<close> (whose functions are in \<open>Requests\<close>); and \<^verbatim>\<open>services/test/calg2/calg2.c\<close>, which maps
  a page of its own into the device window. Both give back everything they took.
\<close>

section \<open>One request on an idle device\<close>

lemma served_once:
  assumes inv: "dev_inv dev" and p: "p \<in> inuse (request_cache dev)"
    and cb: "rq_callback (objs (request_cache dev) ! p) \<noteq> NullCallback"
    and st: "dev_state dev \<noteq> KGPU_TERMINATED" and q: "reqs dev = []" "rtdreqs dev = []"
    and it: "fst (alloc_item ch dev) \<noteq> None"
  obtains x ci where "kgpu_call_async ch (Some p) dev = Inr (0, dev\<lparr>item_cache := ci, reqs := [x]\<rparr>)"
    "kgpu_read nb sg sizeof_ku_request fpos (dev\<lparr>item_cache := ci, reqs := [x]\<rparr>) =
       Some (Inr (88, Some (fill_ku_request (gmpool dev) (objs (request_cache dev) ! p)), fpos + sizeof_ku_request,
         dev\<lparr>item_cache := ci, reqs := [], rtdreqs := [x]\<rparr>))"
    "x \<notin> inuse (item_cache dev)" "inuse ci = insert x (inuse (item_cache dev))"
    "dev_inv (dev\<lparr>item_cache := ci, reqs := [], rtdreqs := [x]\<rparr>)" "item_r (objs ci ! x) = Some p"
    "kgpu_write cl \<lparr>resp_id = rq_id (objs (request_cache dev) ! p), resp_errcode = e\<rparr> sizeof_ku_response fpos'
         (dev\<lparr>item_cache := ci, reqs := [], rtdreqs := [x]\<rparr>) =
       andThen (invoke_callback cl (rq_callback (objs (request_cache dev) ! p)) (Some p)
         (unlinked x p e (dev\<lparr>item_cache := ci, reqs := [], rtdreqs := [x]\<rparr>))) (\<lambda>dev3.
       andThen (slab_free x (item_cache dev3)) (\<lambda>c. Inr (8, fpos' + sizeof_ku_response, dev3\<lparr>item_cache := c\<rparr>)))"
proof -
  have ok: "slab_ok (item_cache dev)" "slab_ok (request_cache dev)" using inv by (auto simp: dev_inv_def caches_ok_def)
  obtain x dev1 where x: "alloc_item ch dev = (Some x, dev1)" using it by (cases "alloc_item ch dev") auto
  obtain c where c: "dev1 = dev\<lparr>item_cache := c\<rparr>" "slab_ok c" "x \<notin> inuse (item_cache dev)"
    "inuse c = insert x (inuse (item_cache dev))"
    using alloc_item_Some[OF x ok(1)] by blast
  let ?ci = "c\<lparr>objs := (objs c)[x := \<lparr>item_r = Some p\<rparr>]\<rparr>"
  let ?dev1 = "dev\<lparr>item_cache := ?ci, reqs := [x]\<rparr>" and ?dev2 = "dev\<lparr>item_cache := ?ci, reqs := [], rtdreqs := [x]\<rparr>"
  have xl: "x < length (objs c)" using c(2,4) slab_ok_bound by blast
  have run: "kgpu_call_async ch (Some p) dev = Inr (0, ?dev1)"
    using x st c q(1) by (simp add: kgpu_call_async_def enqueue_item_def)
  have "\<not> pending p dev" using q by (simp add: pending_def queue_def)
  then have inv1: "dev_inv ?dev1" using call_async_law[OF inv p _ cb, of ch] run by auto
  have sz: "sint sizeof_ku_request = 88" "sint sizeof_ku_response = 8" by code_simp+
  have rd: "kgpu_read nb sg sizeof_ku_request fpos ?dev1 =
       Some (Inr (88, Some (fill_ku_request (gmpool dev) (objs (request_cache dev) ! p)), fpos + sizeof_ku_request, ?dev2))"
    for nb sg fpos
    using read_eq[OF inv1, of x "[]" nb sg fpos] xl q by (simp add: sz)
  have inv2: "dev_inv ?dev2" using read_law[OF inv1, of x "[]" False False 0] rd[of False False 0] by auto
  have wr: "kgpu_write cb \<lparr>resp_id = rq_id (objs (request_cache dev) ! p), resp_errcode = e\<rparr> sizeof_ku_response fpos ?dev2 =
       andThen (invoke_callback cb (rq_callback (objs (request_cache dev) ! p)) (Some p) (unlinked x p e ?dev2)) (\<lambda>dev3.
       andThen (slab_free x (item_cache dev3)) (\<lambda>c. Inr (8, fpos + sizeof_ku_response, dev3\<lparr>item_cache := c\<rparr>)))" for cb e fpos
  proof -
    let ?q = "\<lparr>resp_id = rq_id (objs (request_cache dev) ! p), resp_errcode = e\<rparr>"
    have "find_item ?dev2 (resp_id ?q) (rtdreqs ?dev2) = Inr (Some x)" using ok(2) p c(2,4) xl by (simp add: get_request_def)
    from write_unlinked[OF this, of sizeof_ku_response p cb fpos] show ?thesis
      using ok(2) p c(2,4) xl by (simp add: sz)
  qed
  show thesis by (rule that[OF run rd c(3) _ inv2 _ wr]) (simp_all add: c(4) xl)
qed

text \<open>A callback that frees the request: what is in use afterwards is what was in use before the request.\<close>

lemma alloc_request_frame:
  assumes "kgpu_alloc_request ch dev = (Some p, dev')" and "slab_ok (request_cache dev)"
  shows "inuse (request_cache dev') = insert p (inuse (request_cache dev))" and "p \<notin> inuse (request_cache dev)"
    and "gmpool dev' = gmpool dev" and "vm dev' = vm dev" and "dev_state dev' = dev_state dev"
    and "item_cache dev' = item_cache dev" and "slab_ok (request_cache dev')"
    and "reqs dev' = reqs dev" and "rtdreqs dev' = rtdreqs dev" and "sync_cache dev' = sync_cache dev"
proof -
  obtain fresh dev1 where f: "construct_requests (slab_growth ch) dev = (fresh, dev1)"
    by (cases "construct_requests (slab_growth ch) dev")
  obtain s where s: "dev1 = dev\<lparr>rid_sequence := s\<rparr>" using constructed_requests(1)[OF f] by blast
  obtain c where c: "slab_alloc ch fresh (request_cache dev) = (Some p, c)" "dev' = dev\<lparr>rid_sequence := s, request_cache := c\<rparr>"
    using assms(1) f s by (auto simp: kgpu_alloc_request_def split: prod.splits)
  note a = slab_alloc_Some[OF c(1) assms(2)]
  show "inuse (request_cache dev') = insert p (inuse (request_cache dev))" "p \<notin> inuse (request_cache dev)"
    "gmpool dev' = gmpool dev" "vm dev' = vm dev" "dev_state dev' = dev_state dev" "item_cache dev' = item_cache dev"
    "slab_ok (request_cache dev')" "reqs dev' = reqs dev" "rtdreqs dev' = rtdreqs dev" "sync_cache dev' = sync_cache dev"
    using a c(2) by simp_all
qed

lemma call_async_frame: "kgpu_call_async ch q dev = Inr (ret, dev') \<Longrightarrow> vm dev' = vm dev"
  by (auto simp: kgpu_call_async_def alloc_item_def enqueue_item_def andThen_eq_Inr split: if_splits prod.splits option.splits)

lemma filled_inv:
  assumes "dev_inv dev" and "p \<in> inuse (request_cache dev)" and "reqs dev = []" and "rtdreqs dev = []" and "rq_callback r = ClientCallback k"
  shows "dev_inv (dev\<lparr>request_cache := (request_cache dev)\<lparr>objs := (objs (request_cache dev))[p := r]\<rparr>\<rparr>)"
proof -
  have "slab_ok (request_cache dev)" using assms(1) by (simp add: dev_inv_def caches_ok_def)
  then show ?thesis
    using put_request_law[OF assms(1,2), of r] assms(2-5) by (auto simp: put_request_def)
qed

text \<open>The answer, for a callback that frees the request and otherwise only changes pool or window.\<close>

lemma answer_frees:
  assumes inv: "dev_inv dev" and x: "rtdreqs dev = [x]" "reqs dev = []"
    and it: "item_r (objs (item_cache dev) ! x) = Some p"
    and cb: "rq_callback (objs (request_cache dev) ! p) = ClientCallback k"
    and u: "u = unlinked x p e dev" and gm: "pool_inv gm" and w: "vm_inv w"
    and run: "cb k (Some p) u = kgpu_free_request p (u\<lparr>gmpool := gm, vm := w\<rparr>)"
  shows "\<exists>dev'. andThen (invoke_callback cb (ClientCallback k) (Some p) u) (\<lambda>dev3.
       andThen (slab_free x (item_cache dev3)) (\<lambda>c. Inr (n, f, dev3\<lparr>item_cache := c\<rparr>))) = Inr (n, f, dev') \<and> dev_inv dev' \<and>
    reqs dev' = [] \<and> rtdreqs dev' = [] \<and> gmpool dev' = gm \<and> vm dev' = w \<and>
    inuse (request_cache dev') = inuse (request_cache dev) - {p} \<and> inuse (item_cache dev') = inuse (item_cache dev) - {x}"
proof -
  have "x \<in> set (rtdreqs dev)" using x by simp
  then obtain p' where p': "x \<in> inuse (item_cache dev)" "item_r (objs (item_cache dev) ! x) = Some p'"
    "p' \<in> inuse (request_cache dev)" "dev_inv (unlinked x p' e dev)" "\<not> pending p' (unlinked x p' e dev)"
    "x \<notin> set (queue (unlinked x p' e dev))"
    using unlinked_law[OF inv, of x e] by metis
  have pp: "p' = p" using p'(2) it by simp
  let ?u = "u\<lparr>gmpool := gm, vm := w\<rparr>"
  have ui: "dev_inv ?u" using vm_step[OF pool_step[OF p'(4) gm] w] u pp by simp
  have q: "reqs u = []" "rtdreqs u = []" "item_cache u = item_cache dev" "inuse (request_cache u) = inuse (request_cache dev)"
    using u x by (simp_all add: unlinked_def)
  have "\<not> pending p ?u" using q by (simp add: pending_def queue_def)
  moreover have "p < length (objs (request_cache dev))"
    using inv p'(3) pp slab_ok_bound by (auto simp: dev_inv_def caches_ok_def)
  then have "rq_callback (objs (request_cache ?u) ! p) = ClientCallback k"
    using u cb by (simp add: unlinked_def)
  ultimately obtain dev3 where 3: "kgpu_free_request p ?u = Inr dev3" "dev_inv dev3"
    using free_request_law[OF ui, of p] p'(3) pp q by auto
  have f: "dev3 = ?u\<lparr>request_cache := (request_cache u)\<lparr>inuse := inuse (request_cache u) - {p}\<rparr>\<rparr>"
    using 3(1) p'(3) pp q by (simp add: kgpu_free_request_def)
  let ?dev' = "dev3\<lparr>item_cache := (item_cache dev3)\<lparr>inuse := inuse (item_cache dev3) - {x}\<rparr>\<rparr>"
  have "x \<notin> set (queue dev3)" using f q by (simp add: queue_def)
  then have "dev_inv ?dev'" by (rule release_item_inv[OF 3(2)])
  then show ?thesis
    using run 3(1) f q p'(1) by (intro exI[of _ ?dev']) (simp add: invoke_callback_def)
qed

lemma client_served:
  assumes inv: "dev_inv dev" and p: "p \<in> inuse (request_cache dev)"
    and cb: "rq_callback (objs (request_cache dev) ! p) = ClientCallback k"
    and st: "dev_state dev \<noteq> KGPU_TERMINATED" and q: "reqs dev = []" "rtdreqs dev = []"
    and it: "fst (alloc_item ch dev) \<noteq> None" and gm: "pool_inv gm" and w: "vm_inv w"
    and run: "\<And>x ci. cl k (Some p) (unlinked x p e (dev\<lparr>item_cache := ci, reqs := [], rtdreqs := [x]\<rparr>)) =
      kgpu_free_request p ((unlinked x p e (dev\<lparr>item_cache := ci, reqs := [], rtdreqs := [x]\<rparr>))\<lparr>gmpool := gm, vm := w\<rparr>)"
  shows "\<exists>dev1 dev2 dev3. kgpu_call_async ch (Some p) dev = Inr (0, dev1) \<and>
    kgpu_read nb sg sizeof_ku_request fpos dev1 =
      Some (Inr (88, Some (fill_ku_request (gmpool dev) (objs (request_cache dev) ! p)), fpos + sizeof_ku_request, dev2)) \<and>
    kgpu_write cl \<lparr>resp_id = rq_id (objs (request_cache dev) ! p), resp_errcode = e\<rparr> sizeof_ku_response fpos' dev2 =
      Inr (8, fpos' + sizeof_ku_response, dev3) \<and>
    dev_inv dev3 \<and> reqs dev3 = [] \<and> rtdreqs dev3 = [] \<and> gmpool dev3 = gm \<and> vm dev3 = w \<and>
    inuse (request_cache dev3) = inuse (request_cache dev) - {p} \<and> inuse (item_cache dev3) = inuse (item_cache dev)"
proof -
  let ?r = "objs (request_cache dev) ! p"
  have nn: "rq_callback ?r \<noteq> NullCallback" using cb by simp
  obtain x ci where s: "kgpu_call_async ch (Some p) dev = Inr (0, dev\<lparr>item_cache := ci, reqs := [x]\<rparr>)"
    "kgpu_read nb sg sizeof_ku_request fpos (dev\<lparr>item_cache := ci, reqs := [x]\<rparr>) =
       Some (Inr (88, Some (fill_ku_request (gmpool dev) ?r), fpos + sizeof_ku_request,
         dev\<lparr>item_cache := ci, reqs := [], rtdreqs := [x]\<rparr>))"
    "x \<notin> inuse (item_cache dev)" "inuse ci = insert x (inuse (item_cache dev))"
    "dev_inv (dev\<lparr>item_cache := ci, reqs := [], rtdreqs := [x]\<rparr>)" "item_r (objs ci ! x) = Some p"
    "kgpu_write cl \<lparr>resp_id = rq_id ?r, resp_errcode = e\<rparr> sizeof_ku_response fpos'
         (dev\<lparr>item_cache := ci, reqs := [], rtdreqs := [x]\<rparr>) =
       andThen (invoke_callback cl (rq_callback ?r) (Some p)
         (unlinked x p e (dev\<lparr>item_cache := ci, reqs := [], rtdreqs := [x]\<rparr>))) (\<lambda>dev3.
       andThen (slab_free x (item_cache dev3)) (\<lambda>c. Inr (8, fpos' + sizeof_ku_response, dev3\<lparr>item_cache := c\<rparr>)))"
    using served_once[OF inv p nn st q it] .
  let ?d2 = "dev\<lparr>item_cache := ci, reqs := [], rtdreqs := [x]\<rparr>"
  obtain dev3 where "andThen (invoke_callback cl (ClientCallback k) (Some p) (unlinked x p e ?d2)) (\<lambda>dev3.
       andThen (slab_free x (item_cache dev3)) (\<lambda>c. Inr (8, fpos' + sizeof_ku_response, dev3\<lparr>item_cache := c\<rparr>))) =
       Inr (8 :: int, fpos' + sizeof_ku_response, dev3)" "dev_inv dev3"
    "reqs dev3 = []" "rtdreqs dev3 = []" "gmpool dev3 = gm" "vm dev3 = w"
    "inuse (request_cache dev3) = inuse (request_cache ?d2) - {p}" "inuse (item_cache dev3) = inuse (item_cache ?d2) - {x}"
    using answer_frees[OF s(5), of x p k "unlinked x p e ?d2" e gm w cl "8 :: int" "fpos' + sizeof_ku_response"] s(6) cb gm w run[of x ci]
    by auto
  then show ?thesis using s(1,2,3,4,7) cb by (intro exI[of _ "dev\<lparr>item_cache := ci, reqs := [x]\<rparr>"] exI[of _ ?d2] exI[of _ dev3]) simp
qed

text \<open>
  The whole life of the only request of an idle device: allocated, filled (with the pool \<open>gm\<close> and the window \<open>w\<close> that the client
  has by then), submitted, delivered, answered, and freed by the callback, which leaves the pool \<open>gm'\<close> and the window \<open>w'\<close>.
\<close>

lemma life_of_request:
  assumes inv: "dev_inv dev" and q: "reqs dev = []" "rtdreqs dev = []" and st: "dev_state dev \<noteq> KGPU_TERMINATED"
    and al: "kgpu_alloc_request ch dev = (Some p, dev0)" and it: "fst (alloc_item chi dev) \<noteq> None"
    and r: "rq_callback r = ClientCallback k" and gm: "pool_inv gm" "pool_inv gm'" and w: "vm_inv w" "vm_inv w'"
    and d: "d = dev0\<lparr>gmpool := gm, vm := w, request_cache := (request_cache dev0)\<lparr>objs := (objs (request_cache dev0))[p := r]\<rparr>\<rparr>"
    and run: "\<And>x ci. cl k (Some p) (unlinked x p e (d\<lparr>item_cache := ci, reqs := [], rtdreqs := [x]\<rparr>)) =
      kgpu_free_request p ((unlinked x p e (d\<lparr>item_cache := ci, reqs := [], rtdreqs := [x]\<rparr>))\<lparr>gmpool := gm', vm := w'\<rparr>)"
  shows "\<exists>dev1 dev2 dev3. kgpu_call_async chi (Some p) d = Inr (0, dev1) \<and> vm dev1 = w \<and>
    kgpu_read nb sg sizeof_ku_request fpos dev1 = Some (Inr (88, Some (fill_ku_request gm r), fpos + sizeof_ku_request, dev2)) \<and>
    kgpu_write cl \<lparr>resp_id = rq_id r, resp_errcode = e\<rparr> sizeof_ku_response fpos' dev2 = Inr (8, fpos' + sizeof_ku_response, dev3) \<and>
    dev_inv dev3 \<and> reqs dev3 = [] \<and> rtdreqs dev3 = [] \<and> gmpool dev3 = gm' \<and> vm dev3 = w' \<and>
    inuse (request_cache dev3) = inuse (request_cache dev) \<and> inuse (item_cache dev3) = inuse (item_cache dev)"
proof -
  have ok: "slab_ok (request_cache dev)" using inv by (simp add: dev_inv_def caches_ok_def)
  note fr = alloc_request_frame[OF al ok]
  have inv0: "dev_inv dev0" using alloc_request_law[OF inv al] by simp
  have p: "p \<in> inuse (request_cache dev0)" "p < length (objs (request_cache dev0))" using fr(1,7) slab_ok_bound by auto
  have rp: "objs (request_cache d) ! p = r" "gmpool d = gm" using p(2) by (simp_all add: d)
  have di: "dev_inv d" using filled_inv[OF vm_step[OF pool_step[OF inv0 gm(1)] w(1)], of p r k] p(1) fr q r by (simp add: d)
  have ai: "fst (alloc_item chi d) \<noteq> None" using it fr(6) by (simp add: alloc_item_def case_prod_beta d)
  have dq: "dev_state d \<noteq> KGPU_TERMINATED" "reqs d = []" "rtdreqs d = []" "p \<in> inuse (request_cache d)"
    "inuse (request_cache d) = insert p (inuse (request_cache dev))" "item_cache d = item_cache dev" "vm d = w"
    using st q fr by (simp_all add: d)
  have rc: "rq_callback (objs (request_cache d) ! p) = ClientCallback k" using rp r by simp
  obtain dev1 dev2 dev3 where s: "kgpu_call_async chi (Some p) d = Inr (0, dev1)"
    "kgpu_read nb sg sizeof_ku_request fpos dev1 = Some (Inr (88, Some (fill_ku_request gm r), fpos + sizeof_ku_request, dev2))"
    "kgpu_write cl \<lparr>resp_id = rq_id r, resp_errcode = e\<rparr> sizeof_ku_response fpos' dev2 = Inr (8, fpos' + sizeof_ku_response, dev3)"
    "dev_inv dev3" "reqs dev3 = []" "rtdreqs dev3 = []" "gmpool dev3 = gm'" "vm dev3 = w'"
    "inuse (request_cache dev3) = inuse (request_cache d) - {p}" "inuse (item_cache dev3) = inuse (item_cache d)"
    using client_served[where cl = cl and e = e and nb = nb and sg = sg and fpos = fpos and fpos' = fpos',
        OF di dq(4) rc dq(1-3) ai gm(2) w(2) run] unfolding rp by (elim exE conjE) (rule that)
  have "vm dev1 = w" using s(1) dq(7) call_async_frame by blast
  moreover have "inuse (request_cache d) - {p} = inuse (request_cache dev)" using dq(5) fr(2) by auto
  ultimately show ?thesis using s dq(6) by (intro exI[of _ dev1] exI[of _ dev2] exI[of _ dev3]) simp
qed

section \<open>The client calg2\<close>

text \<open>
  \<open>pgs\<close> are the pgs the client has from \<open>__get_free_page\<close>, by address; \<open>buf\<close> is what \<open>__get_free_page\<close> returns and \<open>pa\<close> is
  \<open>__pa\<close>. The callback reads the first word of its page for a message, unmaps and frees the page and frees the request.
\<close>

definition calg2_mycb :: "bitmap_ops \<Rightarrow> mm_ops \<Rightarrow> ulong set \<Rightarrow> nat option \<Rightarrow> kgpu_dev \<Rightarrow> fault + (ulong set \<times> kgpu_dev)" where
  "calg2_mycb bm mm pgs req dev =
     andThen (get_request req dev) (\<lambda>r.
     case rq_kdata r of
       KSync d \<Rightarrow> Inl OutOfBounds
     | KPtr a \<Rightarrow>
         if a \<notin> pgs then Inl UseAfterFree
         else
           andThen (kgpu_unmap_area bm mm (rq_in r) (vm dev)) (\<lambda>w.
           case req of
             None \<Rightarrow> Inl NullDeref
           | Some p \<Rightarrow> andThen (kgpu_free_request p (dev\<lparr>vm := w\<rparr>)) (\<lambda>dev'. Inr (pgs - {a}, dev'))))"

definition calg2_client :: "bitmap_ops \<Rightarrow> mm_ops \<Rightarrow> ulong set \<Rightarrow> client" where
  "calg2_client bm mm pgs k req dev = andThen (calg2_mycb bm mm pgs req dev) (\<lambda>(_, dev'). Inr dev')"

definition calg2_minit :: "bitmap_ops \<Rightarrow> mm_ops \<Rightarrow> (ulong \<Rightarrow> ulong) \<Rightarrow> slab_choice \<Rightarrow> ulong \<Rightarrow> slab_choice \<Rightarrow> ulong set \<Rightarrow>
  kgpu_dev \<Rightarrow> fault + (ulong set \<times> kgpu_dev)" where
  "calg2_minit bm mm pa ch buf chi pgs dev =
     (case kgpu_alloc_request ch dev of
        (None, dev1) \<Rightarrow> Inr (pgs, dev1)
      | (Some p, dev1) \<Rightarrow>
          if buf = 0 then andThen (kgpu_free_request p dev1) (\<lambda>dev2. Inr (pgs, dev2))
          else
            let pgs1 = insert buf pgs; pfn = drop_bit PAGE_SHIFT (pa buf) in
            andThen (kgpu_map_pfns bm mm [pfn] 1 (vm dev1)) (\<lambda>(ga, w).
            let dev2 = dev1\<lparr>vm := w\<rparr> in
            if ga = 0 then andThen (kgpu_free_request p dev2) (\<lambda>dev3. Inr (pgs1 - {buf}, dev3))
            else
              andThen (get_request (Some p) dev2) (\<lambda>r.
              andThen (put_request (Some p) (r\<lparr>rq_in := ga, rq_insize := 1024, rq_out := ga, rq_outsize := 1024,
                rq_udata := ga, rq_udatasize := 1024,
                rq_service_name := strcpy_name ''test_service'' (rq_service_name r),
                rq_callback := ClientCallback 0, rq_kdata := KPtr buf\<rparr>) dev2) (\<lambda>dev3.
              andThen (kgpu_call_async chi (Some p) dev3) (\<lambda>(ret, dev4). Inr (pgs1, dev4))))))"

section \<open>Properties\<close>

lemma c_string_of_strcpy:
  assumes "CHR 0x00 \<notin> set src" and "length src < n"
  shows "takeWhile (\<lambda>c. c \<noteq> CHR 0x00) (take n (strcpy_name src dst)) = src"
  using assms by (auto simp: strcpy_name_def takeWhile_append take_Cons')

text \<open>
  C15: The client callgpu gives back everything. On an idle device with a free request object, a free item and a free unit,
  its \<open>minit\<close> submits a request that the helper reads as one for the service \<open>nonexist service\<close> with 1024 bytes; whatever error code
  the helper answers it with, the module's \<open>kgpu_write\<close> runs \<open>mycb\<close> without a fault and afterwards the same requests, items and
  units are in use as before.
\<close>

theorem callgpu_gives_back:
  assumes bm: "bitmap_lib bm" and inv: "dev_inv dev" and q: "reqs dev = []" "rtdreqs dev = []"
    and st: "dev_state dev \<noteq> KGPU_TERMINATED"
    and al: "kgpu_alloc_request ch dev = (Some p, dev0)" and it: "fst (alloc_item chi dev) \<noteq> None"
    and room: "has_room (unat (nunits (gmpool dev))) (pool_blocks (gmpool dev)) 1"
    and nz: "\<And>i. i < unat (nunits (gmpool dev)) \<Longrightarrow> unit_addr (gmpool dev) i \<noteq> 0"
  shows "\<exists>dev1 ku dev2 dev3. callgpu_minit bm ch chi dev = Inr dev1 \<and>
    kgpu_read nb sg sizeof_ku_request fpos dev1 = Some (Inr (88, Some ku, fpos + sizeof_ku_request, dev2)) \<and>
    takeWhile (\<lambda>c. c \<noteq> CHR 0x00) (ku_service_name ku) = ''nonexist service'' \<and> ku_insize ku = 1024 \<and>
    kgpu_write (callgpu_mycb bm) \<lparr>resp_id = ku_id ku, resp_errcode = e\<rparr> sizeof_ku_response fpos' dev2 =
      Inr (8, fpos' + sizeof_ku_response, dev3) \<and>
    dev_inv dev3 \<and> reqs dev3 = [] \<and> rtdreqs dev3 = [] \<and> inuse (request_cache dev3) = inuse (request_cache dev) \<and>
    inuse (item_cache dev3) = inuse (item_cache dev) \<and> pool_blocks (gmpool dev3) = pool_blocks (gmpool dev)"
proof -
  have ok: "slab_ok (request_cache dev)" using inv by (simp add: dev_inv_def caches_ok_def)
  note fr = alloc_request_frame[OF al ok]
  have one: "req_units 2048 = 1" "unat (req_units 2048) = 1" by code_simp+
  obtain i gm where v: "kgpu_vmalloc bm 2048 (gmpool dev) = Inr (unit_addr (gmpool dev) i, gm)" "pool_inv gm" "kva gm = kva (gmpool dev)"
    "spec_alloc (unat (nunits (gmpool dev))) (pool_blocks (gmpool dev)) i 1 (pool_blocks gm)"
    using bitmap_lib.vmalloc_law[OF bm, of "gmpool dev" 2048] inv room one by (auto simp: dev_inv_def)
  let ?a = "unit_addr (gmpool dev) i"
  have i: "i < unat (nunits (gmpool dev))" "i < 2 ^ 32" using v(4) u32_bound[of "nunits (gmpool dev)"] by (auto simp: spec_alloc_def)
  let ?r0 = "objs (request_cache dev0) ! p"
  let ?r = "?r0\<lparr>rq_in := ?a, rq_insize := 1024, rq_out := ?a + 1024, rq_outsize := 1024,
      rq_service_name := strcpy_name ''nonexist service'' (rq_service_name ?r0), rq_callback := ClientCallback 0\<rparr>"
  define d where "d = dev0\<lparr>gmpool := gm, vm := vm dev0, request_cache := (request_cache dev0)\<lparr>objs := (objs (request_cache dev0))[p := ?r]\<rparr>\<rparr>"
  have p: "p \<in> inuse (request_cache dev0)" "p < length (objs (request_cache dev0))" using fr(1,7) slab_ok_bound by auto
  obtain gm' where f: "kgpu_vfree bm ?a gm = Inr gm'" "pool_inv gm'" "pool_blocks gm' = (pool_blocks gm)(i := None)"
    using bitmap_lib.vfree_law[OF bm v(2), of ?a] unit_index_addr[OF i(2), of gm] v(3) by (auto simp: unit_addr_def)
  have B: "pool_blocks gm' = pool_blocks (gmpool dev)"
    using spec_alloc_undo[OF v(4)] pool_inv_bounds[of "gmpool dev"] inv f(3) by (metis dev_inv_def)
  have cb: "callgpu_mycb bm 0 (Some p) (unlinked x p e (d\<lparr>item_cache := ci, reqs := [], rtdreqs := [x]\<rparr>)) =
      kgpu_free_request p ((unlinked x p e (d\<lparr>item_cache := ci, reqs := [], rtdreqs := [x]\<rparr>))\<lparr>gmpool := gm', vm := vm dev0\<rparr>)" for x ci
    using p f(1) fr(7) by (simp add: callgpu_mycb_def unlinked_def get_request_def d_def)
  have r: "rq_callback ?r = ClientCallback 0" and w: "vm_inv (vm dev0)" using inv fr(4) by (simp_all add: dev_inv_def)
  obtain dev1 dev2 dev3 where s: "kgpu_call_async chi (Some p) d = Inr (0, dev1)"
    "kgpu_read nb sg sizeof_ku_request fpos dev1 = Some (Inr (88, Some (fill_ku_request gm ?r), fpos + sizeof_ku_request, dev2))"
    "kgpu_write (callgpu_mycb bm) \<lparr>resp_id = rq_id ?r, resp_errcode = e\<rparr> sizeof_ku_response fpos' dev2 =
      Inr (8, fpos' + sizeof_ku_response, dev3)" "dev_inv dev3" "reqs dev3 = []" "rtdreqs dev3 = []" "gmpool dev3 = gm'"
    "inuse (request_cache dev3) = inuse (request_cache dev)" "inuse (item_cache dev3) = inuse (item_cache dev)"
    using life_of_request[where cl = "callgpu_mycb bm" and e = e and nb = nb and sg = sg and fpos = fpos and fpos' = fpos',
        OF inv q st al it r v(2) f(2) w w d_def cb] by (elim exE conjE) (rule that)
  have run: "callgpu_minit bm ch chi dev = Inr dev1"
    using al v(1) nz[OF i(1)] s(1) p fr(3,7) by (simp add: callgpu_minit_def get_request_def put_request_def d_def)
  have n: "takeWhile (\<lambda>c. c \<noteq> CHR 0x00) (ku_service_name (fill_ku_request gm ?r)) = ''nonexist service''"
    by (simp add: fill_ku_request_def c_string_of_strcpy KGPU_SERVICE_NAME_SIZE_def)
  show ?thesis
    using run s n B by (intro exI[of _ dev1] exI[of _ "fill_ku_request gm ?r"] exI[of _ dev2] exI[of _ dev3])
      (simp add: fill_ku_request_def)
qed

lemma idle_alloc: "\<exists>dev0. kgpu_alloc_request (Grow 1) (idle_dev\<lparr>vm := w\<rparr>) = (Some 1, dev0)"
  by (simp add: kgpu_alloc_request_def slab_growth_def slab_alloc_def idle_dev_def empty_slab_def kgpu_request_constructor_def
      kgpu_next_request_id_def Let_def split: prod.splits)

lemma idle_facts: "reqs (idle_dev\<lparr>vm := w\<rparr>) = []" "rtdreqs (idle_dev\<lparr>vm := w\<rparr>) = []"
  "dev_state (idle_dev\<lparr>vm := w\<rparr>) \<noteq> KGPU_TERMINATED" "fst (alloc_item (Grow 1) (idle_dev\<lparr>vm := w\<rparr>)) \<noteq> None"
  "gmpool (idle_dev\<lparr>vm := w\<rparr>) = two_unit_pool" "inuse (request_cache (idle_dev\<lparr>vm := w\<rparr>)) = {0}"
  by (simp_all add: idle_dev_def KGPU_OK_def KGPU_TERMINATED_def alloc_item_def slab_growth_def slab_alloc_def empty_slab_def)

theorem callgpu_gives_back_witness:
  "\<exists>dev1 ku dev2 dev3. callgpu_minit ref_bitmap (Grow 1) (Grow 1) (idle_dev\<lparr>vm := empty_vma\<rparr>) = Inr dev1 \<and>
    kgpu_read False False sizeof_ku_request 0 dev1 = Some (Inr (88, Some ku, 0 + sizeof_ku_request, dev2)) \<and>
    takeWhile (\<lambda>c. c \<noteq> CHR 0x00) (ku_service_name ku) = ''nonexist service'' \<and>
    kgpu_write (callgpu_mycb ref_bitmap) \<lparr>resp_id = ku_id ku, resp_errcode = KGPU_NO_SERVICE\<rparr> sizeof_ku_response 0 dev2 =
      Inr (8, 0 + sizeof_ku_response, dev3) \<and> inuse (request_cache dev3) = {0}"
proof -
  let ?d = "idle_dev\<lparr>vm := empty_vma\<rparr>"
  obtain dev0 where a: "kgpu_alloc_request (Grow 1) ?d = (Some 1, dev0)" using idle_alloc by blast
  have u: "unat (nunits (gmpool ?d)) = 2" "pool_blocks (gmpool ?d) = Map.empty"
    by (auto simp: idle_facts two_unit_pool_def pool_blocks_def blocks_of_def fun_eq_iff nth_Cons')
  have room: "has_room (unat (nunits (gmpool ?d))) (pool_blocks (gmpool ?d)) 1" unfolding u by (rule has_room_empty) simp
  have nz: "unit_addr (gmpool ?d) i \<noteq> 0" if "i < unat (nunits (gmpool ?d))" for i
  proof -
    have "i = 0 \<or> i = 1" using that u(1) by auto
    then show ?thesis by (auto simp: idle_facts two_unit_pool_def unit_addr_def kgpu_consts)
  qed
  show ?thesis
    using callgpu_gives_back[OF ref_bm.bitmap_lib_axioms vm_step[OF idle_dev_inv empty_vma_inv] idle_facts(1-3) a idle_facts(4) room nz,
        of False False 0 KGPU_NO_SERVICE 0] unfolding idle_facts(6) by blast
qed



end
