(* ===== verification/Benchmark.thy ===== *)
theory Benchmark
  imports Clients
begin

text \<open>
  The benchmark client \<^verbatim>\<open>services/test/sysbm/sysbm.c\<close>: it takes ten requests and ten buffers of 32 MiB, calls the
  service with growing sizes, first ten calls at a time and then one by one, and gives everything back.
\<close>

section \<open>The client\<close>

definition MAX_MEM_SZ :: ulong where "MAX_MEM_SZ = 32 * 1024 * 1024"

definition MIN_MEM_SZ :: ulong where "MIN_MEM_SZ = 0"

definition BATCH_NR :: nat where "BATCH_NR = 10"

text \<open>The arrays of \<open>minit\<close>; a completion is the number of \<open>complete\<close> calls nobody has waited for.\<close>

record sysbm_vars =
  rs :: "nat option list"
  bufs :: "ulong list"
  cs :: "nat list"

text \<open>
  What \<open>minit\<close> meets, call by call: the choices of the three caches, whether a signal ends a synchronous call, what the
  rest of the system does while it sleeps in the synchronous calls and in a batch of \<open>wait_for_completion\<close>, the time that passes in
  a measurement in microseconds, and where the completions are.
\<close>

record sysbm_env =
  ch_request :: "nat \<Rightarrow> slab_choice"
  ch_item :: "nat \<Rightarrow> nat \<Rightarrow> slab_choice"
  ch_sync :: "nat \<Rightarrow> slab_choice"
  signalled :: "nat \<Rightarrow> bool"
  meanwhile :: "nat \<Rightarrow> kgpu_dev \<Rightarrow> fault + kgpu_dev"
  during_waits :: "nat \<Rightarrow> nat list \<times> kgpu_dev \<Rightarrow> fault + (nat list \<times> kgpu_dev)"
  elapsed :: "nat \<Rightarrow> int"
  cs_addr :: "nat \<Rightarrow> ulong"

fun each :: "('a \<Rightarrow> 's \<Rightarrow> fault + 's) \<Rightarrow> 'a list \<Rightarrow> 's \<Rightarrow> fault + 's" where
  "each f [] s = Inr s"
| "each f (x # xs) s = andThen (f x s) (each f xs)"

lemma each_map: "each f (map g xs) s = each (f \<circ> g) xs s"
  by (induction xs arbitrary: s) (simp_all add: andThen_def split: sum.splits)

definition set_request :: "nat option \<Rightarrow> (kgpu_request \<Rightarrow> kgpu_request) \<Rightarrow> kgpu_dev \<Rightarrow> fault + kgpu_dev" where
  "set_request q f dev = andThen (get_request q dev) (\<lambda>r. put_request q (f r) dev)"

text \<open>The callback: \<open>complete\<close> on the completion \<open>kdata\<close> points to.\<close>

definition sysbm_mycb :: "(nat \<Rightarrow> ulong) \<Rightarrow> nat list \<Rightarrow> nat option \<Rightarrow> kgpu_dev \<Rightarrow> fault + (int \<times> nat list)" where
  "sysbm_mycb addr c req dev =
     andThen (get_request req dev) (\<lambda>r.
     case find (\<lambda>i. rq_kdata r = KPtr (addr i)) [0 ..< length c] of
       None \<Rightarrow> Inl OutOfBounds
     | Some i \<Rightarrow> Inr (0, c[i := c ! i + 1]))"

definition fill_request :: "ulong \<Rightarrow> ulong \<Rightarrow> kgpu_request \<Rightarrow> kgpu_request" where
  "fill_request buf c r = r\<lparr>rq_in := buf, rq_out := buf, rq_callback := ClientCallback 0, rq_kdata := KPtr c, rq_kdatasize := 8,
     rq_service_name := strcpy_name ''empty_service'' (rq_service_name r), rq_insize := PAGE_SIZE, rq_outsize := PAGE_SIZE,
     rq_udata := 0, rq_udatasize := 0\<rparr>"

text \<open>The first loop from index \<open>i\<close> on, for \<open>k\<close> more; the Boolean says that it came to its end.\<close>

fun prepare_from :: "bitmap_ops \<Rightarrow> sysbm_env \<Rightarrow> nat \<Rightarrow> nat \<Rightarrow> sysbm_vars \<Rightarrow> kgpu_dev \<Rightarrow> fault + (bool \<times> sysbm_vars \<times> kgpu_dev)" where
  "prepare_from bm env i 0 v dev = Inr (True, v, dev)"
| "prepare_from bm env i (Suc k) v dev =
     (let (q, dev1) = kgpu_alloc_request (ch_request env i) dev; v1 = v\<lparr>rs := (rs v)[i := q]\<rparr> in
      if q = None then Inr (False, v1, dev1)
      else
        andThen (kgpu_vmalloc bm MAX_MEM_SZ (gmpool dev1)) (\<lambda>(a, gm).
        let v2 = v1\<lparr>bufs := (bufs v)[i := a]\<rparr>; dev2 = dev1\<lparr>gmpool := gm\<rparr> in
        if a = 0 then Inr (False, v2, dev2)
        else
          andThen (set_request q (fill_request a (cs_addr env i)) dev2) (\<lambda>dev3.
          prepare_from bm env (Suc i) k (v2\<lparr>cs := (cs v)[i := 0]\<rparr>) dev3)))"

definition no_vars :: sysbm_vars where
  "no_vars = \<lparr>rs = replicate BATCH_NR None, bufs = replicate BATCH_NR 0, cs = replicate BATCH_NR 0\<rparr>"

definition sysbm_prepare :: "bitmap_ops \<Rightarrow> sysbm_env \<Rightarrow> kgpu_dev \<Rightarrow> fault + (bool \<times> sysbm_vars \<times> kgpu_dev)" where
  "sysbm_prepare bm env dev = prepare_from bm env 0 BATCH_NR no_vars dev"

definition give_back :: "bitmap_ops \<Rightarrow> nat option \<times> ulong \<Rightarrow> kgpu_dev \<Rightarrow> fault + kgpu_dev" where
  "give_back bm = (\<lambda>(q, a) dev.
     andThen (case q of None \<Rightarrow> Inr dev | Some p \<Rightarrow> kgpu_free_request p dev) (\<lambda>dev1.
     if a \<noteq> 0 then andThen (kgpu_vfree bm a (gmpool dev1)) (\<lambda>gm. Inr (dev1\<lparr>gmpool := gm\<rparr>)) else Inr dev1))"

definition sysbm_cleanup :: "bitmap_ops \<Rightarrow> sysbm_vars \<Rightarrow> kgpu_dev \<Rightarrow> fault + kgpu_dev" where
  "sysbm_cleanup bm v dev = each (\<lambda>i. give_back bm (rs v ! i, bufs v ! i)) [0 ..< BATCH_NR] dev"

text \<open>The sizes of the two measuring loops.\<close>

definition next_size :: "ulong \<Rightarrow> ulong" where
  "next_size sz = (if sz \<noteq> 0 then push_bit 1 sz else PAGE_SIZE)"

function sizes_from :: "ulong \<Rightarrow> ulong list" where
  "sizes_from sz = (if sz \<le> MAX_MEM_SZ then sz # sizes_from (next_size sz) else [])"
  by pat_completeness auto

termination
proof (relation "measure (\<lambda>sz. if sz = 0 then 2 ^ 26 else 2 ^ 25 + 1 - unat sz)", goal_cases)
  case (2 sz)
  then have le: "unat sz \<le> 2 ^ 25" by (simp add: MAX_MEM_SZ_def word_le_nat_alt)
  have "sz \<noteq> 0 \<Longrightarrow> unat (push_bit 1 sz) = 2 * unat sz"
    using le by (subst push_bit_eq_mult) (simp add: unat_word_ariths)
  moreover have "sz \<noteq> 0 \<Longrightarrow> 0 < unat sz" by (simp add: unat_gt_0)
  ultimately show ?case using le by (auto simp: next_size_def kgpu_consts)
qed simp

text \<open>The figures printed after a measurement: \<open>tt\<close> is a divisor.\<close>

definition cdiv :: "int \<Rightarrow> int \<Rightarrow> int" where
  "cdiv a b = (if 0 \<le> a * b then \<bar>a\<bar> div \<bar>b\<bar> else - (\<bar>a\<bar> div \<bar>b\<bar>))"

definition report :: "int \<Rightarrow> fault + unit" where
  "report tt = (if tt = 0 then Inl DivByZero else Inr ())"

definition renew_id :: "nat option \<Rightarrow> kgpu_dev \<Rightarrow> fault + kgpu_dev" where
  "renew_id q dev = (let (i, dev1) = kgpu_next_request_id dev in set_request q (\<lambda>r. r\<lparr>rq_id := i\<rparr>) dev1)"

definition set_sizes :: "ulong \<Rightarrow> nat option \<Rightarrow> kgpu_dev \<Rightarrow> fault + kgpu_dev" where
  "set_sizes sz q = set_request q (\<lambda>r. r\<lparr>rq_insize := sz, rq_outsize := sz\<rparr>)"

definition async_round :: "sysbm_env \<Rightarrow> nat \<Rightarrow> ulong \<Rightarrow> sysbm_vars \<times> kgpu_dev \<Rightarrow> (sysbm_vars \<times> kgpu_dev) run" where
  "async_round env n sz s =
     (let v = fst s in
      bindO (Some (each (\<lambda>i. set_sizes sz (rs v ! i)) [0 ..< BATCH_NR] (snd s))) (\<lambda>dev1.
      bindO (Some (each (\<lambda>i dev. andThen (kgpu_call_async (ch_item env n i) (rs v ! i) dev) (\<lambda>(_, d). Inr d)) [0 ..< BATCH_NR] dev1)) (\<lambda>dev2.
      bindO (Some (during_waits env n (cs v, dev2))) (\<lambda>(c, dev3).
      if 0 \<in> set c then None
      else
        bindO (Some (report (cdiv (elapsed env n) (int BATCH_NR)))) (\<lambda>_.
        bindO (Some (each (\<lambda>i. renew_id (rs v ! i)) [0 ..< BATCH_NR] dev3)) (\<lambda>dev4.
        Some (Inr (v\<lparr>cs := replicate BATCH_NR 0\<rparr>, dev4))))))))"

definition sync_call :: "sysbm_env \<Rightarrow> nat \<Rightarrow> nat option \<Rightarrow> kgpu_dev \<Rightarrow> kgpu_dev run" where
  "sync_call env n q dev =
     bindO (kgpu_call_sync (ch_sync env n) (ch_item env n 0) (meanwhile env n) (signalled env n) q dev) (\<lambda>(_, d). Some (Inr d))"

definition sync_round :: "sysbm_env \<Rightarrow> nat \<Rightarrow> ulong \<Rightarrow> sysbm_vars \<times> kgpu_dev \<Rightarrow> (sysbm_vars \<times> kgpu_dev) run" where
  "sync_round env n sz s =
     (let q = rs (fst s) ! 0 in
      bindO (Some (set_sizes sz q (snd s))) (\<lambda>dev1.
      bindO (sync_call env n q dev1) (\<lambda>dev2.
      bindO (Some (report (elapsed env n))) (\<lambda>_.
      bindO (Some (renew_id q dev2)) (\<lambda>dev3. Some (Inr (fst s, dev3)))))))"

fun rounds :: "(nat \<Rightarrow> ulong \<Rightarrow> 's \<Rightarrow> 's run) \<Rightarrow> nat \<Rightarrow> ulong list \<Rightarrow> 's \<Rightarrow> 's run" where
  "rounds f n [] s = Some (Inr s)"
| "rounds f n (sz # szs) s = bindO (f n sz s) (rounds f (Suc n) szs)"

text \<open>The test between preparation and \<open>cleanup\<close>; call 0 is the first one, rounds count on from 1.\<close>

definition sysbm_test :: "sysbm_env \<Rightarrow> sysbm_vars \<times> kgpu_dev \<Rightarrow> (sysbm_vars \<times> kgpu_dev) run" where
  "sysbm_test env s =
     (let szs = sizes_from MIN_MEM_SZ; q = rs (fst s) ! 0 in
      bindO (sync_call env 0 q (snd s)) (\<lambda>dev1.
      bindO (Some (renew_id q dev1)) (\<lambda>dev2.
      bindO (rounds (async_round env) 1 szs (fst s, dev2)) (\<lambda>s3.
      rounds (sync_round env) (1 + length szs) szs s3))))"

definition sysbm_minit :: "bitmap_ops \<Rightarrow> sysbm_env \<Rightarrow> kgpu_dev \<Rightarrow> kgpu_dev run" where
  "sysbm_minit bm env dev =
     bindO (Some (sysbm_prepare bm env dev)) (\<lambda>(ok, v, dev1).
     bindO (if ok then sysbm_test env (v, dev1) else Some (Inr (v, dev1))) (\<lambda>(v2, dev2).
     Some (sysbm_cleanup bm v2 dev2)))"

section \<open>What the client holds\<close>

text \<open>
  The entries of the two arrays, with the number of the unit a buffer begins at. \<open>held dev0 dev F\<close>: \<open>dev\<close> is \<open>dev0\<close> but for the
  requests and buffers of \<open>F\<close>.
\<close>

type_synonym holding = "nat option \<times> ulong \<times> nat"

definition held_requests :: "holding list \<Rightarrow> nat list" where
  "held_requests F = concat (map (\<lambda>(q, a, i). case q of None \<Rightarrow> [] | Some p \<Rightarrow> [p]) F)"

definition held_units :: "holding list \<Rightarrow> nat set" where
  "held_units F = {i. \<exists>q a. (q, a, i) \<in> set F \<and> a \<noteq> 0}"

definition held :: "kgpu_dev \<Rightarrow> kgpu_dev \<Rightarrow> holding list \<Rightarrow> bool" where
  "held dev0 dev F \<longleftrightarrow> dev_inv dev \<and> reqs dev = reqs dev0 \<and> rtdreqs dev = rtdreqs dev0 \<and> item_cache dev = item_cache dev0 \<and>
     kva (gmpool dev) = kva (gmpool dev0) \<and> nunits (gmpool dev) = nunits (gmpool dev0) \<and>
     distinct (held_requests F) \<and> inuse (request_cache dev) = inuse (request_cache dev0) \<union> set (held_requests F) \<and>
     inuse (request_cache dev0) \<inter> set (held_requests F) = {} \<and>
     (\<forall>p \<in> set (held_requests F). rq_callback (objs (request_cache dev) ! p) \<noteq> SyncCallback) \<and>
     (\<forall>(q, a, i) \<in> set F. a \<noteq> 0 \<longrightarrow> a = unit_addr (gmpool dev0) i \<and> i < 2 ^ 32) \<and>
     pool_blocks (gmpool dev) |` (- held_units F) = pool_blocks (gmpool dev0)"

definition arrays :: "sysbm_vars \<Rightarrow> holding list \<Rightarrow> bool" where
  "arrays v F \<longleftrightarrow> rs v = map fst F \<and> bufs v = map (fst \<circ> snd) F"

lemma held_requests_simps [simp]:
  "held_requests [] = []" "held_requests ((None, a, i) # F) = held_requests F"
  "held_requests ((Some p, a, i) # F) = p # held_requests F" "held_requests (F @ G) = held_requests F @ held_requests G"
  by (simp_all add: held_requests_def)

lemma held_units_simps [simp]:
  "held_units [] = {}" "held_units ((q, a, i) # F) = (if a \<noteq> 0 then insert i (held_units F) else held_units F)"
  "held_units (F @ G) = held_units F \<union> held_units G"
  by (auto simp: held_units_def)

lemma held_none: "dev_inv dev \<Longrightarrow> held dev dev []"
  by (simp add: held_def restrict_map_def)

lemma not_pending_new:
  assumes "dev_inv dev0" and "reqs dev = reqs dev0" "rtdreqs dev = rtdreqs dev0" "item_cache dev = item_cache dev0"
    and "p \<notin> inuse (request_cache dev0)"
  shows "\<not> pending p dev"
proof
  assume "pending p dev"
  then obtain x where "x \<in> set (queue dev0)" "item_r (objs (item_cache dev0) ! x) = Some p"
    using assms(2-4) by (auto simp: pending_def queue_def)
  then show False using assms(1,5) by (fastforce simp: dev_inv_def queue_inv_def)
qed

context bitmap_lib
begin

lemma give_back_law:
  assumes inv: "dev_inv dev0" and h: "held dev0 dev ((q, a, i) # F)"
  shows "\<exists>dev'. give_back bm (q, a) dev = Inr dev' \<and> held dev0 dev' F"
proof -
  obtain dev1 where 1: "(case q of None \<Rightarrow> Inr dev | Some p \<Rightarrow> kgpu_free_request p dev) = Inr dev1" "gmpool dev1 = gmpool dev"
    "held dev0 dev1 ((None, a, i) # F)"
  proof (cases q)
    case None
    with that h show thesis by simp
  next
    case (Some p)
    have p: "p \<in> inuse (request_cache dev)" "p \<notin> inuse (request_cache dev0)" "rq_callback (objs (request_cache dev) ! p) \<noteq> SyncCallback"
      using h Some by (auto simp: held_def)
    let ?dev1 = "dev\<lparr>request_cache := (request_cache dev)\<lparr>inuse := inuse (request_cache dev) - {p}\<rparr>\<rparr>"
    have run: "kgpu_free_request p dev = Inr ?dev1" using p by (simp add: kgpu_free_request_def)
    have np: "\<not> pending p dev" by (rule not_pending_new[OF inv _ _ _ p(2)]) (use h in \<open>simp_all add: held_def\<close>)
    have "dev_inv ?dev1" using free_request_law[OF _ p(1) np p(3)] h run by (auto simp: held_def)
    moreover have "inuse (request_cache dev) - {p} = inuse (request_cache dev0) \<union> set (held_requests F)"
      using h Some p(2) by (auto simp: held_def)
    ultimately have "held dev0 ?dev1 ((None, a, i) # F)" using h Some by (auto simp: held_def)
    then show thesis using that[of ?dev1] run Some by simp
  qed
  show ?thesis
  proof (cases "a = 0")
    case True
    then show ?thesis using 1 by (simp add: give_back_def held_def)
  next
    case False
    have a: "a = unit_addr (gmpool dev1) i" "i < 2 ^ 32" "pool_inv (gmpool dev1)"
      using 1(3) False by (auto simp: held_def unit_addr_def dev_inv_def)
    obtain gm where gm: "kgpu_vfree bm a (gmpool dev1) = Inr gm" "pool_inv gm" "unat (nunits gm) = unat (nunits (gmpool dev1))"
      "kva gm = kva (gmpool dev1)" "pool_blocks gm = (pool_blocks (gmpool dev1))(i := None)"
      using vfree_law[OF a(3), of a] unit_index_addr[OF a(2), of "gmpool dev1"] a(1) by auto
    have n: "nunits gm = nunits (gmpool dev1)" using gm(3) by (simp add: word_unat_eq_iff)
    have "pool_blocks gm |` (- held_units F) = pool_blocks (gmpool dev1) |` (- held_units ((None, a, i) # F))"
      using gm(5) False by (auto simp: restrict_map_def fun_eq_iff)
    then have "held dev0 (dev1\<lparr>gmpool := gm\<rparr>) F"
      using 1(3) gm n pool_step[of dev1 gm] by (simp add: held_def)
    then show ?thesis using 1(1) gm(1) False by (simp add: give_back_def)
  qed
qed

lemma give_back_all:
  assumes "dev_inv dev0" and "held dev0 dev F"
  shows "\<exists>dev'. each (give_back bm) (map (\<lambda>(q, a, i). (q, a)) F) dev = Inr dev' \<and> held dev0 dev' []"
  using assms(2)
proof (induction F arbitrary: dev)
  case (Cons e F)
  obtain q a i where e: "e = (q, a, i)" by (cases e)
  obtain dev1 where "give_back bm (q, a) dev = Inr dev1" "held dev0 dev1 F" using give_back_law[OF assms(1)] Cons.prems e by blast
  then show ?case using Cons.IH e by simp
qed simp

lemma new_request_objs:
  assumes "dev_inv dev" and "kgpu_alloc_request ch dev = (Some p, dev')"
  shows "rq_callback (objs (request_cache dev') ! p) \<noteq> SyncCallback"
    and "p' < length (objs (request_cache dev)) \<Longrightarrow> objs (request_cache dev') ! p' = objs (request_cache dev) ! p'"
proof -
  obtain fresh dev1 where f: "construct_requests (slab_growth ch) dev = (fresh, dev1)"
    by (cases "construct_requests (slab_growth ch) dev")
  obtain s where s: "dev1 = dev\<lparr>rid_sequence := s\<rparr>" using constructed_requests(1)[OF f] by blast
  obtain c where c: "slab_alloc ch fresh (request_cache dev) = (Some p, c)" "request_cache dev' = c"
    using assms(2) f s by (auto simp: kgpu_alloc_request_def split: prod.splits)
  have ok: "slab_ok (request_cache dev)" using assms(1) by (simp add: dev_inv_def caches_ok_def)
  note a = slab_alloc_Some[OF c(1) ok]
  show "p' < length (objs (request_cache dev)) \<Longrightarrow> objs (request_cache dev') ! p' = objs (request_cache dev) ! p'"
    using a(4) c(2) by (simp add: nth_append)
  have p: "p < length (objs c)" using slab_ok_bound[OF a(1)] a(3) by simp
  show "rq_callback (objs (request_cache dev') ! p) \<noteq> SyncCallback"
  proof (cases "p < length (objs (request_cache dev))")
    case True
    then show ?thesis using a(2,4) c(2) assms(1) by (auto simp: nth_append dev_inv_def sync_inv_def sync_at_def)
  next
    case False
    then have "objs c ! p \<in> set fresh" using p a(4) by (simp add: nth_append)
    then show ?thesis using constructed_requests(2)[OF f] c(2) by auto
  qed
qed

lemma held_new_request:
  assumes h: "held dev0 dev F" and al: "kgpu_alloc_request ch dev = (Some p, dev')"
  shows "held dev0 dev' (F @ [(Some p, 0, i)])" and "gmpool dev' = gmpool dev"
proof -
  have inv: "dev_inv dev" and ok: "slab_ok (request_cache dev)" using h by (auto simp: held_def dev_inv_def caches_ok_def)
  note fr = alloc_request_frame[OF al ok]
  show "gmpool dev' = gmpool dev" by (rule fr(3))
  have "\<forall>p' \<in> set (held_requests F). rq_callback (objs (request_cache dev') ! p') \<noteq> SyncCallback"
    using h slab_ok_bound[OF ok] new_request_objs(2)[OF inv al] by (auto simp: held_def)
  moreover have "dev_inv dev'" using alloc_request_law[OF inv al] by blast
  ultimately show "held dev0 dev' (F @ [(Some p, 0, i)])"
    using h fr new_request_objs(1)[OF inv al] by (auto simp: held_def)
qed

lemma held_no_request:
  assumes h: "held dev0 dev F" and al: "kgpu_alloc_request ch dev = (None, dev')"
  shows "held dev0 dev' F"
proof -
  obtain fresh dev1 where f: "construct_requests (slab_growth ch) dev = (fresh, dev1)"
    by (cases "construct_requests (slab_growth ch) dev")
  obtain s where s: "dev1 = dev\<lparr>rid_sequence := s\<rparr>" using constructed_requests(1)[OF f] by blast
  obtain c where c: "slab_alloc ch fresh (request_cache dev) = (None, c)" "dev' = dev\<lparr>rid_sequence := s, request_cache := c\<rparr>"
    using al f s by (auto simp: kgpu_alloc_request_def split: prod.splits)
  have inv: "dev_inv dev" and ok: "slab_ok (request_cache dev)" using h by (auto simp: held_def dev_inv_def caches_ok_def)
  note a = slab_alloc_None[OF c(1)]
  have "\<forall>p' \<in> set (held_requests F). rq_callback (objs c ! p') \<noteq> SyncCallback"
    using h slab_ok_bound[OF ok] a(2) by (auto simp: held_def nth_append)
  then show ?thesis using h alloc_request_law[OF inv al] a(1) c(2) by (simp add: held_def)
qed

lemma held_set_request:
  assumes h: "held dev0 dev F" and p: "p \<in> set (held_requests F)" and f: "\<And>r. rq_callback (f r) = ClientCallback k"
  shows "\<exists>dev'. set_request (Some p) f dev = Inr dev' \<and> held dev0 dev' F"
proof -
  have inv: "dev_inv dev" and ok: "slab_ok (request_cache dev)" and pi: "p \<in> inuse (request_cache dev)"
    using h p by (auto simp: held_def dev_inv_def caches_ok_def)
  let ?r = "f (objs (request_cache dev) ! p)"
  let ?dev' = "dev\<lparr>request_cache := (request_cache dev)\<lparr>objs := (objs (request_cache dev))[p := ?r]\<rparr>\<rparr>"
  have run: "put_request (Some p) ?r dev = Inr ?dev'" "get_request (Some p) dev = Inr (objs (request_cache dev) ! p)"
    using ok pi by (simp_all add: put_request_def get_request_def)
  have "dev_inv ?dev'" using put_request_law[OF inv pi, of ?r] f run(1) by auto
  moreover have "\<forall>p' \<in> set (held_requests F). rq_callback ((objs (request_cache dev))[p := ?r] ! p') \<noteq> SyncCallback"
    using h f slab_ok_bound[OF ok pi] by (auto simp: held_def nth_list_update)
  ultimately show ?thesis using h run by (simp add: set_request_def held_def)
qed

lemma held_new_buffer:
  assumes h: "held dev0 dev (F @ [(q, 0, j)])" and nz: "\<And>i. i < unat (nunits (gmpool dev0)) \<Longrightarrow> unit_addr (gmpool dev0) i \<noteq> 0"
  shows "\<exists>a gm i. kgpu_vmalloc bm MAX_MEM_SZ (gmpool dev) = Inr (a, gm) \<and> held dev0 (dev\<lparr>gmpool := gm\<rparr>) (F @ [(q, a, i)])"
proof -
  have inv: "dev_inv dev" "pool_inv (gmpool dev)" using h by (auto simp: held_def dev_inv_def)
  have u: "0 < unat (req_units MAX_MEM_SZ)" by code_simp
  obtain a gm where v: "kgpu_vmalloc bm MAX_MEM_SZ (gmpool dev) = Inr (a, gm)" "pool_inv gm" "unat (nunits gm) = unat (nunits (gmpool dev))"
      "kva gm = kva (gmpool dev)"
      "if has_room (unat (nunits (gmpool dev))) (pool_blocks (gmpool dev)) (unat (req_units MAX_MEM_SZ))
       then \<exists>i. a = unit_addr (gmpool dev) i \<and> spec_alloc (unat (nunits (gmpool dev))) (pool_blocks (gmpool dev)) i (unat (req_units MAX_MEM_SZ)) (pool_blocks gm)
       else a = 0 \<and> gm = gmpool dev"
    using vmalloc_law[OF inv(2) u] by (elim exE conjE) (rule that)
  have n: "nunits gm = nunits (gmpool dev)" using v(3) by (simp add: word_unat_eq_iff)
  show ?thesis
  proof (cases "has_room (unat (nunits (gmpool dev))) (pool_blocks (gmpool dev)) (unat (req_units MAX_MEM_SZ))")
    case False
    then show ?thesis using v h by (intro exI[of _ 0] exI[of _ gm] exI[of _ j]) simp
  next
    case True
    then obtain i where i: "a = unit_addr (gmpool dev) i"
      "spec_alloc (unat (nunits (gmpool dev))) (pool_blocks (gmpool dev)) i (unat (req_units MAX_MEM_SZ)) (pool_blocks gm)" using v(5) by auto
    have lt: "i < unat (nunits (gmpool dev0))" "i < 2 ^ 32"
      using i(2) h u32_bound[of "nunits (gmpool dev)"] by (auto simp: spec_alloc_def held_def)
    have a: "a = unit_addr (gmpool dev0) i" "a \<noteq> 0" using i(1) h nz[OF lt(1)] by (auto simp: held_def unit_addr_def)
    have "(pool_blocks gm)(i := None) = pool_blocks (gmpool dev)"
      using spec_alloc_undo[OF i(2)] pool_inv_bounds[OF inv(2)] by metis
    then have "pool_blocks gm |` (- insert i (held_units F)) = pool_blocks (gmpool dev) |` (- held_units F)"
      by (auto simp: restrict_map_def fun_eq_iff fun_upd_def split: if_splits)
    then have "pool_blocks gm |` (- insert i (held_units F)) = pool_blocks (gmpool dev0)" using h by (simp add: held_def)
    moreover have "held_requests [(q, a, i)] = held_requests [(q, 0, j)]" by (cases q) simp_all
    ultimately show ?thesis
      using h v n a lt pool_step[OF inv(1) v(2)] by (intro exI[of _ a] exI[of _ gm] exI[of _ i]) (simp add: held_def)
  qed
qed

lemma held_pad: "held dev0 dev F \<Longrightarrow> held dev0 dev (F @ replicate m (None, 0, 0))"
proof -
  have "held_requests (replicate m (None, 0, 0)) = []" "held_units (replicate m (None, 0, 0)) = {}" for m
    by (induction m) simp_all
  then show "held dev0 dev F \<Longrightarrow> ?thesis" by (auto simp: held_def)
qed

lemma prepare_law:
  assumes nz: "\<And>i. i < unat (nunits (gmpool dev0)) \<Longrightarrow> unit_addr (gmpool dev0) i \<noteq> 0"
    and "held dev0 dev F" and "i = length F" and "arrays v (F @ replicate k (None, 0, 0))" and "\<forall>(q, a, j) \<in> set F. q \<noteq> None \<and> a \<noteq> 0"
  shows "\<exists>ok v' dev' F'. prepare_from bm env i k v dev = Inr (ok, v', dev') \<and> held dev0 dev' F' \<and> length F' = i + k \<and> arrays v' F' \<and>
    ok = (\<forall>(q, a, j) \<in> set F'. q \<noteq> None \<and> a \<noteq> 0)"
  using assms(2-)
proof (induction k arbitrary: i v dev F)
  case 0
  then show ?case by (intro exI[of _ True] exI[of _ v] exI[of _ dev] exI[of _ F]) simp
next
  case (Suc k)
  note h = Suc.prems(1)
  let ?pad = "replicate k (None, 0, 0) :: holding list"
  obtain q dev1 where al: "kgpu_alloc_request (ch_request env i) dev = (q, dev1)" by fastforce
  have v1: "(rs v)[i := x] = map fst (F @ (x, b, c) # ?pad)" "(bufs v)[i := b] = map (fst \<circ> snd) (F @ (x, b, c) # ?pad)" for x b c
    using Suc.prems(2,3) by (simp_all add: arrays_def list_update_append)
  show ?case
  proof (cases q)
    case None
    have "prepare_from bm env i (Suc k) v dev = Inr (False, v\<lparr>rs := (rs v)[i := None]\<rparr>, dev1)" using al None by simp
    moreover have "held dev0 dev1 (F @ replicate (Suc k) (None, 0, 0))" using held_no_request[OF h] held_pad al None by blast
    moreover have "arrays (v\<lparr>rs := (rs v)[i := None]\<rparr>) (F @ replicate (Suc k) (None, 0, 0))"
      using v1(1)[of None 0 0] Suc.prems(3) by (simp add: arrays_def)
    ultimately show ?thesis using Suc.prems(2) by (intro exI conjI) (assumption | simp)+
  next
    case (Some p)
    note n1 = held_new_request[OF h al[unfolded Some]]
    obtain a gm j where a: "kgpu_vmalloc bm MAX_MEM_SZ (gmpool dev1) = Inr (a, gm)" "held dev0 (dev1\<lparr>gmpool := gm\<rparr>) (F @ [(Some p, a, j)])"
      using held_new_buffer[OF n1(1)[of 0] nz] by blast
    let ?v2 = "v\<lparr>rs := (rs v)[i := q], bufs := (bufs v)[i := a]\<rparr>" and ?F = "F @ [(Some p, a, j)]"
    have v2: "arrays ?v2 (?F @ ?pad)" using v1(1)[of q a j] v1(2)[of a q j] Some by (simp add: arrays_def)
    show ?thesis
    proof (cases "a = 0")
      case True
      then have "prepare_from bm env i (Suc k) v dev = Inr (False, ?v2, dev1\<lparr>gmpool := gm\<rparr>)" using al a(1) Some by simp
      moreover have "held dev0 (dev1\<lparr>gmpool := gm\<rparr>) (?F @ ?pad)" using held_pad[OF a(2)] .
      ultimately show ?thesis using v2 Suc.prems(2) True by (intro exI conjI) (assumption | simp)+
    next
      case False
      obtain dev3 where 3: "set_request (Some p) (fill_request a (cs_addr env i)) (dev1\<lparr>gmpool := gm\<rparr>) = Inr dev3" "held dev0 dev3 ?F"
        using held_set_request[OF a(2), of p "fill_request a (cs_addr env i)" 0] by (auto simp: fill_request_def)
      let ?v3 = "?v2\<lparr>cs := (cs v)[i := 0]\<rparr>"
      have eq: "prepare_from bm env i (Suc k) v dev = prepare_from bm env (Suc i) k ?v3 dev3" using al a(1) 3(1) Some False by simp
      have v3: "arrays ?v3 (?F @ ?pad)" using v2 by (simp add: arrays_def)
      show ?thesis unfolding eq using Suc.IH[OF 3(2) _ v3] Suc.prems(2,4) False by simp
    qed
  qed
qed

lemma cleanup_law:
  assumes "dev_inv dev0" and "held dev0 dev F" and "arrays v F" and "length F = BATCH_NR"
  shows "\<exists>dev'. sysbm_cleanup bm v dev = Inr dev' \<and> held dev0 dev' []"
proof -
  have "map (\<lambda>(q, a, i). (q, a)) F = map (\<lambda>i. (rs v ! i, bufs v ! i)) [0 ..< BATCH_NR]"
    using assms(3,4) by (auto simp: arrays_def list_eq_iff_nth_eq split: prod.splits)
  then have "sysbm_cleanup bm v dev = each (give_back bm) (map (\<lambda>(q, a, i). (q, a)) F) dev"
    by (simp add: sysbm_cleanup_def each_map comp_def)
  then show ?thesis using give_back_all[OF assms(1,2)] by simp
qed

lemma no_room_stops:
  assumes "dev_inv dev" and "\<not> has_room (unat (nunits (gmpool dev))) (pool_blocks (gmpool dev)) 32"
    and "sysbm_prepare bm env dev = Inr (ok, v, dev')"
  shows "\<not> ok"
proof -
  have ok: "slab_ok (request_cache dev)" "pool_inv (gmpool dev)" using assms(1) by (auto simp: dev_inv_def caches_ok_def)
  have u: "unat (req_units MAX_MEM_SZ) = 32" by code_simp
  obtain q dev1 where al: "kgpu_alloc_request (ch_request env 0) dev = (q, dev1)" by fastforce
  have "\<exists>gm. kgpu_vmalloc bm MAX_MEM_SZ (gmpool dev) = Inr (0, gm)" using vmalloc_law[OF ok(2), of MAX_MEM_SZ] u assms(2) by auto
  moreover have "gmpool dev1 = gmpool dev" if "q = Some p" for p using alloc_request_frame(3)[OF _ ok(1)] al that by blast
  ultimately show ?thesis using assms(3) al by (cases q) (auto simp: sysbm_prepare_def BATCH_NR_def eval_nat_numeral)
qed

end

section \<open>Properties\<close>

lemma sizes_of_rounds: "sizes_from MIN_MEM_SZ = 0 # map (\<lambda>k. 2 ^ k * PAGE_SIZE) [0 ..< 14]"
  by code_simp

text \<open>
  C17: The benchmark gives back what it prepared. Whatever the caches answer and wherever the preparation stops (a request that
  cannot be allocated, a buffer that cannot), it submits nothing, it reports success exactly when all ten requests and buffers were obtained,
  and \<open>cleanup\<close> then releases without a fault all requests and buffers it took and nothing else. On a pool with no room for
  32 units, such as the two-unit pool of the helper, \<open>minit\<close> ends there.
\<close>

theorem sysbm_gives_back:
  assumes "bitmap_lib bm" and "dev_inv dev" and nz: "\<And>i. i < unat (nunits (gmpool dev)) \<Longrightarrow> unit_addr (gmpool dev) i \<noteq> 0"
  shows "\<exists>ok v dev1 dev2. sysbm_prepare bm env dev = Inr (ok, v, dev1) \<and> dev_inv dev1 \<and> reqs dev1 = reqs dev \<and> rtdreqs dev1 = rtdreqs dev \<and>
    ok = (None \<notin> set (rs v) \<and> 0 \<notin> set (bufs v)) \<and>
    sysbm_cleanup bm v dev1 = Inr dev2 \<and> dev_inv dev2 \<and> reqs dev2 = reqs dev \<and> rtdreqs dev2 = rtdreqs dev \<and>
    inuse (request_cache dev2) = inuse (request_cache dev) \<and> pool_blocks (gmpool dev2) = pool_blocks (gmpool dev) \<and>
    (\<not> has_room (unat (nunits (gmpool dev))) (pool_blocks (gmpool dev)) 32 \<longrightarrow> sysbm_minit bm env dev = Some (Inr dev2))"
proof -
  obtain ok v dev1 F where p: "sysbm_prepare bm env dev = Inr (ok, v, dev1)" "held dev dev1 F" "length F = BATCH_NR" "arrays v F"
      "ok = (\<forall>(q, a, j) \<in> set F. q \<noteq> None \<and> a \<noteq> 0)"
    using bitmap_lib.prepare_law[OF assms(1) nz held_none[OF assms(2)], of 0 no_vars BATCH_NR env]
    unfolding sysbm_prepare_def by (auto simp: arrays_def no_vars_def)
  obtain dev2 where c: "sysbm_cleanup bm v dev1 = Inr dev2" "held dev dev2 []"
    using bitmap_lib.cleanup_law[OF assms(1,2) p(2,4,3)] by blast
  have "ok = (None \<notin> set (rs v) \<and> 0 \<notin> set (bufs v))" using p(4,5) by (force simp: arrays_def)
  moreover have "\<not> has_room (unat (nunits (gmpool dev))) (pool_blocks (gmpool dev)) 32 \<longrightarrow> sysbm_minit bm env dev = Some (Inr dev2)"
    using bitmap_lib.no_room_stops[OF assms(1,2) _ p(1)] p(1) c(1) by (auto simp: sysbm_minit_def)
  ultimately show ?thesis
    using p(1,2) c by (intro exI[of _ ok] exI[of _ v] exI[of _ dev1] exI[of _ dev2]) (simp add: held_def restrict_map_def)
qed

definition plain_env :: sysbm_env where
  "plain_env = \<lparr>ch_request = (\<lambda>i. Grow 1), ch_item = (\<lambda>n i. Grow 1), ch_sync = (\<lambda>n. Grow 1), signalled = (\<lambda>n. False),
     meanwhile = (\<lambda>n dev. Inr dev), during_waits = (\<lambda>n s. Inr s), elapsed = (\<lambda>n. 1000), cs_addr = (\<lambda>i. 0x8000 + of_nat i * 32)\<rparr>"

theorem sysbm_gives_back_witness:
  "\<exists>dev2. sysbm_minit ref_bitmap plain_env idle_dev = Some (Inr dev2) \<and> dev_inv dev2 \<and> reqs dev2 = [] \<and>
     inuse (request_cache dev2) = {0} \<and> pool_blocks (gmpool dev2) = pool_blocks two_unit_pool"
proof -
  have nz: "unit_addr (gmpool idle_dev) i \<noteq> 0" if "i < unat (nunits (gmpool idle_dev))" for i
  proof -
    have "i = 0 \<or> i = 1" using that by (auto simp: idle_dev_def two_unit_pool_def)
    then show ?thesis by (auto simp: unit_addr_def idle_dev_def two_unit_pool_def kgpu_consts)
  qed
  have room: "\<not> has_room (unat (nunits (gmpool idle_dev))) (pool_blocks (gmpool idle_dev)) 32"
    by (simp add: has_room_def idle_dev_def two_unit_pool_def)
  show ?thesis
    using sysbm_gives_back[OF ref_bm.bitmap_lib_axioms idle_dev_inv nz, of plain_env] room by (auto simp: idle_dev_def)
qed

end
