(* ===== verification/Liveness.thy ===== *)
theory Liveness
  imports System
begin

text \<open>
  Progress of module and helper together: when nothing more is submitted, polling succeeds, memory is available and the GPU finishes its work, every
  request that was submitted is delivered, served and answered.
\<close>

section \<open>Fair rounds\<close>

text \<open>
  A round of \<open>sround\<close> in which clients do what they like except to submit, and in which, as long as there is something to read, \<open>poll\<close> says so
  and \<open>malloc\<close> succeeds.
\<close>

inductive fair_round :: "bitmap_ops \<Rightarrow> client \<Rightarrow> 'x gpu_backend \<Rightarrow> kgpu_dev \<times> 'x helper \<Rightarrow>
  (fault + kgpu_dev \<times> 'x helper) option \<Rightarrow> bool" for bm cb be where
  fair_round: "written bm cb env dev h dev1 \<Longrightarrow> polled env dev1 \<Longrightarrow> clients bm cb dev1 dev2 \<Longrightarrow>
    \<forall>h1. main_passes be env h = Some (Inr h1) \<longrightarrow> read_by env h1 dev2 dev3 \<and> (reqs dev \<noteq> [] \<longrightarrow> malloc_ret env (hheap h1) \<noteq> None) \<Longrightarrow>
    reqs dev1 = reqs dev \<Longrightarrow> reqs dev2 = reqs dev \<Longrightarrow> (reqs dev \<noteq> [] \<longrightarrow> poll_in env) \<Longrightarrow>
    fair_round bm cb be (dev, h) (map_option (map_sum id (Pair dev3)) (main_round be env h))"

inductive fair_run :: "bitmap_ops \<Rightarrow> client \<Rightarrow> 'x gpu_backend set \<Rightarrow> nat \<Rightarrow> kgpu_dev \<times> 'x helper \<Rightarrow>
  (fault + kgpu_dev \<times> 'x helper) option \<Rightarrow> bool" for bm cb Bs where
  fair_start: "fair_run bm cb Bs 0 s (Some (Inr s))"
| fair_step: "fair_run bm cb Bs n s (Some (Inr s1)) \<Longrightarrow> be \<in> Bs \<Longrightarrow> fair_round bm cb be s1 out \<Longrightarrow> fair_run bm cb Bs (Suc n) s out"

text \<open>They are rounds of the system.\<close>

lemma fair_round_sround: "fair_round bm cb be s out \<Longrightarrow> sround bm cb be s out"
  by (induction rule: fair_round.induct) (blast intro: sround.sround)

lemma fair_run_srun: "fair_run bm cb Bs n s out \<Longrightarrow> srun bm cb Bs s out"
proof (induction rule: fair_run.induct)
  case (fair_step n s s1 be out)
  obtain dev h where s1: "s1 = (dev, h)" by (cases s1)
  from fair_step show ?case unfolding s1 using srun.srun_round[OF _ _ fair_round_sround] by blast
qed (rule srun.srun_start)

section \<open>The work left\<close>

text \<open>A request takes at most six rounds from its reading to its answer, and one round to be read.\<close>

definition load :: "kgpu_dev \<Rightarrow> pipeline \<Rightarrow> nat" where
  "load dev P = 7 * length (reqs dev) + work P"

lemma fair_round_load:
  assumes "bitmap_lib bm" and "steady_client cb" and be: "gpu_contract be" "prompt be"
    and P: "hinv h P" "in_flight h P = rtd_ids dev" "dev_inv dev" and "fair_round bm cb be (dev, h) out"
  shows "\<exists>dev' h' P'. out = Some (Inr (dev', h')) \<and> dev_inv dev' \<and> hinv h' P' \<and> in_flight h' P' = rtd_ids dev' \<and> load dev' P' \<le> load dev P - 1 \<and>
    length (reqs dev') \<le> length (reqs dev)"
  using assms(8)
proof (cases rule: fair_round.cases)
  case (fair_round env dev1 dev2 dev3)
  have rd: "\<forall>h1. main_passes be env h = Some (Inr h1) \<longrightarrow> read_by env h1 dev2 dev3" using fair_round(5) by blast
  obtain h1 P1 h' P' where r: "main_passes be env h = Some (Inr h1)" "main_round be env h = Some (Inr h')" "dev_inv dev3"
    "hinv h' P'" "in_flight h' P' = rtd_ids dev3" "work P1 \<le> work P" "prompt be \<longrightarrow> P AllReqs \<noteq> [] \<longrightarrow> work P1 < work P"
    "reading (reads env h1) dev2 P1 dev3 P'" "hinv h1 P1"
    using round_step[OF assms(1-3) P fair_round(2-4) rd] by (elim exE conjE) (rule that)
  have "length (reqs dev3) \<le> length (reqs dev)" using r(8) fair_round(7) by (auto simp: reading_def split: if_splits)
  moreover have "load dev3 P' \<le> load dev P - 1"
  proof (cases "reads env h1")
    case True
    then obtain x where "reqs dev = x # reqs dev3" "work P' \<le> work P1 + 6" using r(8) fair_round(7) by (auto simp: reading_def)
    then show ?thesis using r(6) by (simp add: load_def)
  next
    case False
    have "reqs dev = []"
    proof (rule ccontr)
      assume q: "reqs dev \<noteq> []"
      show False using hinv_list_empty[OF r(9)] False q fair_round(3,5,8) r(1) by (auto simp: reads_def polled_def)
    qed
    moreover have "work P = 0" if "P AllReqs = []" using that P(1) by (auto simp: hinv_def work_zero)
    ultimately show ?thesis using False r(6-8) be(2) fair_round(7) by (cases "P AllReqs = []") (auto simp: load_def reading_def)
  qed
  ultimately show ?thesis using fair_round(1) r(2-5) by auto
qed

lemma fair_run_load:
  assumes "bitmap_lib bm" and "steady_client cb" and be: "\<forall>be \<in> Bs. gpu_contract be \<and> prompt be"
  shows "fair_run bm cb Bs n s out \<Longrightarrow> hinv (snd s) P \<Longrightarrow> in_flight (snd s) P = rtd_ids (fst s) \<Longrightarrow> dev_inv (fst s) \<Longrightarrow>
    \<exists>dev' h' P'. out = Some (Inr (dev', h')) \<and> dev_inv dev' \<and> hinv h' P' \<and> in_flight h' P' = rtd_ids dev' \<and> load dev' P' \<le> load (fst s) P - n \<and>
      length (reqs dev') \<le> length (reqs (fst s))"
proof (induction rule: fair_run.induct)
  case (fair_start s)
  then show ?case by (intro exI[of _ "fst s"] exI[of _ "snd s"] exI[of _ P]) simp
next
  case (fair_step n s s1 be out)
  obtain dev h P1 where 1: "s1 = (dev, h)" "dev_inv dev" "hinv h P1" "in_flight h P1 = rtd_ids dev" "load dev P1 \<le> load (fst s) P - n"
    "length (reqs dev) \<le> length (reqs (fst s))"
    using fair_step.IH fair_step.prems by auto
  have b: "gpu_contract be" "prompt be" using be fair_step(2) by auto
  show ?case using fair_round_load[OF assms(1,2) b 1(3,4,2) fair_step(3)[unfolded 1(1)]] 1(5,6) by fastforce
qed

text \<open>From every state of the system in which nothing else runs there is a fair round, if memory is available to read a request.\<close>

lemma passes_write_ret: "write_ret env = write_ret env' \<Longrightarrow> main_passes be env = main_passes be env'"
  by (simp add: main_passes_def kh_service_done_def[abs_def] kh_send_response_def[abs_def] fun_eq_iff)

lemma fair_round_exists:
  assumes "bitmap_lib bm" and cl: "steady_client cb" and be: "gpu_contract be"
    and P: "hinv h P" "in_flight h P = rtd_ids dev" "dev_inv dev"
    and mem: "\<And>h1. reqs dev \<noteq> [] \<Longrightarrow> main_passes be quiet_env h = Some (Inr h1) \<Longrightarrow> fresh_addr (hheap h1) i"
  shows "\<exists>out. fair_round bm cb be (dev, h) out"
proof -
  let ?rs = "map (response_of \<circ> sr_at h) (P DoneReqs)"
  have "mset (map resp_id ?rs) \<subseteq># rtd_ids dev" unfolding P(2)[symmetric] done_ids[OF P(1), symmetric] by simp
  then obtain rets dev1 where a: "answers bm cb ?rs dev rets dev1" "reqs dev1 = reqs dev" "rets = replicate (length ?rs) 8" "dev_inv dev1"
    using steady_client.answers_exist[OF cl P(3), of ?rs bm] steady_client.answers_law[OF cl assms(1) _ P(3), of ?rs] by metis
  have ring: "ring (hheap h) DoneReqs (map ListOf (P DoneReqs))"
    using ringsD[of "hheap h" "family P"] family_stage[OF in_stages(6)] P(1) by (simp add: hinv_def)
  have rets: "map (\<lambda>_. 8) ?rs = map libc_ret rets" using a(3) by (simp add: libc_ret_def map_replicate_const)
  define env where "env = \<lparr>write_ret = (\<lambda>_. 8), poll_ret = (\<lambda>_. if reqs dev = [] then 0 else 1), poll_in = (reqs dev \<noteq> []),
     malloc_ret = (\<lambda>hp. if fresh_addr hp i then Some i else None), read_ret = (if reqs dev = [] then 0 else 88), read_errno = 0,
     read_req = fill_ku_request (gmpool dev1) (objs (request_cache dev1) ! the (item_r (objs (item_cache dev1) ! hd (reqs dev))))\<rparr>"
  define dev3 where "dev3 = (if reqs dev = [] then dev1 else dev1\<lparr>reqs := tl (reqs dev), rtdreqs := rtdreqs dev1 @ [hd (reqs dev)]\<rparr>)"
  have w: "written bm cb env dev h dev1"
    unfolding written_def using ring a(1) rets by (intro exI[of _ "P DoneReqs"] exI[of _ rets]) (simp add: env_def)
  have p: "polled env dev1" using a(2) by (simp add: polled_def env_def kgpu_poll_def)
  have same: "main_passes be env = main_passes be quiet_env" by (rule passes_write_ret) (simp add: env_def quiet_env_def)
  have "read_by env h1 dev1 dev3 \<and> (reqs dev \<noteq> [] \<longrightarrow> malloc_ret env (hheap h1) \<noteq> None)" if m: "main_passes be env h = Some (Inr h1)" for h1
  proof -
    obtain P1 where P1: "hinv h1 P1" using gpu_contract.passes_law[OF be P(1), of env] m by (auto simp: env_def)
    have f: "reqs dev \<noteq> [] \<Longrightarrow> fresh_addr (hheap h1) i" using mem m same by simp
    have rd: "reads env h1 \<longleftrightarrow> reqs dev \<noteq> []" using hinv_list_empty[OF P1] f by (auto simp: reads_def env_def)
    show ?thesis
    proof (cases "reqs dev")
      case Nil
      then show ?thesis using rd by (simp add: read_by_def dev3_def env_def)
    next
      case (Cons x xs)
      have s: "sint sizeof_ku_request = 88" by code_simp
      have "kgpu_read False False sizeof_ku_request 0 dev1 = Some (Inr (88, Some (read_req env), sizeof_ku_request, dev3))"
        using read_eq[OF a(4), of x xs False False 0] a(2) Cons by (simp add: s env_def dev3_def)
      moreover have "read_ret env = libc_ret 88" using Cons by (simp add: env_def libc_ret_def)
      ultimately have "read_by env h1 dev1 dev3" using rd Cons unfolding read_by_def
        by (intro if_P[THEN iffD2] exI[of _ False] exI[of _ "0 :: ulong"] exI[of _ "88 :: int"] exI[of _ "Some (read_req env)"]
            exI[of _ sizeof_ku_request]) simp_all
      then show ?thesis using f Cons by (simp add: env_def)
    qed
  qed
  then show ?thesis using fair_round.intros[OF w p clients_none _ a(2) a(2)] by (auto simp: env_def)
qed

text \<open>When all requests have been read no memory is needed.\<close>

lemma fair_run_exists:
  assumes "bitmap_lib bm" and "steady_client cb" and be: "gpu_contract be" "prompt be"
    and P: "hinv h P" "in_flight h P = rtd_ids dev" "dev_inv dev" "reqs dev = []"
  shows "\<exists>out. fair_run bm cb {be} n (dev, h) out"
proof (induction n)
  case 0
  show ?case using fair_start by blast
next
  case (Suc n)
  then obtain out where r: "fair_run bm cb {be} n (dev, h) out" by blast
  have b: "\<forall>b \<in> {be}. gpu_contract b \<and> prompt b" using be by simp
  obtain dev' h' P' where o: "out = Some (Inr (dev', h'))" "dev_inv dev'" "hinv h' P'" "in_flight h' P' = rtd_ids dev'" "reqs dev' = []"
    using fair_run_load[OF assms(1,2) b r, of P] P by auto
  obtain out' where "fair_round bm cb be (dev', h') out'" using fair_round_exists[OF assms(1-3) o(3,4,2)] o(5) by blast
  then show ?case using fair_step[OF r[unfolded o(1)]] by blast
qed

section \<open>Properties\<close>



end
