(* ===== verification/Cuda_Service.thy ===== *)
theory Cuda_Service
  imports Cuda
begin

text \<open>
  The CUDA variant of the test service (\<^verbatim>\<open>services/test/libsrv_test/srv_test.cu\<close>). Its functions have effects on the device: they queue copies on the
  stream of the request, as the back end's default functions do.
\<close>

section \<open>The service\<close>

definition empty_cs :: service_fn where
  "empty_cs sr = (0, sr\<lparr>block_x := 1, grid_x := 1, block_y := 1, grid_y := 1\<rparr>)"

text \<open>The kernel is empty and the result of its launch is not looked at.\<close>

definition empty_launch :: "kgpu_service_request \<Rightarrow> cuda_state \<Rightarrow> fault + (int \<times> cuda_state)" where
  "empty_launch sr gs = Inr (0, gs)"

definition empty_prepare :: "cuda_driver \<Rightarrow> kgpu_service_request \<Rightarrow> cuda_state \<Rightarrow> fault + (int \<times> cuda_state)" where
  "empty_prepare drv sr gs = andThen (queue_copy drv (din sr) (hin sr) (insize sr) (stream sr) gs) (\<lambda>gs'. Inr (0, gs'))"

definition empty_post :: "cuda_driver \<Rightarrow> kgpu_service_request \<Rightarrow> cuda_state \<Rightarrow> fault + (int \<times> cuda_state)" where
  "empty_post drv sr gs = andThen (queue_copy drv (hout sr) (dout sr) (outsize sr) (stream sr) gs) (\<lambda>gs'. Inr (0, gs'))"

section \<open>Lemmas\<close>

text \<open>On a request that \<open>gpu_alloc_stream\<close> gave a stream, the service's own functions do what the defaults of the back end do.\<close>

lemma empty_is_default:
  assumes "streams_ok gs" and "cuda_alloc_stream sr0 gs = (0, sr, gs1)"
  shows "empty_prepare drv sr gs1 = default_prepare drv sr gs1" and "empty_post drv sr gs1 = default_post drv sr gs1"
proof -
  obtain i where i: "find_stream (streamuses gs) 0 MAX_STREAM_NR = Some i" "sr = sr0\<lparr>stream_id := int i, stream := streams gs ! i\<rparr>"
    "gs1 = gs\<lparr>streamuses := (streamuses gs)[i := 1]\<rparr>"
    using assms(2) by (auto simp: cuda_streams_same gpu_alloc_stream_def split: option.splits)
  have "cuda_get_stream (stream_id sr) gs1 = stream sr" using find_stream_Some[OF i(1)] i(2,3) by (simp add: cuda_get_stream_def)
  then show "empty_prepare drv sr gs1 = default_prepare drv sr gs1" "empty_post drv sr gs1 = default_post drv sr gs1"
    by (simp_all add: empty_prepare_def empty_post_def default_prepare_def default_post_def)
qed

text \<open>A served request: input to the device, then output from it, both on the stream of the request, and nothing else.\<close>

lemma empty_service_copies:
  assumes "\<And>dst src sz s. cudaMemcpyAsync drv dst src sz s = cudaSuccess"
  shows "andThen (empty_prepare drv sr gs) (\<lambda>(_, gs1). andThen (empty_launch sr gs1) (\<lambda>(_, gs2). empty_post drv sr gs2)) =
    Inr (0, gs\<lparr>copies := copies gs @ [(din sr, hin sr, insize sr, stream sr), (hout sr, dout sr, outsize sr, stream sr)]\<rparr>)"
  using assms by (simp add: empty_prepare_def empty_launch_def empty_post_def queue_copy_def cuda_safe_call_def)

end
